(* ===== verification/Prelude.thy ===== *)
theory Prelude
  imports Main "HOL-Library.Word"
begin

unbundle bit_operations_syntax

text \<open>
  Shared vocabulary of the development: the machine integer types the C sources use, the
  sequencing combinator for computations that may stop early, little-endian byte sequences, and
  the byte-addressed memory on which the guest kernel, the hypervisor and the packet filters are
  modelled.  The lemma collections declared here are the simp sets of the component theories.
\<close>

named_theorems mem_simps \<open>reads after writes of the byte memory\<close>
named_theorems sep_intros \<open>separation of memory regions\<close>
named_theorems run_defs \<open>definitions unfolded to run a model\<close>

section \<open>Machine integers\<close>

type_synonym u8 = "8 word"
type_synonym u16 = "16 word"
type_synonym u32 = "32 word"
type_synonym u64 = "64 word"

text \<open>The value of a C \<open>int\<close> holding a mathematical integer, and back.\<close>

abbreviation s32 :: "u32 \<Rightarrow> int" where
  "s32 w \<equiv> sint w"

section \<open>Computations that stop\<close>

text \<open>
  A fallible computation is a value of a sum type: \<open>Inl e\<close> stops with \<open>e\<close>, \<open>Inr x\<close>
  goes on with \<open>x\<close>.
\<close>

definition bindE :: "'e + 'a \<Rightarrow> ('a \<Rightarrow> 'e + 'b) \<Rightarrow> 'e + 'b" where
  "bindE r f = (case r of Inl e \<Rightarrow> Inl e | Inr x \<Rightarrow> f x)"

lemma bindE_simps [simp]: "bindE (Inl e) f = Inl e" "bindE (Inr x) f = f x"
  by (simp_all add: bindE_def)

lemma bindE_eq_Inr: "bindE r f = Inr y \<longleftrightarrow> (\<exists>x. r = Inr x \<and> f x = Inr y)"
  by (cases r) simp_all

lemma bindE_eq_Inl: "bindE r f = Inl e \<longleftrightarrow> r = Inl e \<or> (\<exists>x. r = Inr x \<and> f x = Inl e)"
  by (cases r) simp_all

lemma bindE_assoc: "bindE (bindE r f) g = bindE r (\<lambda>x. bindE (f x) g)"
  by (cases r) simp_all

section \<open>Little-endian byte sequences\<close>

primrec le_word :: "u8 list \<Rightarrow> 'a::len word" where
  "le_word [] = 0"
| "le_word (b # bs) = ucast b OR push_bit 8 (le_word bs)"

primrec le_bytes :: "nat \<Rightarrow> 'a::len word \<Rightarrow> u8 list" where
  "le_bytes 0 v = []"
| "le_bytes (Suc n) v = ucast v # le_bytes n (drop_bit 8 v)"

lemma length_le_bytes [simp]: "length (le_bytes n v) = n"
  by (induction n arbitrary: v) simp_all

lemma le_word_le_bytes:
  fixes v :: "'a::len word"
  shows "le_word (le_bytes n v) = take_bit (8 * n) v"
proof (induction n arbitrary: v)
  case 0
  then show ?case by simp
next
  case (Suc n)
  show ?case
    by (rule bit_word_eqI)
      (auto simp: Suc bit_simps)
qed

lemma le_word_le_bytes_full:
  fixes v :: "'a::len word"
  shows "LENGTH('a) \<le> 8 * n \<Longrightarrow> le_word (le_bytes n v) = v"
  by (simp add: le_word_le_bytes take_bit_word_eq_self)

lemma le_bytes_0: "le_bytes n (0 :: 'a::len word) = replicate n 0"
  by (induction n) simp_all

lemma le_word_replicate_0: "le_word (replicate n 0) = 0"
  by (induction n) simp_all


section \<open>Byte-addressed memory\<close>

type_synonym memory = "u64 \<Rightarrow> u8"

primrec load_bytes :: "memory \<Rightarrow> u64 \<Rightarrow> nat \<Rightarrow> u8 list" where
  "load_bytes m a 0 = []"
| "load_bytes m a (Suc n) = m a # load_bytes m (a + 1) n"

primrec store_bytes :: "memory \<Rightarrow> u64 \<Rightarrow> u8 list \<Rightarrow> memory" where
  "store_bytes m a [] = m"
| "store_bytes m a (b # bs) = store_bytes (m(a := b)) (a + 1) bs"

definition load64 :: "memory \<Rightarrow> u64 \<Rightarrow> u64" where
  "load64 m a = le_word (load_bytes m a 8)"

definition store64 :: "memory \<Rightarrow> u64 \<Rightarrow> u64 \<Rightarrow> memory" where
  "store64 m a v = store_bytes m a (le_bytes 8 v)"

definition load32 :: "memory \<Rightarrow> u64 \<Rightarrow> u32" where
  "load32 m a = le_word (load_bytes m a 4)"

definition store32 :: "memory \<Rightarrow> u64 \<Rightarrow> u32 \<Rightarrow> memory" where
  "store32 m a v = store_bytes m a (le_bytes 4 v)"

definition load16 :: "memory \<Rightarrow> u64 \<Rightarrow> u16" where
  "load16 m a = le_word (load_bytes m a 2)"

lemma length_load_bytes [simp]: "length (load_bytes m a n) = n"
  by (induction n arbitrary: a) simp_all

lemma nth_load_bytes: "i < n \<Longrightarrow> load_bytes m a n ! i = m (a + of_nat i)"
proof (induction n arbitrary: a i)
  case 0
  then show ?case by simp
next
  case (Suc n)
  then show ?case by (cases i) (simp_all add: algebra_simps)
qed

lemma load_bytes_cong:
  "(\<And>i. i < n \<Longrightarrow> m (a + of_nat i) = m' (a' + of_nat i)) \<Longrightarrow> load_bytes m a n = load_bytes m' a' n"
  by (rule nth_equalityI) (simp_all add: nth_load_bytes)

lemma load_bytes_add: "load_bytes m a (i + j) = load_bytes m a i @ load_bytes m (a + of_nat i) j"
  by (induction i arbitrary: a) (simp_all add: algebra_simps)

text \<open>A write of \<open>bs\<close> at \<open>a\<close> changes exactly the addresses \<open>a .. a + |bs| - 1\<close>, modulo \<open>2\<^sup>6\<^sup>4\<close>.\<close>

lemma unat_bound_64: "unat (a :: u64) < 18446744073709551616"
  by (rule unsigned_less [where ?'b = 64, simplified])

lemma unat_of_nat_64 [simp]: "n < 2 ^ 64 \<Longrightarrow> unat (of_nat n :: u64) = n"
  by (simp add: unsigned_of_nat take_bit_nat_eq_self)

lemma unat_add_64: "unat a + unat b < 2 ^ 64 \<Longrightarrow> unat (a + b :: u64) = unat a + unat b"
  by (subst unat_add_lem [THEN iffD1]) simp_all

lemma unat_add_nat_64: "unat a + n < 2 ^ 64 \<Longrightarrow> unat (a + of_nat n :: u64) = unat a + n"
  by (subst unat_add_64) simp_all

lemma unat_minus_one_nz: "(d :: u64) \<noteq> 0 \<Longrightarrow> unat (d - 1) = unat d - 1"
  by (simp add: unat_minus_one)

lemma store_bytes_apply:
  "length bs \<le> 2 ^ 64 \<Longrightarrow>
    store_bytes m a bs x = (if unat (x - a) < length bs then bs ! unat (x - a) else m x)"
proof (induction bs arbitrary: m a)
  case Nil
  then show ?case by simp
next
  case (Cons b bs)
  show ?case
  proof (cases "x = a")
    case True
    have "unat (- 1 :: u64) = 2 ^ 64 - 1"
      by (simp add: unsigned_minus_1_eq_mask mask_eq_exp_minus_1)
    with True Cons show ?thesis by simp
  next
    case False
    then have "unat (x - (a + 1)) = unat (x - a) - 1" "unat (x - a) \<noteq> 0"
      using unat_minus_one_nz [of "x - a"] by (simp_all add: algebra_simps unat_eq_zero)
    with False Cons show ?thesis
      by (cases "unat (x - a)") auto
  qed
qed

lemma store_bytes_append:
  "store_bytes m a (xs @ ys) = store_bytes (store_bytes m a xs) (a + of_nat (length xs)) ys"
  by (induction xs arbitrary: m a) (simp_all add: algebra_simps)

lemma load_store_bytes_same:
  "length bs \<le> 2 ^ 64 \<Longrightarrow> load_bytes (store_bytes m a bs) a (length bs) = bs"
  by (rule nth_equalityI)
    (simp_all add: nth_load_bytes store_bytes_apply)

subsection \<open>Separated regions\<close>

text \<open>
  \<open>sep a n b k\<close>: the \<open>n\<close> bytes at \<open>a\<close> and the \<open>k\<close> bytes at \<open>b\<close> do not overlap,
  addresses taken modulo \<open>2\<^sup>6\<^sup>4\<close>.
\<close>

definition sep :: "u64 \<Rightarrow> nat \<Rightarrow> u64 \<Rightarrow> nat \<Rightarrow> bool" where
  "sep a n b k \<longleftrightarrow> n \<le> unat (b - a) \<and> k \<le> unat (a - b)"

lemma sep_sym: "sep a n b k = sep b k a n"
  by (auto simp: sep_def)

lemma sep_mono: "sep a n b k \<Longrightarrow> n' \<le> n \<Longrightarrow> k' \<le> k \<Longrightarrow> sep a n' b k'"
  by (auto simp: sep_def)

lemma unat_sub_less: "(a :: u64) < b \<Longrightarrow> unat (a - b) = 2 ^ 64 - (unat b - unat a)"
  by (simp add: unat_sub_if' word_less_nat_alt word_le_nat_alt)

lemma sep_if_below [sep_intros]:
  assumes "unat a + n \<le> unat b" "unat b + k \<le> 2 ^ 64" "0 < n"
  shows "sep a n b k"
proof -
  have "a < b" using assms by (simp add: word_less_nat_alt)
  with assms show ?thesis
    by (auto simp: sep_def unat_sub_less unat_sub word_le_nat_alt)
qed

lemma sep_if_above [sep_intros]:
  "unat b + k \<le> unat a \<Longrightarrow> unat a + n \<le> 2 ^ 64 \<Longrightarrow> 0 < k \<Longrightarrow> sep a n b k"
  by (subst sep_sym) (rule sep_if_below)

lemma sep_outside:
  assumes "sep a n b k" "i < k"
  shows "\<not> unat (b + of_nat i - a) < n"
proof
  let ?d = "unat (b - a)"
  assume lt: "unat (b + of_nat i - a) < n"
  from assms have "i < unat (a - b)" "n \<le> ?d" by (auto simp: sep_def)
  moreover have "unat (a - b) = (if b - a = 0 then 0 else 2 ^ 64 - ?d)"
    using unat_bound_64 [of a] unat_bound_64 [of b]
    by (auto simp: unat_sub_if' word_le_nat_alt word_unat_eq_iff)
  ultimately have "?d + i < 2 ^ 64" by (auto split: if_splits)
  then have "unat ((b - a) + of_nat i) = ?d + i"
    by (rule unat_add_nat_64)
  moreover have "(b - a) + of_nat i = b + of_nat i - a" by simp
  ultimately show False using lt \<open>n \<le> ?d\<close> by simp
qed

lemma load_store_bytes_sep [mem_simps]:
  "sep a n b k \<Longrightarrow> length bs = n \<Longrightarrow> n \<le> 2 ^ 64 \<Longrightarrow>
    load_bytes (store_bytes m a bs) b k = load_bytes m b k"
  by (rule load_bytes_cong) (auto simp: store_bytes_apply dest: sep_outside)

lemma load64_store64_same [mem_simps, simp]: "load64 (store64 m a v) a = v"
  using load_store_bytes_same [of "le_bytes 8 v" m a]
  by (simp add: load64_def store64_def le_word_le_bytes_full del: load_bytes.simps store_bytes.simps
      le_word.simps le_bytes.simps)

lemma load32_store32_same [mem_simps, simp]: "load32 (store32 m a v) a = v"
  using load_store_bytes_same [of "le_bytes 4 v" m a]
  by (simp add: load32_def store32_def le_word_le_bytes_full)

lemma load64_store64_sep [mem_simps]:
  "sep a 8 b 8 \<Longrightarrow> load64 (store64 m a v) b = load64 m b"
  by (simp add: load64_def store64_def load_store_bytes_sep)

lemma load64_store_bytes_sep [mem_simps]:
  "sep a (length bs) b 8 \<Longrightarrow> length bs \<le> 2 ^ 64 \<Longrightarrow> load64 (store_bytes m a bs) b = load64 m b"
  by (simp add: load64_def load_store_bytes_sep)

lemma load_bytes_store64_sep [mem_simps]:
  "sep a 8 b k \<Longrightarrow> load_bytes (store64 m a v) b k = load_bytes m b k"
  by (simp add: store64_def load_store_bytes_sep)

section \<open>Bits of 64-bit words\<close>

lemma and_mask_64: "unat (x AND mask n :: u64) = unat x mod 2 ^ n"
proof -
  have "unat (take_bit n x) = take_bit n (unat x)" by (rule unsigned_take_bit_eq)
  then show ?thesis unfolding take_bit_eq_mask [of n x] by (simp only: take_bit_eq_mod)
qed

lemma unat_drop_bit: "unat (drop_bit n (v :: u64)) = unat v div 2 ^ n"
proof -
  have "unat (drop_bit n v) = drop_bit n (take_bit 64 (unat v))" using unsigned_drop_bit_eq [of n v] by simp
  moreover have "take_bit 64 (unat v) = unat v" using unat_bound_64 [of v] by (simp add: take_bit_nat_eq_self)
  ultimately show ?thesis by (simp only: drop_bit_eq_div)
qed

lemma and_not_plus_and: "(x AND NOT y) + (x AND y) = (x :: u64)"
proof -
  have "(x AND NOT y) AND (x AND y) = 0" "(x AND NOT y) OR (x AND y) = x"
    by (auto intro!: bit_eqI simp: bit_simps)
  then show ?thesis using word_plus_and_or [of "x AND NOT y" "x AND y"] by (simp only: add_0)
qed

end
