(* ===== verification/Kernel_Base.thy ===== *)
theory Kernel_Base
  imports Prelude
begin

unbundle bit_operations_syntax

text \<open>
  What every part of the guest kernel of \<^verbatim>\<open>kvm_test/kvm-kernel-example/kernel\<close> shares: the
  constants of \<^verbatim>\<open>mm/translate.h\<close>, \<^verbatim>\<open>utils/errno.h\<close> and \<^verbatim>\<open>utils/misc.h\<close>, the ways a guest run can
  stop, and the string routines of \<^verbatim>\<open>utils/string.c\<close>.

  Guest memory is the byte memory of the prelude, indexed by \<^emph>\<open>physical\<close> address.  A C pointer is
  a 64-bit virtual address.  The routines of \<^verbatim>\<open>utils/string.c\<close> take the translation the processor
  applies to it as the argument \<open>tr\<close>; the memory manager only dereferences pointers of the kernel
  window, which starts at \<^verbatim>\<open>KERNEL_BASE_OFFSET\<close> and is mapped linearly by
  \<^verbatim>\<open>init_pagetable\<close>, so there the translation is \<open>dm\<close> below.
\<close>

section \<open>Constants\<close>

definition KERNEL_BASE_OFFSET :: u64 where "KERNEL_BASE_OFFSET = 0x8000000000"
definition KERNEL_PAGING_SIZE :: u64 where "KERNEL_PAGING_SIZE = 0x200000"
definition MIN_USER_MEM :: u64 where "MIN_USER_MEM = KERNEL_PAGING_SIZE"

definition PROT_R :: u32 where "PROT_R = 1"
definition PROT_W :: u32 where "PROT_W = 2"
definition PROT_X :: u32 where "PROT_X = 4"
definition PROT_RW :: u32 where "PROT_RW = PROT_R OR PROT_W"

definition PDE64_PRESENT :: u64 where "PDE64_PRESENT = 1"
definition PDE64_RW :: u64 where "PDE64_RW = 2"
definition PDE64_USER :: u64 where "PDE64_USER = 4"
definition PDE64_PS :: u64 where "PDE64_PS = 0x80"

definition EPERM :: int where "EPERM = 1"
definition ENOEXEC :: int where "ENOEXEC = 8"
definition EBADF :: int where "EBADF = 9"
definition ENOMEM :: int where "ENOMEM = 12"
definition EACCES :: int where "EACCES = 13"
definition EFAULT :: int where "EFAULT = 14"
definition EINVAL :: int where "EINVAL = 22"
definition ENFILE :: int where "ENFILE = 23"
definition ENOSYS :: int where "ENOSYS = 38"

lemmas errno_defs = EPERM_def ENOEXEC_def EBADF_def ENOMEM_def EACCES_def EFAULT_def EINVAL_def
  ENFILE_def ENOSYS_def

lemmas pde_defs = PDE64_PRESENT_def PDE64_RW_def PDE64_USER_def PDE64_PS_def

lemmas prot_defs = PROT_R_def PROT_W_def PROT_X_def PROT_RW_def

text \<open>\<^verbatim>\<open>utils/misc.h\<close>\<close>

definition aligndown :: "u64 \<Rightarrow> u64" where
  "aligndown v = v AND (- 0x1000)"

definition alignup_page :: "u64 \<Rightarrow> u64" where
  "alignup_page v = (if v AND 0xfff \<noteq> 0 then aligndown v + 0x1000 else v)"

definition alignok :: "u64 \<Rightarrow> bool" where
  "alignok v \<longleftrightarrow> v = aligndown v"

text \<open>\<^verbatim>\<open>USER_MEM_RANGE_OK\<close> of \<^verbatim>\<open>mm/translate.h\<close>\<close>

definition USER_MEM_RANGE_OK :: "u64 \<Rightarrow> bool" where
  "USER_MEM_RANGE_OK v \<longleftrightarrow> MIN_USER_MEM \<le> v \<and> drop_bit 48 v = 0 \<and> drop_bit 39 v \<noteq> 1"

section \<open>How a guest run stops\<close>

text \<open>
  \<open>Panic\<close> is the \<^verbatim>\<open>panic\<close> of the guest kernel (\<^verbatim>\<open>utils/panic.s\<close>), \<open>Exited\<close> the
  \<^verbatim>\<open>exit(0)\<close> of the \<^verbatim>\<open>NR_HP_exit\<close> hypercall, \<open>Host_error\<close> an \<^verbatim>\<open>error(..)\<close> or
  \<^verbatim>\<open>assert\<close> of the hypervisor, \<open>Undefined\<close> a step the C standard leaves undefined,
  \<open>Diverge\<close> a loop that never ends.
\<close>

datatype stop =
    Panic string
  | Exited int
  | Host_error string
  | Undefined string
  | Diverge

section \<open>The kernel window\<close>

definition dm :: "u64 \<Rightarrow> u64" where
  "dm p = p AND NOT KERNEL_BASE_OFFSET"

text \<open>A pointer of the kernel window.\<close>

definition kptr :: "u64 \<Rightarrow> bool" where
  "kptr p \<longleftrightarrow> 2 ^ 39 \<le> unat p \<and> unat p < 2 ^ 40"

definition kload64 :: "memory \<Rightarrow> u64 \<Rightarrow> u64" where
  "kload64 m p = load64 m (dm p)"

definition kstore64 :: "memory \<Rightarrow> u64 \<Rightarrow> u64 \<Rightarrow> memory" where
  "kstore64 m p v = store64 m (dm p) v"

lemma dm_unset_bit: "dm p = unset_bit 39 p"
  by (simp add: dm_def KERNEL_BASE_OFFSET_def unset_bit_eq_and_not push_bit_of_1)

lemma bit_39_if_kptr: "kptr p \<Longrightarrow> bit p 39"
proof -
  assume "kptr p"
  then have "unat p div 2 ^ 39 = 1"
    by (intro div_nat_eqI) (simp_all add: kptr_def)
  then have "odd (unat p div 2 ^ 39)" by simp
  then have "bit (unat p) 39" by (simp add: bit_iff_odd)
  then show ?thesis by (simp add: bit_unsigned_iff)
qed

lemma dm_kptr: "kptr p \<Longrightarrow> dm p = p - 0x8000000000"
  by (simp add: dm_unset_bit unset_bit_eq bit_39_if_kptr)

lemma unat_dm_kptr: "kptr p \<Longrightarrow> unat (dm p) = unat p - 2 ^ 39"
  by (simp add: dm_kptr kptr_def unat_sub word_le_nat_alt)

lemma dm_add: "kptr p \<Longrightarrow> unat p + n < 2 ^ 40 \<Longrightarrow> dm (p + of_nat n) = dm p + of_nat n"
proof -
  assume p: "kptr p" "unat p + n < 2 ^ 40"
  then have "unat (p + of_nat n) = unat p + n"
    by (intro unat_add_nat_64) simp
  with p have "kptr (p + of_nat n)" by (simp add: kptr_def)
  with p show ?thesis by (simp add: dm_kptr)
qed

lemma sep_dm:
  assumes "kptr p" "kptr q" "sep p n q k"
  shows "sep (dm p) n (dm q) k"
  using assms by (simp add: sep_def dm_kptr)

lemma kload64_kstore64_same [simp, mem_simps]: "kload64 (kstore64 m p v) p = v"
  by (simp add: kload64_def kstore64_def)

lemma kload64_kstore64_sep [mem_simps]:
  "kptr p \<Longrightarrow> kptr q \<Longrightarrow> sep p 8 q 8 \<Longrightarrow> kload64 (kstore64 m p v) q = kload64 m q"
  by (simp add: kload64_def kstore64_def load64_store64_sep sep_dm)

end
