(* ===== verification/Kernel_String.thy ===== *)
theory Kernel_String
  imports Kernel_Base
begin

unbundle bit_operations_syntax

text \<open>
  \<^verbatim>\<open>kernel/utils/string.c\<close>.  The routines check nothing: each byte access goes through the
  translation \<open>tr\<close> of the processor.  The lemmas relate them to the list functions of the prelude:
  \<open>memset\<close> and \<open>memcpy\<close> to one write of a byte sequence, \<open>strnlen\<close> to the first zero byte,
  \<open>memcmp\<close> to equality of byte sequences.
\<close>

section \<open>Model\<close>

function strnlen_loop :: "(u64 \<Rightarrow> u64) \<Rightarrow> memory \<Rightarrow> u64 \<Rightarrow> u64 \<Rightarrow> u64 \<Rightarrow> u64" where
  "strnlen_loop tr m s maxlen i =
     (if i < maxlen then
        if m (tr s) = 0 then i else strnlen_loop tr m (s + 1) maxlen (i + 1)
      else maxlen)"
  by pat_completeness auto
termination
proof (relation "measure (\<lambda>(tr, m, s, maxlen, i). unat maxlen - unat i)")
  fix tr :: "u64 \<Rightarrow> u64" and m :: memory and s maxlen i :: u64
  assume "i < maxlen"
  then have "unat (i + 1) = unat i + 1" "unat i < unat maxlen"
    using unat_bound_64 [of maxlen] by (simp_all add: word_less_nat_alt unat_add_64)
  then show "((tr, m, s + 1, maxlen, i + 1), tr, m, s, maxlen, i)
      \<in> measure (\<lambda>(tr, m, s, maxlen, i). unat maxlen - unat i)"
    by simp
qed simp

declare strnlen_loop.simps [simp del]

definition strnlen :: "(u64 \<Rightarrow> u64) \<Rightarrow> memory \<Rightarrow> u64 \<Rightarrow> u64 \<Rightarrow> u64" where
  "strnlen tr m s maxlen = strnlen_loop tr m s maxlen 0"

definition strlen :: "(u64 \<Rightarrow> u64) \<Rightarrow> memory \<Rightarrow> u64 \<Rightarrow> u64" where
  "strlen tr m s = strnlen tr m s (push_bit 63 1 - 1)"

text \<open>
  The counter of \<^verbatim>\<open>memset\<close> is an \<^verbatim>\<open>int\<close>: the model is the behaviour for lengths below \<open>2 ^ 31\<close>,
  and a caller with a length that may reach it has the overflow as an outcome of its own.
\<close>

primrec memset_loop :: "(u64 \<Rightarrow> u64) \<Rightarrow> memory \<Rightarrow> u64 \<Rightarrow> u8 \<Rightarrow> nat \<Rightarrow> memory" where
  "memset_loop tr m b c 0 = m"
| "memset_loop tr m b c (Suc i) = (memset_loop tr m b c i) (tr (b + of_nat i) := c)"

definition memset :: "(u64 \<Rightarrow> u64) \<Rightarrow> memory \<Rightarrow> u64 \<Rightarrow> u32 \<Rightarrow> u64 \<Rightarrow> memory" where
  "memset tr m b c len = memset_loop tr m b (ucast c) (unat len)"

primrec memcpy_loop :: "(u64 \<Rightarrow> u64) \<Rightarrow> memory \<Rightarrow> u64 \<Rightarrow> u64 \<Rightarrow> nat \<Rightarrow> memory" where
  "memcpy_loop tr m dst src 0 = m"
| "memcpy_loop tr m dst src (Suc n) = memcpy_loop tr (m(tr dst := m (tr src))) (dst + 1) (src + 1) n"

definition memcpy :: "(u64 \<Rightarrow> u64) \<Rightarrow> memory \<Rightarrow> u64 \<Rightarrow> u64 \<Rightarrow> u64 \<Rightarrow> memory" where
  "memcpy tr m dst src n = memcpy_loop tr m dst src (unat n)"

primrec memcmp_loop :: "(u64 \<Rightarrow> u64) \<Rightarrow> memory \<Rightarrow> u64 \<Rightarrow> u64 \<Rightarrow> nat \<Rightarrow> int" where
  "memcmp_loop tr m s1 s2 0 = 0"
| "memcmp_loop tr m s1 s2 (Suc n) =
     (let u1 = m (tr s1); u2 = m (tr s2)
      in if u1 \<noteq> u2 then uint u1 - uint u2 else memcmp_loop tr m (s1 + 1) (s2 + 1) n)"

definition memcmp :: "(u64 \<Rightarrow> u64) \<Rightarrow> memory \<Rightarrow> u64 \<Rightarrow> u64 \<Rightarrow> u64 \<Rightarrow> int" where
  "memcmp tr m s1 s2 n = memcmp_loop tr m s1 s2 (unat n)"

section \<open>Lemmas\<close>

text \<open>The bytes the processor reads at virtual addresses \<open>a .. a + n - 1\<close>.\<close>

definition vbytes :: "(u64 \<Rightarrow> u64) \<Rightarrow> memory \<Rightarrow> u64 \<Rightarrow> nat \<Rightarrow> u8 list" where
  "vbytes tr m a n = map (\<lambda>i. m (tr (a + of_nat i))) [0..<n]"

lemma length_vbytes [simp]: "length (vbytes tr m a n) = n"
  by (simp add: vbytes_def)

lemma vbytes_0 [simp]: "vbytes tr m a 0 = []"
  by (simp add: vbytes_def)

lemma vbytes_Suc: "vbytes tr m a (Suc n) = m (tr a) # vbytes tr m (a + 1) n"
  by (simp add: vbytes_def map_upt_Suc algebra_simps del: upt_Suc)

lemma vbytes_dm:
  "kptr a \<Longrightarrow> unat a + n \<le> 2 ^ 40 \<Longrightarrow> vbytes dm m a n = load_bytes m (dm a) n"
  by (rule nth_equalityI) (simp_all add: vbytes_def nth_load_bytes dm_add)

lemma memcmp_loop_eq_0_iff:
  "memcmp_loop tr m s1 s2 n = 0 \<longleftrightarrow> vbytes tr m s1 n = vbytes tr m s2 n"
proof (induction n arbitrary: s1 s2)
  case 0
  then show ?case by simp
next
  case (Suc n)
  then show ?case by (auto simp: vbytes_Suc Let_def word_uint_eq_iff)
qed

lemma memset_loop_apply:
  "memset_loop tr m b c n x = (if \<exists>i<n. x = tr (b + of_nat i) then c else m x)"
  by (induction n) (auto simp: less_Suc_eq)

lemma memset_loop_dm:
  assumes "kptr b" "unat b + n \<le> 2 ^ 40"
  shows "memset_loop dm m b c n = store_bytes m (dm b) (replicate n c)"
proof
  fix x
  have "(\<exists>i<n. x = dm (b + of_nat i)) \<longleftrightarrow> unat (x - dm b) < n"
  proof
    assume "\<exists>i<n. x = dm (b + of_nat i)"
    with assms show "unat (x - dm b) < n" by (auto simp: dm_add)
  next
    assume lt: "unat (x - dm b) < n"
    have "x = dm (b + of_nat (unat (x - dm b)))"
      using assms lt by (subst dm_add) simp_all
    with lt show "\<exists>i<n. x = dm (b + of_nat i)" by blast
  qed
  with assms show "memset_loop dm m b c n x = store_bytes m (dm b) (replicate n c) x"
    by (auto simp: memset_loop_apply store_bytes_apply)
qed

lemma memset_dm:
  "kptr b \<Longrightarrow> unat b + unat len \<le> 2 ^ 40 \<Longrightarrow>
    memset dm m b c len = store_bytes m (dm b) (replicate (unat len) (ucast c))"
  by (simp add: memset_def memset_loop_dm)

text \<open>
  A forward byte copy between separated ranges reproduces the source bytes.  The translation must be
  injective between the ranges and on the target.
\<close>

lemma memcpy_loop_other:
  "(\<And>i. i < n \<Longrightarrow> x \<noteq> tr (dst + of_nat i)) \<Longrightarrow> memcpy_loop tr m dst src n x = m x"
proof (induction n arbitrary: m dst src)
  case 0
  then show ?case by simp
next
  case (Suc n)
  have "x \<noteq> tr dst" using Suc.prems [of 0] by simp
  moreover have "\<And>i. i < n \<Longrightarrow> x \<noteq> tr (dst + 1 + of_nat i)"
    using Suc.prems [of "Suc i" for i] by (simp add: algebra_simps)
  ultimately show ?case by (simp add: Suc.IH)
qed

lemma memcpy_loop_copies:
  assumes "inj_on (\<lambda>i. tr (dst + of_nat i)) {..<n}"
    and "\<And>i j. i < n \<Longrightarrow> j < n \<Longrightarrow> tr (dst + of_nat i) \<noteq> tr (src + of_nat j)"
  shows "vbytes tr (memcpy_loop tr m dst src n) dst n = vbytes tr m src n"
  using assms
proof (induction n arbitrary: m dst src)
  case 0
  then show ?case by simp
next
  case (Suc n)
  let ?m = "m(tr dst := m (tr src))"
  have inj: "inj_on (\<lambda>i. tr (dst + 1 + of_nat i)) {..<n}"
    using comp_inj_on [of Suc "{..<n}" "\<lambda>i. tr (dst + of_nat i)"] Suc.prems(1)
    by (simp add: o_def inj_on_subset algebra_simps image_subset_iff)
  have disj: "tr (dst + 1 + of_nat i) \<noteq> tr (src + 1 + of_nat j)" if "i < n" "j < n" for i j
    using Suc.prems(2) [of "Suc i" "Suc j"] that by (simp add: algebra_simps)
  have head: "tr dst \<noteq> tr (dst + 1 + of_nat i)" if "i < n" for i
    using inj_onD [OF Suc.prems(1), of 0 "Suc i"] that by (auto simp: algebra_simps)
  have src: "tr dst \<noteq> tr (src + 1 + of_nat j)" if "j < n" for j
    using Suc.prems(2) [of 0 "Suc j"] that by (simp add: algebra_simps)
  have "vbytes tr (memcpy_loop tr ?m (dst + 1) (src + 1) n) (dst + 1) n = vbytes tr ?m (src + 1) n"
    by (rule Suc.IH [OF inj disj])
  also have "\<dots> = vbytes tr m (src + 1) n"
    by (rule nth_equalityI) (simp_all add: vbytes_def src [THEN not_sym])
  finally show ?case
    using head by (simp add: vbytes_Suc memcpy_loop_other)
qed

text \<open>
  \<open>strnlen\<close> returns the index of the first zero byte below \<open>maxlen\<close>, or \<open>maxlen\<close>.
\<close>

lemma strnlen_loop_spec:
  assumes "i \<le> maxlen"
  shows "i \<le> strnlen_loop tr m s maxlen i \<and> strnlen_loop tr m s maxlen i \<le> maxlen
    \<and> (\<forall>j < unat (strnlen_loop tr m s maxlen i) - unat i. m (tr (s + of_nat j)) \<noteq> 0)
    \<and> (strnlen_loop tr m s maxlen i < maxlen \<longrightarrow>
        m (tr (s + (strnlen_loop tr m s maxlen i - i))) = 0)"
  using assms
proof (induction tr m s maxlen i rule: strnlen_loop.induct)
  case (1 tr m s maxlen i)
  let ?r = "strnlen_loop tr m (s + 1) maxlen (i + 1)"
  show ?case
  proof (cases "i < maxlen \<and> m (tr s) \<noteq> 0")
    case False
    with "1.prems" show ?thesis
      by (auto simp: strnlen_loop.simps [of tr m s maxlen i])
  next
    case True
    then have i1: "unat (i + 1) = unat i + 1" "i + 1 \<le> maxlen"
      using unat_bound_64 [of maxlen]
      by (simp_all add: word_less_nat_alt word_le_nat_alt unat_add_64)
    note IH = "1.IH" [OF conjunct1 [OF True] conjunct2 [OF True] i1(2)]
    have eq: "strnlen_loop tr m s maxlen i = ?r"
      using True by (simp add: strnlen_loop.simps [of tr m s maxlen i])
    have nz: "m (tr (s + of_nat j)) \<noteq> 0" if "j < unat ?r - unat i" for j
    proof (cases j)
      case 0
      with True show ?thesis by simp
    next
      case (Suc k)
      with that i1 have "k < unat ?r - unat (i + 1)" by simp
      with IH have "m (tr (s + 1 + of_nat k)) \<noteq> 0" by blast
      with Suc show ?thesis by (simp add: algebra_simps)
    qed
    have "i \<le> ?r" using IH i1 by (simp add: word_le_nat_alt)
    with IH nz show ?thesis unfolding eq by (simp add: algebra_simps)
  qed
qed

lemma strnlen_le: "strnlen tr m s maxlen \<le> maxlen"
  using strnlen_loop_spec [of 0 maxlen tr m s] by (simp add: strnlen_def)

lemma strnlen_nonzero:
  "j < unat (strnlen tr m s maxlen) \<Longrightarrow> m (tr (s + of_nat j)) \<noteq> 0"
  using strnlen_loop_spec [of 0 maxlen tr m s] by (simp add: strnlen_def)

lemma strnlen_zero:
  "strnlen tr m s maxlen < maxlen \<Longrightarrow> m (tr (s + strnlen tr m s maxlen)) = 0"
  using strnlen_loop_spec [of 0 maxlen tr m s] by (simp add: strnlen_def)

end
