(* ===== verification/Translate.thy ===== *)
theory Translate
  imports Kmalloc
begin

unbundle bit_operations_syntax

text \<open>
  \<^verbatim>\<open>kernel/mm/translate.c\<close>: the four-level page tables of the guest.  The state adds the register
  \<^verbatim>\<open>cr3\<close> to the heap; the tables themselves are words of the guest memory.  Before
  \<^verbatim>\<open>init_pagetable\<close> the kernel runs in the identity mapping of the hypervisor, so that function stores
  through physical addresses; all others reach the tables through the kernel window.
\<close>

record kpaging = kheap +
  cr3 :: u64

definition pte_index :: "u64 \<Rightarrow> nat \<Rightarrow> u64" where
  "pte_index v bits = (drop_bit bits v) AND 0x1ff"

definition PML4OFF :: "u64 \<Rightarrow> u64" where "PML4OFF v = pte_index v 39"
definition PDPOFF :: "u64 \<Rightarrow> u64" where "PDPOFF v = pte_index v 30"
definition PDOFF :: "u64 \<Rightarrow> u64" where "PDOFF v = pte_index v 21"
definition PTOFF :: "u64 \<Rightarrow> u64" where "PTOFF v = pte_index v 12"

lemmas offset_defs = PML4OFF_def PDPOFF_def PDOFF_def PTOFF_def

primrec fill_pd :: "memory \<Rightarrow> u64 \<Rightarrow> nat \<Rightarrow> memory" where
  "fill_pd m pd 0 = m"
| "fill_pd m pd (Suc i) =
     store64 (fill_pd m pd i) (pd + 8 * of_nat i)
       (PDE64_PRESENT OR PDE64_RW OR PDE64_PS OR (of_nat i * KERNEL_PAGING_SIZE))"

definition init_pagetable :: "'z kpaging_scheme \<Rightarrow> 'z kpaging_scheme" where
  "init_pagetable s =
     (let pml4 = cr3 s;
          pdp = pml4 + 0x3000;
          m1 = store64 (kmem s) (pml4 + 8) (PDE64_PRESENT OR PDE64_RW OR pdp);
          pd = pdp + 0x1000;
          m2 = store64 m1 pdp (PDE64_PRESENT OR PDE64_RW OR pd)
      in s\<lparr>kmem := fill_pd m2 pd 0x200\<rparr>)"

definition get_pml4_addr :: "'z kpaging_scheme \<Rightarrow> u64" where
  "get_pml4_addr s = cr3 s OR KERNEL_BASE_OFFSET"

definition physical :: "u64 \<Rightarrow> stop + u64" where
  "physical vaddr =
     (if vaddr AND KERNEL_BASE_OFFSET \<noteq> 0 then Inr (vaddr XOR KERNEL_BASE_OFFSET)
      else Inl (Panic ''translate.c#physical: don't pass non-kernel based address''))"

text \<open>The table an entry points to, as the kernel addresses it.\<close>

definition next_table :: "u64 \<Rightarrow> u64" where
  "next_table e = (e AND (- 0x1000)) OR KERNEL_BASE_OFFSET"

text \<open>The \<^verbatim>\<open>PAGING\<close> macro of \<^verbatim>\<open>add_trans_user\<close>: step to the next table, making one if there is none.\<close>

definition paging_user :: "'z kpaging_scheme \<Rightarrow> u64 \<Rightarrow> stop + (u64 \<times> 'z kpaging_scheme)" where
  "paging_user s p =
     (if kload64 (kmem s) p AND PDE64_PRESENT = 0 then
        bindE (kmalloc s 0x1000 MALLOC_PAGE_ALIGN) (\<lambda>(c, s1).
        bindE (physical c) (\<lambda>pc.
          Inr (c, s1\<lparr>kmem := kstore64 (kmem s1) p (PDE64_PRESENT OR PDE64_RW OR PDE64_USER OR pc)\<rparr>)))
      else if kload64 (kmem s) p AND PDE64_USER = 0
        then Inl (Panic ''translate.c#add_trans_user: invalid address'')
      else Inr (next_table (kload64 (kmem s) p), s))"

definition or_entry :: "memory \<Rightarrow> u64 \<Rightarrow> u64 \<Rightarrow> memory" where
  "or_entry m p bits = kstore64 m p (kload64 m p OR bits)"

definition set_prot :: "memory \<Rightarrow> u64 \<Rightarrow> u32 \<Rightarrow> memory" where
  "set_prot m p prot =
     (let m1 = (if prot AND PROT_R \<noteq> 0 then or_entry m p PDE64_USER else m)
      in if prot AND PROT_W \<noteq> 0 then or_entry m1 p PDE64_RW else m1)"

definition add_trans_user ::
    "'z kpaging_scheme \<Rightarrow> u64 \<Rightarrow> u64 \<Rightarrow> u32 \<Rightarrow> stop + 'z kpaging_scheme" where
  "add_trans_user s vaddr pa prot =
     (if \<not> USER_MEM_RANGE_OK vaddr then Inl (Panic ''translate.c#add_trans_user: not allowed'')
      else let paddr = pa AND NOT KERNEL_BASE_OFFSET; pml4 = get_pml4_addr s in
        bindE (paging_user s (pml4 + 8 * PML4OFF vaddr)) (\<lambda>(pdp, s1).
        bindE (paging_user s1 (pdp + 8 * PDPOFF vaddr)) (\<lambda>(pd, s2).
        bindE (paging_user s2 (pd + 8 * PDOFF vaddr)) (\<lambda>(pt, s3).
          let p = pt + 8 * PTOFF vaddr
          in Inr (s3\<lparr>kmem := set_prot (kstore64 (kmem s3) p (PDE64_PRESENT OR paddr)) p prot\<rparr>)))))"

text \<open>The \<^verbatim>\<open>PAGING\<close> macro of \<^verbatim>\<open>modify_permission\<close>; \<open>None\<close> is its \<^verbatim>\<open>return -1\<close>.\<close>

definition paging_present :: "memory \<Rightarrow> u64 \<Rightarrow> u64 option" where
  "paging_present m p =
     (if kload64 m p AND PDE64_PRESENT = 0 then None else Some (next_table (kload64 m p)))"

definition modify_permission :: "'z kpaging_scheme \<Rightarrow> u64 \<Rightarrow> u32 \<Rightarrow> int \<times> 'z kpaging_scheme" where
  "modify_permission s vaddr prot =
     (let m = kmem s; pml4 = get_pml4_addr s in
      case paging_present m (pml4 + 8 * PML4OFF vaddr) of None \<Rightarrow> (-1, s) | Some pdp \<Rightarrow>
      case paging_present m (pdp + 8 * PDPOFF vaddr) of None \<Rightarrow> (-1, s) | Some pd \<Rightarrow>
      case paging_present m (pd + 8 * PDOFF vaddr) of None \<Rightarrow> (-1, s) | Some pt \<Rightarrow>
        let e = pt + 8 * PTOFF vaddr
        in if kload64 m e AND PDE64_PRESENT = 0 then (-1, s)
           else (0, s\<lparr>kmem := set_prot (kstore64 m e (kload64 m e AND NOT (PDE64_USER OR PDE64_RW))) e prot\<rparr>))"

text \<open>The \<^verbatim>\<open>PAGING\<close> macro of \<^verbatim>\<open>translate\<close>.\<close>

definition paging_check :: "memory \<Rightarrow> bool \<Rightarrow> bool \<Rightarrow> u64 \<Rightarrow> u64 option" where
  "paging_check m usermode writable p =
     (if kload64 m p AND PDE64_PRESENT = 0 then None
      else if usermode \<and> kload64 m p AND PDE64_USER = 0 then None
      else if writable \<and> kload64 m p AND PDE64_RW = 0 then None
      else Some (next_table (kload64 m p)))"

text \<open>The last \<^verbatim>\<open>physical(ret)\<close> cannot panic, since \<^verbatim>\<open>ret\<close> has the bit of the kernel window.\<close>

definition translate :: "'z kpaging_scheme \<Rightarrow> u64 \<Rightarrow> bool \<Rightarrow> bool \<Rightarrow> u64" where
  "translate s vaddr usermode writable =
     (let m = kmem s; pml4 = get_pml4_addr s in
      case paging_check m usermode writable (pml4 + 8 * PML4OFF vaddr) of None \<Rightarrow> -1 | Some pdp \<Rightarrow>
      case paging_check m usermode writable (pdp + 8 * PDPOFF vaddr) of None \<Rightarrow> -1 | Some pd \<Rightarrow>
      case paging_check m usermode writable (pd + 8 * PDOFF vaddr) of None \<Rightarrow> -1 | Some pt \<Rightarrow>
        let e = kload64 m (pd + 8 * PDOFF vaddr) in
        if e AND PDE64_PS \<noteq> 0 then (e AND (- 0x200000)) + (vaddr AND 0x1fffff)
        else (case paging_check m usermode writable (pt + 8 * PTOFF vaddr) of None \<Rightarrow> -1
              | Some ret \<Rightarrow> (ret XOR KERNEL_BASE_OFFSET) + (vaddr AND 0xfff)))"

definition PF_X :: u32 where "PF_X = 1"
definition PF_W :: u32 where "PF_W = 2"
definition PF_R :: u32 where "PF_R = 4"

definition pf_to_prot :: "u32 \<Rightarrow> u32" where
  "pf_to_prot pf =
     (let ret = 0;
          ret = (if pf AND PF_R \<noteq> 0 then ret OR PROT_R else ret);
          ret = (if pf AND PF_W \<noteq> 0 then ret OR PROT_W else ret)
      in if pf AND PF_X \<noteq> 0 then ret OR PROT_X else ret)"

end
