(* ===== verification/Kmalloc_Inv.thy ===== *)
theory Kmalloc_Inv
  imports Kmalloc
begin

unbundle bit_operations_syntax

text \<open>
  The invariant of the allocator of \<^verbatim>\<open>kernel/mm/kmalloc.c\<close>.  A heap is described by the set \<open>A\<close>
  of allocated chunks and the list \<open>F\<close> of freed chunks in bin order, each chunk an address and a
  size.  The lemmas say how each operation changes \<open>A\<close> and \<open>F\<close>, that it neither panics nor
  diverges, and that it writes only inside the chunks it works on.  Every chunk and every size is 0
  or 112 modulo 128 (112 comes from page-aligned requests), so that a chunk has at least 112 bytes
  and the link of a freed chunk always fits.
\<close>

declare split_paired_All [simp del] split_paired_Ex [simp del]

section \<open>Regions of the kernel window\<close>

type_synonym region = "u64 \<times> nat"

definition kreg :: "region \<Rightarrow> bool" where
  "kreg c \<longleftrightarrow> 2 ^ 39 \<le> unat (fst c) \<and> unat (fst c) + snd c \<le> 2 ^ 40 \<and> 0 < snd c"

definition disjr :: "region \<Rightarrow> region \<Rightarrow> bool" where
  "disjr c d \<longleftrightarrow> unat (fst c) + snd c \<le> unat (fst d) \<or> unat (fst d) + snd d \<le> unat (fst c)"

definition same_on :: "memory \<Rightarrow> memory \<Rightarrow> region \<Rightarrow> bool" where
  "same_on m m' c \<longleftrightarrow> load_bytes m' (dm (fst c)) (snd c) = load_bytes m (dm (fst c)) (snd c)"

lemma disjr_sym: "disjr c d = disjr d c"
  by (auto simp: disjr_def)

lemma same_on_refl [simp]: "same_on m m c"
  by (simp add: same_on_def)

lemma same_on_trans: "same_on m m' c \<Longrightarrow> same_on m' m'' c \<Longrightarrow> same_on m m'' c"
  by (simp add: same_on_def)

lemma kptr_if_kreg: "kreg c \<Longrightarrow> kptr (fst c)"
  by (simp add: kreg_def kptr_def)

lemma unat_offset: "kreg c \<Longrightarrow> i \<le> snd c \<Longrightarrow> unat (fst c + of_nat i) = unat (fst c) + i"
  by (rule unat_add_nat_64) (simp add: kreg_def)

lemma kreg_sub: "kreg c \<Longrightarrow> i + l \<le> snd c \<Longrightarrow> 0 < l \<Longrightarrow> kreg (fst c + of_nat i, l)"
  by (simp add: kreg_def unat_offset)

lemma disjr_sub:
  assumes "kreg c" "kreg d" "disjr c d" "i + l \<le> snd c" "j + k \<le> snd d"
  shows "disjr (fst c + of_nat i, l) (fst d + of_nat j, k)"
  using assms by (auto simp: disjr_def unat_offset)

lemma disjr_sub_same:
  assumes "kreg c" "i + l \<le> snd c" "j + k \<le> snd c" "i + l \<le> j \<or> j + k \<le> i"
  shows "disjr (fst c + of_nat i, l) (fst c + of_nat j, k)"
  using assms by (auto simp: disjr_def unat_offset)

lemma sep_if_disjr:
  assumes "kreg c" "kreg d" "disjr c d"
  shows "sep (dm (fst c)) (snd c) (dm (fst d)) (snd d)"
proof (rule sep_dm)
  show "kptr (fst c)" "kptr (fst d)" using assms by (simp_all add: kptr_if_kreg)
  show "sep (fst c) (snd c) (fst d) (snd d)"
    using assms by (auto simp: disjr_def kreg_def intro: sep_intros)
qed

lemma store_bytes_frame:
  "kreg c \<Longrightarrow> kreg d \<Longrightarrow> disjr c d \<Longrightarrow> length bs = snd c \<Longrightarrow>
    same_on m (store_bytes m (dm (fst c)) bs) d"
  using sep_if_disjr [of c d]
  by (auto simp: same_on_def kreg_def intro!: load_store_bytes_sep)

lemma kstore64_frame_word:
  "kreg (p, 8) \<Longrightarrow> kreg d \<Longrightarrow> disjr (p, 8) d \<Longrightarrow> same_on m (kstore64 m p v) d"
  using store_bytes_frame [of "(p, 8)" d "le_bytes 8 v" m]
  by (simp add: kstore64_def store64_def)

lemma kload64_cong_word: "same_on m m' (p, 8) \<Longrightarrow> kload64 m' p = kload64 m p"
  by (simp add: same_on_def kload64_def load64_def)

lemma same_on_sub:
  assumes "same_on m m' c" "kreg c" "i + l \<le> snd c"
  shows "same_on m m' (fst c + of_nat i, l)"
proof -
  obtain r where r: "snd c = (i + l) + r" using assms(3) le_iff_add by auto
  have "dm (fst c + of_nat i) = dm (fst c) + of_nat i" if "0 < l"
    using assms(2,3) that by (intro dm_add) (simp_all add: kptr_if_kreg kreg_def)
  with assms(1) r show ?thesis
    by (cases "l = 0") (simp_all add: same_on_def load_bytes_add)
qed

text \<open>The three facts the allocator proofs use: writes inside a region, reads inside a region.\<close>

lemma kstore64_frame:
  "kreg c \<Longrightarrow> kreg d \<Longrightarrow> disjr c d \<Longrightarrow> i + 8 \<le> snd c \<Longrightarrow>
    same_on m (kstore64 m (fst c + of_nat i) v) d"
  using kstore64_frame_word [OF kreg_sub [of c i 8], of d m v] disjr_sub [of c d i 8 0 "snd d"]
  by simp

lemma kload64_same_on:
  "same_on m m' c \<Longrightarrow> kreg c \<Longrightarrow> i + 8 \<le> snd c \<Longrightarrow>
    kload64 m' (fst c + of_nat i) = kload64 m (fst c + of_nat i)"
  by (rule kload64_cong_word) (rule same_on_sub)

lemma kload64_kstore64_fields:
  "kreg c \<Longrightarrow> i + 8 \<le> snd c \<Longrightarrow> j + 8 \<le> snd c \<Longrightarrow> i + 8 \<le> j \<or> j + 8 \<le> i \<Longrightarrow>
    kload64 (kstore64 m (fst c + of_nat i) v) (fst c + of_nat j) = kload64 m (fst c + of_nat j)"
  by (rule kload64_cong_word, rule kstore64_frame_word)
    (auto intro: kreg_sub disjr_sub_same)

lemmas header_frames =
  kstore64_frame [where i = 0, simplified] kstore64_frame [where i = 16, simplified]
lemmas header_reads =
  kload64_same_on [where i = 0, simplified] kload64_same_on [where i = 16, simplified]
lemmas header_fields =
  kload64_kstore64_fields [where i = 0 and j = 16, simplified]
  kload64_kstore64_fields [where i = 16 and j = 0, simplified]

section \<open>The sorted bin as a list\<close>

text \<open>\<open>bin_seg m p F q\<close>: following the links from \<open>p\<close> visits the chunks \<open>F\<close> and arrives at \<open>q\<close>.\<close>

primrec bin_seg :: "memory \<Rightarrow> u64 \<Rightarrow> region list \<Rightarrow> u64 \<Rightarrow> bool" where
  "bin_seg m p [] q \<longleftrightarrow> p = q"
| "bin_seg m p (c # F) q \<longleftrightarrow>
     p = fst c \<and> chunk_size m p = of_nat (snd c) \<and> bin_seg m (chunk_next m p) F q"

lemma bin_seg_append: "bin_seg m p (F @ G) q \<longleftrightarrow> (\<exists>r. bin_seg m p F r \<and> bin_seg m r G q)"
  by (induction F arbitrary: p) auto

lemma bin_seg_end: "F \<noteq> [] \<Longrightarrow> bin_seg m p F q \<Longrightarrow> chunk_next m (fst (last F)) = q"
  by (induction F arbitrary: p) auto

lemma bin_seg_cong:
  assumes "\<And>c. c \<in> set F \<Longrightarrow> kreg c \<and> 24 \<le> snd c \<and> same_on m m' c"
  shows "bin_seg m' p F q = bin_seg m p F q"
  using assms
proof (induction F arbitrary: p)
  case Nil
  then show ?case by simp
next
  case (Cons c F)
  then have "kreg c" "24 \<le> snd c" "same_on m m' c" by simp_all
  then have "chunk_size m' (fst c) = chunk_size m (fst c)" "chunk_next m' (fst c) = chunk_next m (fst c)"
    by (simp_all add: chunk_size_def chunk_next_def header_reads)
  with Cons show ?case by auto
qed

text \<open>Overwriting the link of the last chunk redirects the segment.\<close>

lemma bin_seg_relink:
  assumes "bin_seg m p (F @ [c]) q" "kreg c" "24 \<le> snd c"
    and "\<And>d. d \<in> set F \<Longrightarrow> kreg d \<and> 24 \<le> snd d \<and> disjr c d"
  shows "bin_seg (kstore64 m (fst c + 16) v) p (F @ [c]) v"
proof -
  let ?m = "kstore64 m (fst c + 16) v"
  from assms(1) have F: "bin_seg m p F (fst c)" and sz: "chunk_size m (fst c) = of_nat (snd c)"
    by (auto simp: bin_seg_append)
  have "bin_seg ?m p F (fst c)"
    using F assms(2,3,4) by (subst bin_seg_cong) (auto intro!: header_frames)
  moreover have "chunk_size ?m (fst c) = of_nat (snd c)"
    using sz assms(2,3) by (simp add: chunk_size_def header_fields)
  ultimately show ?thesis
    by (auto simp: bin_seg_append chunk_next_def)
qed

definition last_ref :: "chunk_ref \<Rightarrow> region list \<Rightarrow> chunk_ref" where
  "last_ref prev F = (if F = [] then prev else Chunk (fst (last F)))"

definition head_of :: "region list \<Rightarrow> u64" where
  "head_of F = (case F of [] \<Rightarrow> 0 | c # _ \<Rightarrow> fst c)"

definition smaller :: "nat \<Rightarrow> region list \<Rightarrow> region list" where
  "smaller n F = takeWhile (\<lambda>c. snd c < n) F"

definition not_smaller :: "nat \<Rightarrow> region list \<Rightarrow> region list" where
  "not_smaller n F = dropWhile (\<lambda>c. snd c < n) F"

lemma smaller_not_smaller: "smaller n F @ not_smaller n F = F"
  by (simp add: smaller_def not_smaller_def)

lemma smaller_Cons: "smaller n (c # F) = (if snd c < n then c # smaller n F else [])"
  by (simp add: smaller_def)

lemma not_smaller_Cons: "not_smaller n (c # F) = (if snd c < n then not_smaller n F else c # F)"
  by (simp add: not_smaller_def)

lemma head_of_seg: "bin_seg m p F 0 \<Longrightarrow> p = head_of F"
  by (cases F) (auto simp: head_of_def)

lemma last_ref_Cons: "last_ref prev (c # F) = last_ref (Chunk (fst c)) F"
  by (simp add: last_ref_def)

lemma of_nat_less_64: "a < 2 ^ 64 \<Longrightarrow> b < 2 ^ 64 \<Longrightarrow> (of_nat a :: u64) < of_nat b \<longleftrightarrow> a < b"
  by (simp add: word_less_nat_alt)

lemma of_nat_le_64: "a < 2 ^ 64 \<Longrightarrow> b < 2 ^ 64 \<Longrightarrow> (of_nat a :: u64) \<le> of_nat b \<longleftrightarrow> a \<le> b"
  by (simp add: word_le_nat_alt)

lemma fst_nz_if_kreg: "kreg c \<Longrightarrow> fst c \<noteq> 0"
  by (auto simp: kreg_def)

lemma snd_lt_if_kreg: "kreg c \<Longrightarrow> snd c < 2 ^ 64"
  by (simp add: kreg_def)

lemma insert_walk_bin:
  assumes "bin_seg m p F 0" "\<And>c. c \<in> set F \<Longrightarrow> kreg c" "n < 2 ^ 64"
  shows "insert_walk m (of_nat n) prev p =
    Some (last_ref prev (smaller n F), head_of (not_smaller n F))"
  using assms
proof (induction F arbitrary: p prev)
  case Nil
  then show ?case
    by (simp add: insert_walk.simps smaller_def not_smaller_def last_ref_def head_of_def)
next
  case (Cons c F)
  then have "kreg c" by simp
  then have c: "p = fst c" "fst c \<noteq> 0" "chunk_size m p = of_nat (snd c)" "snd c < 2 ^ 64"
    using Cons.prems(1) fst_nz_if_kreg [of c] snd_lt_if_kreg [of c] by auto
  show ?case
  proof (cases "snd c < n")
    case True
    have "insert_walk m (of_nat n) prev p = insert_walk m (of_nat n) (Chunk p) (chunk_next m p)"
      using c True Cons.prems(3) by (subst insert_walk.simps) (simp add: of_nat_less_64)
    also have "\<dots> = Some (last_ref (Chunk p) (smaller n F), head_of (not_smaller n F))"
      using Cons by auto
    finally show ?thesis
      using c True by (simp add: smaller_def not_smaller_def last_ref_Cons)
  next
    case False
    with c Cons.prems(3) show ?thesis
      by (subst insert_walk.simps)
        (simp add: of_nat_less_64 smaller_def not_smaller_def last_ref_def head_of_def)
  qed
qed

lemma fetch_walk_bin:
  assumes "bin_seg m p F 0" "\<And>c. c \<in> set F \<Longrightarrow> kreg c" "n < 2 ^ 64"
    and "\<And>c. c \<in> set F \<Longrightarrow> \<not> invalid_chunk_size (of_nat (snd c))"
  shows "fetch_walk m (of_nat n) prev p =
    Some (Inr (case not_smaller n F of
                 [] \<Rightarrow> None
               | c # _ \<Rightarrow> Some (last_ref prev (smaller n F), fst c)))"
  using assms
proof (induction F arbitrary: p prev)
  case Nil
  then show ?case
    by (simp add: fetch_walk.simps not_smaller_def)
next
  case (Cons c F)
  then have "kreg c" by simp
  then have c: "p = fst c" "fst c \<noteq> 0" "chunk_size m p = of_nat (snd c)" "snd c < 2 ^ 64"
    "\<not> invalid_chunk_size (of_nat (snd c))"
    using Cons.prems(1,4) fst_nz_if_kreg [of c] snd_lt_if_kreg [of c] by auto
  show ?case
  proof (cases "snd c < n")
    case True
    have "fetch_walk m (of_nat n) prev p = fetch_walk m (of_nat n) (Chunk p) (chunk_next m p)"
      using c True Cons.prems(3) by (subst fetch_walk.simps) (simp add: of_nat_le_64)
    also have "\<dots> = Some (Inr (case not_smaller n F of
                 [] \<Rightarrow> None
               | c # _ \<Rightarrow> Some (last_ref (Chunk p) (smaller n F), fst c)))"
      using Cons by auto
    finally show ?thesis
      using c True by (simp add: smaller_Cons not_smaller_Cons last_ref_Cons cong: list.case_cong)
  next
    case False
    with c Cons.prems(3) show ?thesis
      by (subst fetch_walk.simps)
        (simp add: of_nat_le_64 smaller_def not_smaller_def last_ref_def)
  qed
qed

definition ins :: "region \<Rightarrow> region list \<Rightarrow> region list" where
  "ins c F = smaller (snd c) F @ c # not_smaller (snd c) F"

lemma set_smaller: "set (smaller n F) \<union> set (not_smaller n F) = set F"
  using arg_cong [OF smaller_not_smaller [of n F], of set] by simp

lemma set_ins: "set (ins c F) = insert c (set F)"
  using set_smaller [of "snd c" F] by (auto simp: ins_def)

lemma mset_ins: "mset (ins c F) = add_mset c (mset F)"
  using arg_cong [OF smaller_not_smaller [of "snd c" F], of mset] by (simp add: ins_def)

lemma distinct_ins: "distinct (ins c F) \<longleftrightarrow> c \<notin> set F \<and> distinct F"
proof -
  have "distinct (ins c F) \<longleftrightarrow> distinct (c # F)"
    by (rule mset_eq_imp_distinct_iff) (simp add: mset_ins)
  then show ?thesis by simp
qed

lemma sum_list_ins: "sum_list (map snd (ins c F)) = snd c + sum_list (map snd F)"
  using mset_ins [of c F] by (simp flip: sum_mset_sum_list add: mset_map)

lemma sorted_ins: "sorted (map snd F) \<Longrightarrow> sorted (map snd (ins c F))"
proof (induction F)
  case Nil
  then show ?case by (simp add: ins_def smaller_def not_smaller_def)
next
  case (Cons d F)
  show ?case
  proof (cases "snd d < snd c")
    case True
    then have "ins c (d # F) = d # ins c F"
      by (simp add: ins_def smaller_Cons not_smaller_Cons)
    with Cons True show ?thesis by (auto simp: set_ins)
  next
    case False
    then have "ins c (d # F) = c # d # F"
      by (simp add: ins_def smaller_Cons not_smaller_Cons)
    with Cons False show ?thesis by force
  qed
qed

definition big_region :: "region \<Rightarrow> bool" where
  "big_region c \<longleftrightarrow> kreg c \<and> 24 \<le> snd c"

definition apart :: "region set \<Rightarrow> bool" where
  "apart C \<longleftrightarrow> (\<forall>c\<in>C. \<forall>d\<in>C. c \<noteq> d \<longrightarrow> disjr c d)"

lemma apartD: "apart C \<Longrightarrow> c \<in> C \<Longrightarrow> d \<in> C \<Longrightarrow> c \<noteq> d \<Longrightarrow> disjr c d"
  by (simp add: apart_def)

lemma apart_subset: "apart C \<Longrightarrow> D \<subseteq> C \<Longrightarrow> apart D"
  unfolding apart_def by blast

text \<open>\<open>changed_within m m' D\<close>: the step from \<open>m\<close> to \<open>m'\<close> only wrote inside the regions \<open>D\<close>.\<close>

definition changed_within :: "memory \<Rightarrow> memory \<Rightarrow> region set \<Rightarrow> bool" where
  "changed_within m m' D \<longleftrightarrow> (\<forall>d. kreg d \<longrightarrow> (\<forall>e\<in>D. disjr e d) \<longrightarrow> same_on m m' d)"

lemma changed_withinD:
  "changed_within m m' D \<Longrightarrow> kreg d \<Longrightarrow> (\<And>e. e \<in> D \<Longrightarrow> disjr e d) \<Longrightarrow> same_on m m' d"
  unfolding changed_within_def by blast

lemma changed_within_refl [simp]: "changed_within m m D"
  by (simp add: changed_within_def)

lemma changed_within_mono: "changed_within m m' D \<Longrightarrow> D \<subseteq> E \<Longrightarrow> changed_within m m' E"
  unfolding changed_within_def by blast

lemma changed_within_trans:
  "changed_within m m' D \<Longrightarrow> changed_within m' m'' D \<Longrightarrow> changed_within m m'' D"
  unfolding changed_within_def by (blast intro: same_on_trans)

lemma store_next_frame:
  "big_region c \<Longrightarrow> kreg d \<Longrightarrow> disjr c d \<Longrightarrow> same_on m (kstore64 m (fst c + 16) v) d"
  by (simp add: big_region_def header_frames)

lemma store_size_frame:
  "big_region c \<Longrightarrow> kreg d \<Longrightarrow> disjr c d \<Longrightarrow> same_on m (kstore64 m (fst c) v) d"
  by (simp add: big_region_def header_frames)

lemma store_next_within: "big_region c \<Longrightarrow> c \<in> D \<Longrightarrow> changed_within m (kstore64 m (fst c + 16) v) D"
  by (simp add: changed_within_def store_next_frame)

lemma store_size_within: "big_region c \<Longrightarrow> c \<in> D \<Longrightarrow> changed_within m (kstore64 m (fst c) v) D"
  by (simp add: changed_within_def store_size_frame)

lemma insert_sorted_bin:
  assumes seg: "bin_seg (kmem s) (sorted_bin_next s) F 0"
    and big: "\<And>d. d \<in> insert c (set F) \<Longrightarrow> big_region d"
    and apart: "apart (insert c (set F))" and c: "c \<notin> set F" and F: "distinct F"
    and sz: "chunk_size (kmem s) (fst c) = of_nat (snd c)"
  obtains m' p' where
    "insert_sorted s (fst c) = Inr (s\<lparr>kmem := m', sorted_bin_next := p'\<rparr>)"
    "bin_seg m' p' (ins c F) 0"
    "changed_within (kmem s) m' (insert c (set F))"
proof -
  let ?m = "kmem s" and ?p = "sorted_bin_next s"
  define F1 F2 where "F1 = smaller (snd c) F" and "F2 = not_smaller (snd c) F"
  have split: "F = F1 @ F2" by (simp add: F1_def F2_def smaller_not_smaller)
  have bigc: "big_region c" using big by simp
  have F2kreg: "kreg d \<and> 24 \<le> snd d" if "d \<in> set F" for d
    using big [of d] that by (simp add: big_region_def)
  have cd: "disjr c d" if "d \<in> set F" for d
    using apart that c by (intro apartD [OF apart]) auto
  obtain r where r: "bin_seg ?m ?p F1 r" "bin_seg ?m r F2 0"
    using seg by (auto simp: split bin_seg_append)
  then have "r = head_of F2" by (simp add: head_of_seg)
  moreover have "insert_walk ?m (of_nat (snd c)) Sorted_bin ?p =
      Some (last_ref Sorted_bin F1, head_of F2)"
    unfolding F1_def F2_def
    using seg F2kreg bigc snd_lt_if_kreg
    by (intro insert_walk_bin) (auto simp: big_region_def)
  ultimately have run: "insert_sorted s (fst c) =
      Inr (set_next (set_next s (last_ref Sorted_bin F1) (fst c)) (Chunk (fst c)) r)"
    by (simp add: insert_sorted_def sz)
  have szc: "chunk_size (kstore64 m (fst c + 16) v) (fst c) = chunk_size m (fst c)" for m v
    using bigc by (simp add: chunk_size_def big_region_def header_fields)
  show ?thesis
  proof (cases "F1 = []")
    case True
    let ?m1 = "kstore64 ?m (fst c + 16) r"
    have seg2: "bin_seg ?m1 r F2 0"
      using r F2kreg cd bigc
      by (subst bin_seg_cong) (auto simp: split intro!: store_next_frame)
    show ?thesis
    proof
      show "insert_sorted s (fst c) = Inr (s\<lparr>kmem := ?m1, sorted_bin_next := fst c\<rparr>)"
        using run True by (simp add: last_ref_def set_next_def)
      show "bin_seg ?m1 (fst c) (ins c F) 0"
        using seg2 True sz szc by (simp add: ins_def chunk_next_def flip: F1_def F2_def)
      show "changed_within ?m ?m1 (insert c (set F))"
        using bigc by (rule store_next_within) simp
    qed
  next
    case False
    then obtain G l where Gl: "F1 = G @ [l]" by (metis rev_exhaust)
    let ?m1 = "kstore64 ?m (fst l + 16) (fst c)"
    let ?m2 = "kstore64 ?m1 (fst c + 16) r"
    have lF: "l \<in> set F" and GF: "set G \<subseteq> set F" "l \<notin> set G" "l \<notin> set F2"
      using Gl split F by auto
    have bigl: "big_region l" using big lF by simp
    have ld: "disjr l d" if "d \<in> insert c (set F)" "d \<noteq> l" for d
      using lF that by (intro apartD [OF apart]) auto
    have lG: "kreg d \<and> 24 \<le> snd d \<and> disjr l d" if "d \<in> set G" for d
      using that GF ld [of d] F2kreg [of d] by blast
    have m12: "same_on ?m1 ?m2 d" if "d \<in> set F" for d
      using bigc F2kreg [OF that] cd [OF that] by (intro store_next_frame) auto
    have m01: "same_on ?m ?m1 d" if "d \<in> insert c (set F)" "d \<noteq> l" for d
      using bigl big [OF that(1)] ld [OF that]
      by (intro store_next_frame) (auto simp: big_region_def)
    have "bin_seg ?m1 ?p F1 (fst c)"
      unfolding Gl
      using r(1) Gl bigl lG
      by (intro bin_seg_relink) (simp_all add: big_region_def)
    then have segF1: "bin_seg ?m2 ?p F1 (fst c)"
      using F2kreg m12 by (subst bin_seg_cong) (auto simp: split)
    have "bin_seg ?m1 r F2 0"
      using r(2) F2kreg m01 GF by (subst bin_seg_cong) (auto simp: split)
    then have segF2: "bin_seg ?m2 r F2 0"
      using F2kreg m12 by (subst bin_seg_cong) (auto simp: split)
    have "c \<noteq> l" using c lF by auto
    then have "chunk_size ?m1 (fst c) = of_nat (snd c)"
      using sz m01 [of c] bigc
      by (simp add: chunk_size_def big_region_def header_reads)
    then have "chunk_size ?m2 (fst c) = of_nat (snd c)" by (simp add: szc)
    show ?thesis
    proof
      show "insert_sorted s (fst c) = Inr (s\<lparr>kmem := ?m2, sorted_bin_next := ?p\<rparr>)"
        using run Gl by (simp add: last_ref_def set_next_def)
      show "bin_seg ?m2 ?p (ins c F) 0"
        using segF1 segF2 \<open>chunk_size ?m2 (fst c) = of_nat (snd c)\<close>
        by (auto simp: ins_def bin_seg_append chunk_next_def simp flip: F1_def F2_def)
      show "changed_within ?m ?m2 (insert c (set F))"
        by (rule changed_within_trans [OF store_next_within [OF bigl] store_next_within [OF bigc]])
          (simp_all add: lF)
    qed
  qed
qed

lemma unlink_bin:
  assumes seg: "bin_seg (kmem s) (sorted_bin_next s) (F1 @ c # F2) 0"
    and big: "\<And>d. d \<in> set (F1 @ c # F2) \<Longrightarrow> big_region d"
    and apart: "apart (set (F1 @ c # F2))" and dist: "distinct (F1 @ c # F2)"
  obtains m' p' where
    "set_next s (last_ref Sorted_bin F1) (chunk_next (kmem s) (fst c))
      = s\<lparr>kmem := m', sorted_bin_next := p'\<rparr>"
    "bin_seg m' p' (F1 @ F2) 0"
    "changed_within (kmem s) m' (set F1)"
proof -
  let ?m = "kmem s" and ?p = "sorted_bin_next s" and ?r = "chunk_next (kmem s) (fst c)"
  from seg have s1: "bin_seg ?m ?p F1 (fst c)" and s2: "bin_seg ?m ?r F2 0"
    by (auto simp: bin_seg_append)
  show ?thesis
  proof (cases "F1 = []")
    case True
    show ?thesis
    proof
      show "set_next s (last_ref Sorted_bin F1) ?r = s\<lparr>kmem := ?m, sorted_bin_next := ?r\<rparr>"
        using True by (simp add: last_ref_def set_next_def)
      show "bin_seg ?m ?r (F1 @ F2) 0" using s2 True by simp
    qed simp
  next
    case False
    then obtain G l where Gl: "F1 = G @ [l]" by (metis rev_exhaust)
    let ?m1 = "kstore64 ?m (fst l + 16) ?r"
    have bigl: "big_region l" using big Gl by simp
    have ld: "kreg d \<and> 24 \<le> snd d \<and> disjr l d" if "d \<in> set G \<union> set F2" for d
    proof -
      have "l \<noteq> d" using that dist Gl by auto
      then show ?thesis
        using that Gl big [of d] by (auto simp: big_region_def intro!: apartD [OF apart])
    qed
    have "bin_seg ?m1 ?p F1 ?r"
      unfolding Gl using s1 Gl bigl ld
      by (intro bin_seg_relink) (simp_all add: big_region_def)
    moreover have "bin_seg ?m1 ?r F2 0"
    proof (subst bin_seg_cong)
      show "kreg d \<and> 24 \<le> snd d \<and> same_on ?m ?m1 d" if "d \<in> set F2" for d
        using bigl ld [of d] that by (simp add: store_next_frame)
    qed (rule s2)
    ultimately have seg': "bin_seg ?m1 ?p (F1 @ F2) 0" by (auto simp: bin_seg_append)
    show ?thesis
    proof
      show "set_next s (last_ref Sorted_bin F1) ?r = s\<lparr>kmem := ?m1, sorted_bin_next := ?p\<rparr>"
        using Gl by (simp add: last_ref_def set_next_def)
      show "changed_within ?m ?m1 (set F1)"
        using bigl Gl by (intro store_next_within) simp_all
    qed (rule seg')
  qed
qed

section \<open>The heap invariant\<close>

definition chunk_ok :: "nat \<Rightarrow> nat \<Rightarrow> region \<Rightarrow> bool" where
  "chunk_ok lo hi c \<longleftrightarrow>
     0 < snd c \<and> snd c mod 0x80 \<in> {0, 0x70} \<and> unat (fst c) mod 0x80 \<in> {0, 0x70} \<and>
     lo \<le> unat (fst c) \<and> unat (fst c) + snd c \<le> hi"

definition arena_ok :: "'z kheap_scheme \<Rightarrow> bool" where
  "arena_ok s \<longleftrightarrow>
     2 ^ 39 \<le> unat (arena_min_addr s) \<and> unat (arena_min_addr s) \<le> unat (arena_top s) \<and>
     unat (arena_top s) + unat (arena_top_size s) \<le> 2 ^ 40 \<and>
     unat (arena_top s) + unat (arena_top_size s) < unat (arena_min_addr s) + 2 ^ 32 \<and>
     unat (arena_top s) mod 0x80 \<in> {0, 0x70}"

definition heap_inv :: "'z kheap_scheme \<Rightarrow> region set \<Rightarrow> region list \<Rightarrow> bool" where
  "heap_inv s A F \<longleftrightarrow>
     arena_ok s \<and> finite A \<and> distinct F \<and> A \<inter> set F = {} \<and>
     (\<forall>c \<in> A \<union> set F. chunk_ok (unat (arena_min_addr s)) (unat (arena_top s)) c) \<and>
     apart (A \<union> set F) \<and>
     (\<forall>c \<in> A. chunk_size (kmem s) (fst c) = of_nat (snd c)) \<and>
     bin_seg (kmem s) (sorted_bin_next s) F 0 \<and> sorted (map snd F) \<and>
     sum snd A + sum_list (map snd F) = unat (arena_top s) - unat (arena_min_addr s)"

lemma chunk_ok_ge: "chunk_ok lo hi c \<Longrightarrow> 0x70 \<le> snd c"
  unfolding chunk_ok_def by (cases "snd c < 0x70") auto

lemma big_region_if_ok: "chunk_ok lo hi c \<Longrightarrow> 2 ^ 39 \<le> lo \<Longrightarrow> hi \<le> 2 ^ 40 \<Longrightarrow> big_region c"
  using chunk_ok_ge [of lo hi c] by (simp add: big_region_def kreg_def chunk_ok_def)

lemma heap_inv_arena: "heap_inv s A F \<Longrightarrow> arena_ok s"
  by (simp add: heap_inv_def)

lemma heap_inv_ok:
  "heap_inv s A F \<Longrightarrow> c \<in> A \<union> set F \<Longrightarrow> chunk_ok (unat (arena_min_addr s)) (unat (arena_top s)) c"
  by (simp add: heap_inv_def)

lemma heap_inv_big:
  assumes "heap_inv s A F" "c \<in> A \<union> set F"
  shows "big_region c"
  using heap_inv_arena [OF assms(1)]
  by (intro big_region_if_ok [OF heap_inv_ok [OF assms]]) (simp_all add: arena_ok_def)

lemma heap_inv_lt:
  assumes "heap_inv s A F" "c \<in> A \<union> set F"
  shows "snd c < 2 ^ 32"
  using heap_inv_ok [OF assms] heap_inv_arena [OF assms(1)]
  by (simp add: arena_ok_def chunk_ok_def)

lemma and_15: "unat (x AND 0xf :: u64) = unat x mod 0x10"
proof -
  have "(0xf :: u64) = mask 4" by (simp add: mask_eq_exp_minus_1)
  then show ?thesis by (simp only: flip: take_bit_eq_mask) (simp add: take_bit_eq_mod unat_mod)
qed

lemma valid_chunk_size:
  assumes "chunk_ok lo hi c" "snd c < 2 ^ 32"
  shows "\<not> invalid_chunk_size (of_nat (snd c))"
proof -
  have "0 < snd c" and m: "snd c mod 0x80 = 0 \<or> snd c mod 0x80 = 0x70"
    using assms(1) by (simp_all add: chunk_ok_def)
  have "snd c mod 16 = snd c mod 0x80 mod 16" by (simp add: mod_mod_cancel)
  with m have m16: "snd c mod 16 = 0" by auto
  have u: "unat (of_nat (snd c) :: u64) = snd c" using assms(2) by simp
  have "unat (of_nat (snd c) AND 0xf :: u64) = 0"
    unfolding and_15 u by (rule m16)
  then have "of_nat (snd c) AND (0xf :: u64) = 0" by (simp only: unat_eq_zero)
  moreover have "of_nat (snd c) \<noteq> (0 :: u64)"
    using \<open>0 < snd c\<close> u by (metis less_irrefl unat_0)
  moreover have "\<not> (push_bit 32 1 :: u64) \<le> of_nat (snd c)"
    using assms(2) by (simp add: word_le_nat_alt push_bit_of_1)
  ultimately show ?thesis by (simp add: invalid_chunk_size_def)
qed

lemma heap_inv_valid:
  "heap_inv s A F \<Longrightarrow> c \<in> A \<union> set F \<Longrightarrow> \<not> invalid_chunk_size (of_nat (snd c))"
  by (rule valid_chunk_size [OF heap_inv_ok heap_inv_lt])

lemma heap_invD:
  assumes "heap_inv s A F"
  shows "finite A" "distinct F" "A \<inter> set F = {}" "apart (A \<union> set F)"
    "\<And>c. c \<in> A \<Longrightarrow> chunk_size (kmem s) (fst c) = of_nat (snd c)"
    "bin_seg (kmem s) (sorted_bin_next s) F 0" "sorted (map snd F)"
    "sum snd A + sum_list (map snd F) = unat (arena_top s) - unat (arena_min_addr s)"
  using assms by (simp_all add: heap_inv_def)

lemma heap_inv_disjr:
  "heap_inv s A F \<Longrightarrow> c \<in> A \<union> set F \<Longrightarrow> d \<in> A \<union> set F \<Longrightarrow> c \<noteq> d \<Longrightarrow> disjr c d"
  using heap_invD(4) apartD by blast

lemma chunk_size_same_on:
  "big_region c \<Longrightarrow> same_on m m' c \<Longrightarrow> chunk_size m' (fst c) = chunk_size m (fst c)"
  by (simp add: chunk_size_def big_region_def header_reads)

lemma bin_seg_same_on:
  "(\<And>c. c \<in> set F \<Longrightarrow> big_region c \<and> same_on m m' c) \<Longrightarrow> bin_seg m' p F q = bin_seg m p F q"
  by (rule bin_seg_cong) (simp add: big_region_def)

text \<open>A new chunk carved off the top.\<close>

lemma malloc_top_inv:
  assumes inv: "heap_inv s A F" and n: "0 < n" "n mod 0x80 \<in> {0, 0x70}"
    and top: "(unat (arena_top s) + n) mod 0x80 \<in> {0, 0x70}" and fits: "n \<le> unat (arena_top_size s)"
  obtains s' where
    "malloc_top s (of_nat n) = (chunk2mem (arena_top s), s')"
    "heap_inv s' (insert (arena_top s, n) A) F"
    "(arena_top s, n) \<notin> A \<union> set F"
    "changed_within (kmem s) (kmem s') {(arena_top s, n)}"
    "arena_top s' = arena_top s + of_nat n" "arena_top_size s' = arena_top_size s - of_nat n"
    "arena_min_addr s' = arena_min_addr s"
proof -
  let ?t = "arena_top s" and ?c = "(arena_top s, n)"
  let ?m = "kstore64 (kmem s) ?t (of_nat n)"
  let ?s = "s\<lparr>arena_top_size := arena_top_size s - of_nat n, kmem := ?m, arena_top := ?t + of_nat n\<rparr>"
  have a: "arena_ok s" by (rule heap_inv_arena [OF inv])
  have n64: "unat (of_nat n :: u64) = n" using fits unat_bound_64 [of "arena_top_size s"] by simp
  have t': "unat (?t + of_nat n) = unat ?t + n"
    using a fits by (intro unat_add_nat_64) (simp add: arena_ok_def)
  have ts': "unat (arena_top_size s - of_nat n) = unat (arena_top_size s) - n"
    using fits n64 by (simp add: unat_sub word_le_nat_alt)
  have okc: "chunk_ok (unat (arena_min_addr s)) (unat ?t + n) ?c"
    using a n by (simp add: chunk_ok_def arena_ok_def)
  have bigc: "big_region ?c"
    using a fits by (intro big_region_if_ok [OF okc]) (auto simp: arena_ok_def)
  have below: "disjr ?c d" if "d \<in> A \<union> set F" for d
    using heap_inv_ok [OF inv that] by (simp add: disjr_def chunk_ok_def)
  have notin: "?c \<notin> A \<union> set F"
    using heap_inv_ok [OF inv, of ?c] n(1) by (auto simp: chunk_ok_def)
  have frame: "changed_within (kmem s) ?m {?c}"
    using store_size_within [OF bigc, of "{?c}" "kmem s" "of_nat n"] by simp
  have same: "same_on (kmem s) ?m d" if "d \<in> A \<union> set F" for d
    using heap_inv_big [OF inv that] below [OF that]
    by (intro changed_withinD [OF frame]) (simp_all add: big_region_def)
  have "arena_ok ?s"
    using a fits top by (simp add: arena_ok_def t' ts')
  moreover have "chunk_ok (unat (arena_min_addr s)) (unat ?t + n) d" if "d \<in> A \<union> set F" for d
    using heap_inv_ok [OF inv that] by (simp add: chunk_ok_def)
  moreover have "apart (insert ?c (A \<union> set F))"
    using heap_invD(4) [OF inv] below by (auto simp: apart_def disjr_sym)
  moreover have "chunk_size ?m (fst d) = of_nat (snd d)" if "d \<in> A" for d
    using chunk_size_same_on [OF heap_inv_big [OF inv] same, of d] heap_invD(5) [OF inv that] that
    by simp
  moreover have "bin_seg ?m (sorted_bin_next s) F 0"
    using heap_invD(6) [OF inv] heap_inv_big [OF inv] same
    by (subst bin_seg_same_on) auto
  moreover have "sum snd (insert ?c A) + sum_list (map snd F) = unat ?t + n - unat (arena_min_addr s)"
    using heap_invD(1,8) [OF inv] notin a by (auto simp: arena_ok_def)
  ultimately have inv': "heap_inv ?s (insert ?c A) F"
    using heap_invD(1,2,3,7) [OF inv] notin okc
    unfolding heap_inv_def by (simp add: t' chunk_size_def)
  show ?thesis
  proof
    show "malloc_top s (of_nat n) = (chunk2mem ?t, ?s)"
      using fits n64 by (simp add: malloc_top_def word_less_nat_alt Let_def)
  qed (use inv' notin frame in simp_all)
qed

lemma malloc_top_none: "unat (arena_top_size s) < unat nb \<Longrightarrow> malloc_top s nb = (0, s)"
  by (simp add: malloc_top_def word_less_nat_alt Let_def)

lemma chunk2mem_inverse [simp]: "mem2chunk (chunk2mem c) = c"
  by (simp add: mem2chunk_def chunk2mem_def)

lemma chunk2mem_nz: "kreg c \<Longrightarrow> 16 \<le> snd c \<Longrightarrow> chunk2mem (fst c) \<noteq> 0"
  using unat_offset [of c 16] by (auto simp: chunk2mem_def kreg_def)

text \<open>Freeing a chunk: back to the top when it touches it, into the sorted bin otherwise.\<close>

definition free_top :: "'z kheap_scheme \<Rightarrow> region \<Rightarrow> bool" where
  "free_top s c \<longleftrightarrow> unat (fst c) + snd c = unat (arena_top s)"

lemma kfree_inv:
  assumes inv: "heap_inv s A F" and c: "c \<in> A"
  obtains s' where
    "kfree s (chunk2mem (fst c)) = Inr s'"
    "heap_inv s' (A - {c}) (if free_top s c then F else ins c F)"
    "changed_within (kmem s) (kmem s') (insert c (set F))"
    "arena_min_addr s' = arena_min_addr s"
    "arena_top s' = (if free_top s c then fst c else arena_top s)"
    "unat (arena_top s') + unat (arena_top_size s') = unat (arena_top s) + unat (arena_top_size s)"
proof -
  let ?m = "kmem s" and ?t = "arena_top s"
  have a: "arena_ok s" by (rule heap_inv_arena [OF inv])
  have bigc: "big_region c" using c heap_inv_big [OF inv] by blast
  have okc: "chunk_ok (unat (arena_min_addr s)) (unat ?t) c" using c heap_inv_ok [OF inv] by blast
  have szc: "chunk_size ?m (fst c) = of_nat (snd c)" using c heap_invD(5) [OF inv] by blast
  have nz: "chunk2mem (fst c) \<noteq> 0" using bigc by (intro chunk2mem_nz) (auto simp: big_region_def)
  have valid: "\<not> invalid_chunk_size (of_nat (snd c))" using c heap_inv_valid [OF inv] by blast
  have end_c: "unat (fst c + of_nat (snd c)) = unat (fst c) + snd c"
    using bigc by (intro unat_offset) (auto simp: big_region_def)
  have top_iff: "of_nat (snd c) + fst c = ?t \<longleftrightarrow> free_top s c"
    using end_c by (simp add: free_top_def word_unat_eq_iff add.commute)
  have disj: "disjr c d" if "d \<in> (A - {c}) \<union> set F" for d
    using that c heap_invD(3) [OF inv] by (intro heap_inv_disjr [OF inv]) auto
  have bigd: "big_region d" if "d \<in> (A - {c}) \<union> set F" for d
    using that heap_inv_big [OF inv] by blast
  have cF: "c \<notin> set F" using c heap_invD(3) [OF inv] by blast
  have sum: "snd c + sum snd (A - {c}) = sum snd A"
    using c heap_invD(1) [OF inv] by (simp add: sum.remove)
  show ?thesis
  proof (cases "free_top s c")
    case True
    let ?m1 = "kstore64 ?m (fst c) 0"
    let ?s = "s\<lparr>arena_top := fst c, arena_top_size := arena_top_size s + of_nat (snd c), kmem := ?m1\<rparr>"
    have same: "same_on ?m ?m1 d" if "d \<in> (A - {c}) \<union> set F" for d
      using bigc bigd [OF that] disj [OF that]
      by (intro store_size_frame) (auto simp: big_region_def)
    have within: "changed_within ?m ?m1 (insert c (set F))"
      using bigc by (rule store_size_within) simp
    have ts: "unat (arena_top_size s + of_nat (snd c)) = unat (arena_top_size s) + snd c"
      using a True okc by (intro unat_add_nat_64) (simp add: arena_ok_def free_top_def chunk_ok_def)
    have "arena_ok ?s"
      using a True okc ts by (auto simp: arena_ok_def free_top_def chunk_ok_def)
    moreover have "chunk_ok (unat (arena_min_addr s)) (unat (fst c)) d" if "d \<in> (A - {c}) \<union> set F" for d
      using that heap_inv_ok [OF inv, of d] disj [OF that] True
      by (auto simp: chunk_ok_def disjr_def free_top_def)
    moreover have "apart ((A - {c}) \<union> set F)"
      by (rule apart_subset [OF heap_invD(4) [OF inv]]) blast
    moreover have "chunk_size ?m1 (fst d) = of_nat (snd d)" if "d \<in> A - {c}" for d
      using chunk_size_same_on [OF bigd same, of d] heap_invD(5) [OF inv, of d] that by simp
    moreover have "bin_seg ?m1 (sorted_bin_next s) F 0"
      using heap_invD(6) [OF inv] bigd same by (subst bin_seg_same_on) auto
    moreover have "sum snd (A - {c}) + sum_list (map snd F) = unat (fst c) - unat (arena_min_addr s)"
      using sum heap_invD(8) [OF inv] True okc by (simp add: free_top_def chunk_ok_def)
    ultimately have inv': "heap_inv ?s (A - {c}) F"
      using heap_invD(1,2,3,7) [OF inv] unfolding heap_inv_def by auto
    show ?thesis
    proof
      show "kfree s (chunk2mem (fst c)) = Inr ?s"
        using nz valid True top_iff by (simp add: kfree_def Let_def szc)
    qed (use inv' within True ts in \<open>simp_all add: free_top_def\<close>)
  next
    case False
    have "apart (insert c (set F))"
      using c by (intro apart_subset [OF heap_invD(4) [OF inv]]) auto
    moreover have "big_region d" if "d \<in> insert c (set F)" for d
      using that bigc bigd by blast
    ultimately obtain m' p' where
        run: "insert_sorted s (fst c) = Inr (s\<lparr>kmem := m', sorted_bin_next := p'\<rparr>)"
      and seg: "bin_seg m' p' (ins c F) 0" and fr: "changed_within ?m m' (insert c (set F))"
      using insert_sorted_bin [OF heap_invD(6) [OF inv] _ _ cF heap_invD(2) [OF inv] szc] by blast
    let ?s = "s\<lparr>kmem := m', sorted_bin_next := p'\<rparr>"
    have same: "same_on ?m m' d" if d: "d \<in> A - {c}" for d
    proof (rule changed_withinD [OF fr])
      show "kreg d" using d bigd by (simp add: big_region_def)
      show "disjr e d" if "e \<in> insert c (set F)" for e
        using that c d heap_invD(3) [OF inv] by (intro heap_inv_disjr [OF inv]) auto
    qed
    have "chunk_size m' (fst d) = of_nat (snd d)" if "d \<in> A - {c}" for d
      using chunk_size_same_on [OF bigd same, of d] heap_invD(5) [OF inv, of d] that by simp
    moreover have AF: "(A - {c}) \<union> set (ins c F) = A \<union> set F"
      using c by (auto simp: set_ins)
    ultimately have inv': "heap_inv ?s (A - {c}) (ins c F)"
      using inv sum cF seg heap_invD [OF inv] unfolding heap_inv_def AF
      by (auto simp: arena_ok_def distinct_ins sum_list_ins sorted_ins set_ins)
    show ?thesis
    proof
      show "kfree s (chunk2mem (fst c)) = Inr ?s"
        using nz valid False top_iff run by (simp add: kfree_def Let_def szc)
    qed (use inv' fr False in simp_all)
  qed
qed

definition subr :: "region \<Rightarrow> region \<Rightarrow> bool" where
  "subr c' c \<longleftrightarrow> unat (fst c) \<le> unat (fst c') \<and> unat (fst c') + snd c' \<le> unat (fst c) + snd c"

lemma disjr_subr: "disjr c d \<Longrightarrow> subr c' c \<Longrightarrow> disjr c' d"
  by (auto simp: disjr_def subr_def)

lemma disjr_irrefl: "0 < snd c \<Longrightarrow> \<not> disjr c c"
  by (simp add: disjr_def)

text \<open>What a split of the chunk \<open>c\<close> at size \<open>n\<close> leaves of the bin.\<close>

definition tail_of :: "nat \<Rightarrow> region \<Rightarrow> region" where
  "tail_of n c = (fst c + of_nat n, snd c - n)"

definition taken :: "nat \<Rightarrow> region \<Rightarrow> region list \<Rightarrow> region list" where
  "taken n c F = (if snd c = n then remove1 c F else ins (tail_of n c) (remove1 c F))"

lemma split_chunk:
  assumes ok: "chunk_ok lo hi c" and w: "2 ^ 39 \<le> lo" "hi \<le> 2 ^ 40"
    and n: "0 < n" "n mod 0x80 = 0" "n \<le> snd c"
  shows "chunk_ok lo hi (fst c, n)" "subr (fst c, n) c"
    "n < snd c \<Longrightarrow> chunk_ok lo hi (tail_of n c)" "n < snd c \<Longrightarrow> subr (tail_of n c) c"
    "n < snd c \<Longrightarrow> disjr (fst c, n) (tail_of n c)"
proof -
  have u: "unat (fst c + of_nat n) = unat (fst c) + n"
    using big_region_if_ok [OF ok w] n by (intro unat_offset) (simp_all add: big_region_def)
  have m: "(snd c - n) mod 0x80 = snd c mod 0x80"
    using n(2,3) by (metis add_diff_inverse_nat mod_add_left_eq not_less plus_nat.add_0)
  have m': "(unat (fst c) + n) mod 0x80 = unat (fst c) mod 0x80"
    using n(2) by (metis mod_add_right_eq Nat.add_0_right)
  show "chunk_ok lo hi (fst c, n)" "subr (fst c, n) c"
    using ok n by (auto simp: chunk_ok_def subr_def)
  show "n < snd c \<Longrightarrow> chunk_ok lo hi (tail_of n c)" "n < snd c \<Longrightarrow> subr (tail_of n c) c"
    "n < snd c \<Longrightarrow> disjr (fst c, n) (tail_of n c)"
    using ok u m m' by (auto simp: chunk_ok_def subr_def tail_of_def disjr_def)
qed

lemma set_taken:
  "distinct F \<Longrightarrow> set (taken n c F) = (if snd c = n then set F - {c} else insert (tail_of n c) (set F - {c}))"
  by (simp add: taken_def set_ins)

text \<open>Rebuilding the invariant when a chunk of the bin has been handed out.\<close>

lemma heap_inv_taken:
  assumes inv: "heap_inv s A F" and c: "c \<in> set F" and n: "0 < n" "n mod 0x80 = 0" "n \<le> snd c"
    and seg: "bin_seg m' p' (taken n c F) 0"
    and same: "\<And>d. d \<in> A \<Longrightarrow> same_on (kmem s) m' d"
    and sz: "chunk_size m' (fst c) = of_nat n"
  shows "heap_inv (s\<lparr>kmem := m', sorted_bin_next := p'\<rparr>) (insert (fst c, n) A) (taken n c F)"
proof -
  let ?lo = "unat (arena_min_addr s)" and ?hi = "unat (arena_top s)"
  let ?c = "(fst c, n)" and ?r = "tail_of n c"
  have a: "arena_ok s" by (rule heap_inv_arena [OF inv])
  have w: "2 ^ 39 \<le> ?lo" "?hi \<le> 2 ^ 40" using a by (auto simp: arena_ok_def)
  have okc: "chunk_ok ?lo ?hi c" using heap_inv_ok [OF inv] c by blast
  note sp = split_chunk [OF okc w n]
  note D = heap_invD [OF inv]
  have rest: "disjr c d" if "d \<in> A \<union> (set F - {c})" for d
    using that c D(3) by (intro heap_inv_disjr [OF inv]) auto
  have cd: "disjr ?c d" if "d \<in> A \<union> (set F - {c})" for d
    using rest [OF that] sp(2) by (rule disjr_subr)
  have rd: "disjr ?r d" if "d \<in> A \<union> (set F - {c})" "n < snd c" for d
    using rest [OF that(1)] sp(4) [OF that(2)] by (rule disjr_subr)
  have pos: "0 < snd d" if "d \<in> A \<union> set F" for d
    using heap_inv_ok [OF inv that] by (simp add: chunk_ok_def)
  have c_new: "?c \<notin> A \<union> (set F - {c})"
    using cd [of ?c] disjr_irrefl [of ?c] n(1) by auto
  have r_new: "?r \<notin> A \<union> (set F - {c})" "?r \<noteq> ?c" if "n < snd c"
    using rd [of ?r] sp(5) that disjr_irrefl [of ?r] by (auto simp: tail_of_def)
  have "apart (insert ?c A \<union> set (taken n c F))"
    unfolding apart_def
  proof (intro ballI impI)
    fix x y
    assume xy: "x \<in> insert ?c A \<union> set (taken n c F)" "y \<in> insert ?c A \<union> set (taken n c F)" "x \<noteq> y"
    let ?R = "A \<union> (set F - {c})"
    have mem: "z = ?c \<or> (z = ?r \<and> n < snd c) \<or> z \<in> ?R"
      if "z \<in> insert ?c A \<union> set (taken n c F)" for z
      using that n(3) D(2) by (auto simp: set_taken split: if_splits)
    have RR: "disjr x y" if "x \<in> ?R" "y \<in> ?R"
      using that xy(3) by (intro heap_inv_disjr [OF inv]) auto
    show "disjr x y"
      using mem [OF xy(1)] mem [OF xy(2)] xy(3) RR cd rd sp(5) disjr_sym by metis
  qed
  moreover have "chunk_ok ?lo ?hi d" if "d \<in> insert ?c A \<union> set (taken n c F)" for d
  proof -
    have "d = ?c \<or> (d = ?r \<and> n < snd c) \<or> d \<in> A \<union> set F"
      using that n(3) D(2) by (auto simp: set_taken split: if_splits)
    then show ?thesis using sp(1,3) heap_inv_ok [OF inv] by blast
  qed
  moreover have "chunk_size m' (fst d) = of_nat (snd d)" if "d \<in> A" for d
    using chunk_size_same_on [OF heap_inv_big [OF inv] same, of d] D(5) that by simp
  moreover have "distinct (taken n c F)" "insert ?c A \<inter> set (taken n c F) = {}"
    using D(2,3) r_new c_new n(3)
    by (auto simp: taken_def distinct_ins set_ins)
  moreover have "sorted (map snd (taken n c F))"
    using D(7) by (simp add: taken_def sorted_ins sorted_map_remove1)
  moreover have "sum snd (insert ?c A) + sum_list (map snd (taken n c F)) = ?hi - ?lo"
  proof -
    have "sum_list (map snd F) = snd c + sum_list (map snd (remove1 c F))"
      using c by (rule sum_list_map_remove1)
    then have "n + sum_list (map snd (taken n c F)) = sum_list (map snd F)"
      using n(3) by (auto simp: taken_def sum_list_ins tail_of_def)
    then show ?thesis using D(1,8) c_new by simp
  qed
  ultimately show ?thesis
    using a D(1) seg sz unfolding heap_inv_def by (auto simp: arena_ok_def)
qed

lemma remove1_middle: "c \<notin> set F1 \<Longrightarrow> remove1 c (F1 @ c # F2) = F1 @ F2"
  by (simp add: remove1_append)

text \<open>
  The last steps of \<open>fetch_sorted_bin\<close> clear the header of the chunk and set its size; they stay
  inside the chunk.
\<close>

lemma finish_chunk:
  assumes big: "big_region (a, n)"
  shows "chunk_size (kstore64 (memset dm m a 0 24) a (of_nat n)) a = of_nat n"
    and "changed_within m (kstore64 (memset dm m a 0 24) a (of_nat n)) {(a, n)}"
proof -
  show "chunk_size (kstore64 (memset dm m a 0 24) a (of_nat n)) a = of_nat n"
    by (simp add: chunk_size_def)
  have k: "kreg (a, n)" "24 \<le> n" using big by (simp_all add: big_region_def)
  then have h: "kreg (a, 24)" "subr (a, 24) (a, n)"
    using kreg_sub [of "(a, n)" 0 24] by (simp_all add: subr_def)
  have "memset dm m a 0 24 = store_bytes m (dm a) (replicate 24 0)"
    using h(1) by (subst memset_dm) (auto simp: kreg_def kptr_def)
  then have "changed_within m (memset dm m a 0 24) {(a, n)}"
    using store_bytes_frame [of "(a, 24)" _ "replicate 24 0" m] h
    by (simp add: changed_within_def disjr_subr)
  moreover have "changed_within (memset dm m a 0 24)
      (kstore64 (memset dm m a 0 24) a (of_nat n)) {(a, n)}"
    using store_size_within [OF big, of "{(a, n)}"] by simp
  ultimately show "changed_within m (kstore64 (memset dm m a 0 24) a (of_nat n)) {(a, n)}"
    by (rule changed_within_trans)
qed

lemma not_smaller_split:
  assumes "not_smaller n F = c # F2" "distinct F"
  shows "F = smaller n F @ c # F2" "n \<le> snd c" "c \<in> set F" "c \<notin> set (smaller n F)"
    "remove1 c F = smaller n F @ F2"
proof -
  show F: "F = smaller n F @ c # F2" using smaller_not_smaller [of n F] assms(1) by simp
  show "n \<le> snd c" using assms(1) by (simp add: not_smaller_def dropWhile_eq_Cons_conv)
  show "c \<in> set F" by (subst F) simp
  show c: "c \<notin> set (smaller n F)" using F assms(2) by (metis distinct_append disjoint_iff list.set_intros(1))
  show "remove1 c F = smaller n F @ F2" using remove1_middle [OF c] F by metis
qed

text \<open>Splitting: the tail of an unlinked chunk \<open>c\<close> goes back into the bin \<open>G\<close>.\<close>

lemma carve_tail:
  assumes seg: "bin_seg (kmem s) (sorted_bin_next s) G 0"
    and bigG: "\<And>d. d \<in> set G \<Longrightarrow> big_region d" and apart: "apart (set G)" and dist: "distinct G"
    and okc: "chunk_ok lo hi c" and w: "2 ^ 39 \<le> lo" "hi \<le> 2 ^ 40"
    and n: "0 < n" "n mod 0x80 = 0" "n \<le> snd c" and cG: "\<And>d. d \<in> set G \<Longrightarrow> disjr c d"
  obtains m' p' where
    "(if of_nat (snd c) = (of_nat n :: u64) then Inr s
      else insert_sorted (s\<lparr>kmem := kstore64 (kmem s) (fst c + of_nat n) (of_nat (snd c) - of_nat n)\<rparr>)
             (fst c + of_nat n)) = Inr (s\<lparr>kmem := m', sorted_bin_next := p'\<rparr>)"
    "bin_seg m' p' (if snd c = n then G else ins (tail_of n c) G) 0"
    "changed_within (kmem s) m' (insert c (set G))"
proof (cases "snd c = n")
  case True
  with seg that [where m' = "kmem s" and p' = "sorted_bin_next s"] show ?thesis by simp
next
  case False
  with n(3) have lt: "n < snd c" by simp
  note sp = split_chunk [OF okc w n]
  let ?r = "tail_of n c" and ?m = "kstore64 (kmem s) (fst (tail_of n c)) (of_nat (snd (tail_of n c)))"
  have bigr: "big_region ?r" using sp(3) [OF lt] w by (rule big_region_if_ok)
  have rd: "disjr ?r d" if "disjr c d" for d using that sp(4) [OF lt] by (rule disjr_subr)
  have rG: "?r \<notin> set G"
    using rd [OF cG, of ?r] disjr_irrefl [of ?r] bigr by (auto simp: big_region_def kreg_def)
  have fr: "changed_within (kmem s) ?m {?r}" using bigr by (rule store_size_within) simp
  have neq: "of_nat (snd c) \<noteq> (of_nat n :: u64)"
    using lt snd_lt_if_kreg [of c] big_region_if_ok [OF okc w] of_nat_less_64 [of n "snd c"]
    by (auto simp: big_region_def)
  let ?s = "s\<lparr>kmem := ?m\<rparr>"
  have "bin_seg ?m (sorted_bin_next s) G 0"
  proof (subst bin_seg_same_on)
    show "big_region d \<and> same_on (kmem s) ?m d" if "d \<in> set G" for d
      using bigG [OF that] rd [OF cG [OF that]]
      by (auto simp: big_region_def intro: changed_withinD [OF fr])
  qed (rule seg)
  then have seg0: "bin_seg (kmem ?s) (sorted_bin_next ?s) G 0" by simp
  have apart0: "apart (insert ?r (set G))"
    using apart rd [OF cG] unfolding apart_def by (simp add: disjr_sym)
  have big0: "big_region d" if "d \<in> insert ?r (set G)" for d
    using that bigr bigG by blast
  have sz0: "chunk_size (kmem ?s) (fst ?r) = of_nat (snd ?r)" by (simp add: chunk_size_def)
  obtain m' p' where i: "insert_sorted ?s (fst ?r) = Inr (?s\<lparr>kmem := m', sorted_bin_next := p'\<rparr>)"
    and seg': "bin_seg m' p' (ins ?r G) 0" and ch: "changed_within (kmem ?s) m' (insert ?r (set G))"
    by (rule insert_sorted_bin [OF seg0 big0 apart0 rG dist sz0])
  have fr': "changed_within ?m m' (insert ?r (set G))" using ch by simp
  have "changed_within (kmem s) m' (insert ?r (set G))"
    using changed_within_mono [OF fr] by (intro changed_within_trans [OF _ fr']) simp
  then have within: "changed_within (kmem s) m' (insert c (set G))"
    using rd unfolding changed_within_def by blast
  show ?thesis
  proof (rule that [OF _ _ within])
    show "(if of_nat (snd c) = (of_nat n :: u64) then Inr s
      else insert_sorted (s\<lparr>kmem := kstore64 (kmem s) (fst c + of_nat n) (of_nat (snd c) - of_nat n)\<rparr>)
             (fst c + of_nat n)) = Inr (s\<lparr>kmem := m', sorted_bin_next := p'\<rparr>)"
      using i neq lt by (simp add: tail_of_def)
    show "bin_seg m' p' (if snd c = n then G else ins ?r G) 0" using seg' False by simp
  qed
qed

lemma fetch_none:
  assumes "heap_inv s A F" "n < 2 ^ 64" "not_smaller n F = []"
  shows "fetch_sorted_bin s (of_nat n) = Inr (0, s)"
proof -
  have "fetch_walk (kmem s) (of_nat n) Sorted_bin (sorted_bin_next s) = Some (Inr None)"
    using assms heap_inv_big [OF assms(1)] heap_inv_valid [OF assms(1)]
    by (subst fetch_walk_bin [OF heap_invD(6) [OF assms(1)]]) (simp_all add: big_region_def)
  then show ?thesis by (simp add: fetch_sorted_bin_def)
qed

lemma fetch_found:
  assumes inv: "heap_inv s A F" and n: "0 < n" "n mod 0x80 = 0" and ns: "not_smaller n F = c # F2"
  obtains s' where
    "fetch_sorted_bin s (of_nat n) = Inr (chunk2mem (fst c), s')"
    "heap_inv s' (insert (fst c, n) A) (taken n c F)"
    "changed_within (kmem s) (kmem s') (set F)"
    "arena_top s' = arena_top s" "arena_top_size s' = arena_top_size s"
    "arena_min_addr s' = arena_min_addr s"
proof -
  note D = heap_invD [OF inv]
  note nf = not_smaller_split [OF ns D(2)]
  let ?F1 = "smaller n F" and ?m = "kmem s" and ?c = "(fst c, n)"
  have w: "2 ^ 39 \<le> unat (arena_min_addr s)" "unat (arena_top s) \<le> 2 ^ 40"
    using heap_inv_arena [OF inv] by (auto simp: arena_ok_def)
  have okc: "chunk_ok (unat (arena_min_addr s)) (unat (arena_top s)) c"
    using heap_inv_ok [OF inv] nf(3) by blast
  note sp = split_chunk [OF okc w n nf(2)]
  have bigF: "big_region d" if "d \<in> A \<union> set F" for d using heap_inv_big [OF inv that] .
  have cd: "disjr c d" if "d \<in> set F" "d \<noteq> c" for d
    using that nf(3) by (intro heap_inv_disjr [OF inv]) auto
  have FF: "set F = insert c (set (?F1 @ F2))" "set ?F1 \<subseteq> set F"
    using arg_cong [OF nf(1), of set] by auto
  have dist: "distinct (?F1 @ c # F2)" using D(2) nf(1) by simp
  have apart: "apart (set (?F1 @ c # F2))"
    using FF by (intro apart_subset [OF D(4)]) auto
  have "fetch_walk ?m (of_nat n) Sorted_bin (sorted_bin_next s)
      = Some (Inr (Some (last_ref Sorted_bin ?F1, fst c)))"
    using ns nf(2,3) bigF heap_inv_valid [OF inv] heap_inv_lt [OF inv, of c]
    by (subst fetch_walk_bin [OF D(6)]) (simp_all add: big_region_def)
  note walk = this
  have seg0: "bin_seg ?m (sorted_bin_next s) (?F1 @ c # F2) 0" using D(6) nf(1) by simp
  have big0: "big_region d" if "d \<in> set (?F1 @ c # F2)" for d
    using that bigF [of d] FF(1) by auto
  obtain m1 p1 where s1: "set_next s (last_ref Sorted_bin ?F1) (chunk_next ?m (fst c))
      = s\<lparr>kmem := m1, sorted_bin_next := p1\<rparr>"
    and seg1: "bin_seg m1 p1 (?F1 @ F2) 0" and ch1: "changed_within ?m m1 (set ?F1)"
    by (rule unlink_bin [OF seg0 big0 apart dist])
  have "same_on ?m m1 c"
    using nf(3,4) FF cd bigF by (intro changed_withinD [OF ch1]) (auto simp: big_region_def disjr_sym)
  then have sz1: "chunk_size m1 (fst c) = of_nat (snd c)"
    using chunk_size_same_on [OF bigF] nf(3) seg0
    by (auto simp: bin_seg_append)
  let ?s1 = "s\<lparr>kmem := m1, sorted_bin_next := p1\<rparr>"
  have sz1': "chunk_size (kmem ?s1) (fst c) = of_nat (snd c)" using sz1 by simp
  have seg1': "bin_seg (kmem ?s1) (sorted_bin_next ?s1) (?F1 @ F2) 0" using seg1 by simp
  have big1: "big_region d" if "d \<in> set (?F1 @ F2)" for d using that big0 [of d] by auto
  have disj1: "disjr c d" if "d \<in> set (?F1 @ F2)" for d using that cd [of d] FF dist by auto
  have apart1: "apart (set (?F1 @ F2))" by (rule apart_subset [OF apart]) auto
  have dist1: "distinct (?F1 @ F2)" using dist by simp
  obtain m2 p2 where run: "(if of_nat (snd c) = (of_nat n :: u64) then Inr ?s1
        else insert_sorted (?s1\<lparr>kmem := kstore64 (kmem ?s1) (fst c + of_nat n)
               (of_nat (snd c) - of_nat n)\<rparr>) (fst c + of_nat n))
        = Inr (?s1\<lparr>kmem := m2, sorted_bin_next := p2\<rparr>)"
    and seg2: "bin_seg m2 p2 (if snd c = n then ?F1 @ F2 else ins (tail_of n c) (?F1 @ F2)) 0"
    and ch2: "changed_within (kmem ?s1) m2 (insert c (set (?F1 @ F2)))"
    by (rule carve_tail [OF seg1' big1 apart1 dist1 okc w n nf(2) disj1])
  let ?m3 = "kstore64 (memset dm m2 (fst c) 0 24) (fst c) (of_nat n)"
  have bigc: "big_region ?c" using sp(1) w by (rule big_region_if_ok)
  note fin = finish_chunk [OF bigc, of m2]
  have "changed_within m2 ?m3 (set F)"
    using fin(2) nf(3) sp(2) unfolding changed_within_def by (blast intro: disjr_subr)
  then have ch: "changed_within ?m ?m3 (set F)"
    using changed_within_mono [OF ch1 FF(2)] ch2 FF(1) by (auto intro: changed_within_trans)
  have seg3: "bin_seg ?m3 p2 (taken n c F) 0"
  proof (subst bin_seg_same_on)
    fix d assume d: "d \<in> set (taken n c F)"
    then consider "d = tail_of n c" "n < snd c" | "d \<in> set F" "d \<noteq> c"
      using nf(2) D(2) by (auto simp: set_taken split: if_splits)
    then have "big_region d \<and> disjr ?c d"
      by cases (use sp(3,5) w cd [of d] bigF sp(2) in \<open>auto intro: big_region_if_ok disjr_subr\<close>)
    then show "big_region d \<and> same_on m2 ?m3 d"
      by (auto simp: big_region_def intro: changed_withinD [OF fin(2)])
  qed (use seg2 in \<open>simp add: taken_def nf(5) split: if_splits\<close>)
  have "same_on ?m ?m3 d" if "d \<in> A" for d
    using that D(3) bigF [of d]
    by (intro changed_withinD [OF ch] heap_inv_disjr [OF inv]) (auto simp: big_region_def)
  then have "heap_inv (s\<lparr>kmem := ?m3, sorted_bin_next := p2\<rparr>) (insert ?c A) (taken n c F)"
    using fin(1) by (intro heap_inv_taken [OF inv nf(3) n nf(2) seg3]) simp_all
  moreover have "fetch_sorted_bin s (of_nat n)
      = Inr (chunk2mem (fst c), s\<lparr>kmem := ?m3, sorted_bin_next := p2\<rparr>)"
    unfolding fetch_sorted_bin_def walk
    by (simp only: option.case sum.case prod.case s1 Let_def sz1' run bindE_simps) simp
  ultimately show ?thesis
    using ch by (intro that [where s' = "s\<lparr>kmem := ?m3, sorted_bin_next := p2\<rparr>"]) simp_all
qed

end
