(* ===== verification/Kmalloc_Spec.thy ===== *)
theory Kmalloc_Spec
  imports Kmalloc_Inv
begin

unbundle bit_operations_syntax

text \<open>
  What \<^verbatim>\<open>kmalloc\<close>, \<^verbatim>\<open>kfree\<close> and \<^verbatim>\<open>init_allocator\<close> of \<^verbatim>\<open>kernel/mm/kmalloc.c\<close> promise: the whole
  operations over the invariant of theory \<open>Kmalloc_Inv\<close>, the contract of the allocator towards the
  rest of the kernel as the locale \<open>block_heap\<close>, its interpretations on the model, and the
  properties of every sequence of allocator calls.
\<close>

section \<open>Whole operations\<close>

text \<open>The arena as a region, and what every operation keeps besides the chunks it works on.\<close>

definition arena_end :: "'z kheap_scheme \<Rightarrow> nat" where
  "arena_end s = unat (arena_top s) + unat (arena_top_size s)"

definition arena :: "'z kheap_scheme \<Rightarrow> region" where
  "arena s = (arena_min_addr s, arena_end s - unat (arena_min_addr s))"

definition kept :: "'z kheap_scheme \<Rightarrow> 'z kheap_scheme \<Rightarrow> region set \<Rightarrow> bool" where
  "kept s s' A \<longleftrightarrow>
     arena_min_addr s' = arena_min_addr s \<and> arena_end s' = arena_end s \<and>
     (\<forall>d\<in>A. same_on (kmem s) (kmem s') d) \<and> changed_within (kmem s) (kmem s') {arena s}"

lemma arena_kept: "kept s s' A \<Longrightarrow> arena s' = arena s"
  by (simp add: kept_def arena_def)

lemma kept_refl [simp]: "kept s s A"
  by (simp add: kept_def same_on_def)

lemma kept_trans:
  assumes "kept s s' A" "kept s' s'' B" "A \<subseteq> B" shows "kept s s'' A"
proof -
  have "changed_within (kmem s) (kmem s'') {arena s}"
    by (rule changed_within_trans [of "kmem s" "kmem s'"])
      (use assms(1,2) arena_kept [OF assms(1)] in \<open>simp_all add: kept_def\<close>)
  moreover have "same_on (kmem s) (kmem s'') d" if "d \<in> A" for d
    by (rule same_on_trans [of "kmem s" "kmem s'"]) (use that assms in \<open>auto simp: kept_def\<close>)
  ultimately show ?thesis using assms(1,2) by (simp add: kept_def)
qed

lemma heap_inv_arena_kreg:
  assumes "heap_inv s A F" "0 < unat (arena_top_size s) \<or> A \<noteq> {}"
  shows "kreg (arena s)"
  using heap_inv_arena [OF assms(1)] assms(2) heap_inv_ok [OF assms(1)]
  by (fastforce simp: arena_ok_def arena_def arena_end_def kreg_def chunk_ok_def)

lemma chunk_subr_arena: "heap_inv s A F \<Longrightarrow> c \<in> A \<union> set F \<Longrightarrow> subr c (arena s)"
  using heap_inv_ok [of s A F c] heap_inv_arena [of s A F]
  by (auto simp: subr_def arena_def arena_end_def chunk_ok_def arena_ok_def)

lemma changed_within_subr:
  assumes "changed_within m m' D" "\<And>e. e \<in> D \<Longrightarrow> subr e r"
  shows "changed_within m m' {r}"
  using assms disjr_subr unfolding changed_within_def by blast

lemma keptI:
  assumes "heap_inv s A F" "changed_within (kmem s) (kmem s') D"
    and "\<And>e d. e \<in> D \<Longrightarrow> d \<in> B \<Longrightarrow> disjr e d" "\<And>e. e \<in> D \<Longrightarrow> subr e (arena s)" "B \<subseteq> A"
    and "arena_min_addr s' = arena_min_addr s" "arena_end s' = arena_end s"
  shows "kept s s' B"
proof -
  have "same_on (kmem s) (kmem s') d" if "d \<in> B" for d
    using that assms(3,5) heap_inv_big [OF assms(1), of d]
    by (intro changed_withinD [OF assms(2)]) (auto simp: big_region_def)
  then show ?thesis
    using assms(6,7) changed_within_subr [OF assms(2,4)] by (simp add: kept_def)
qed

text \<open>Sizes: the request grows by the header and is rounded up to a multiple of 128.\<close>

definition rounded :: "nat \<Rightarrow> nat" where
  "rounded len = ((len + 16 + 0x7f) div 0x80) * 0x80"

lemma rounded_bounds: "len + 16 \<le> rounded len" "rounded len < len + 16 + 0x80"
  "rounded len mod 0x80 = 0" "0 < rounded len"
  using div_mult_mod_eq [of "len + 16 + 0x7f" "0x80"] mod_less_divisor [of "0x80" "len + 16 + 0x7f"]
  by (simp_all add: rounded_def)

lemma rounded_alt:
  "rounded len = (if (len + 16) mod 0x80 \<noteq> 0 then (len + 16) - (len + 16) mod 0x80 + 0x80 else len + 16)"
proof -
  define q r where "q = (len + 16) div 0x80" and "r = (len + 16) mod 0x80"
  have l: "len + 16 = q * 0x80 + r" and r: "r < 0x80" by (simp_all add: q_def r_def)
  have "len + 16 + 0x7f = (r + 0x7f) + q * 0x80" using l by simp
  then have "(len + 16 + 0x7f) div 0x80 = (r + 0x7f) div 0x80 + q" by (simp only: div_mult_self1)
  moreover have "(r + 0x7f) div 0x80 = (if r = 0 then 0 else 1)"
    using r by (auto intro!: div_nat_eqI)
  ultimately have "rounded len = ((if r = 0 then 0 else 1) + q) * 0x80" by (simp only: rounded_def)
  then show ?thesis using l unfolding r_def [symmetric] by auto
qed

lemma alignup_rounded:
  assumes "unat len < 2 ^ 32"
  shows "alignup (len + 16) 0x80 = of_nat (rounded (unat len))"
proof -
  let ?v = "len + 16"
  have v: "unat ?v = unat len + 16" using assms by (simp add: unat_add_64)
  have m: "(0x7f :: u64) = mask 7" "(- 0x80 :: u64) = NOT (mask 7)"
    by (simp_all add: mask_eq_exp_minus_1 not_eq_complement)
  have lo: "unat (?v AND mask 7) = (unat len + 16) mod 0x80" by (simp add: and_mask_64 v)
  have hi: "?v AND NOT (mask 7) = ?v - (?v AND mask 7)"
    using and_not_plus_and [of ?v "mask 7"] by (simp only: eq_diff_eq)
  have "of_nat (unat ?v - unat (?v AND mask 7)) = ?v AND NOT (mask 7)"
  proof (subst of_nat_diff)
    show "unat (?v AND mask 7) \<le> unat ?v" by (simp only: lo v mod_less_eq_dividend)
  qed (simp add: hi)
  moreover have "rounded (unat len) = (if (unat len + 16) mod 0x80 \<noteq> 0
      then (unat len + 16) - (unat len + 16) mod 0x80 + 0x80 else unat len + 16)"
    by (rule rounded_alt)
  ultimately show ?thesis
    using lo v m by (auto simp: alignup_def algebra_simps simp flip: unat_eq_zero)
qed

text \<open>
  \<open>served s s' A c F'\<close>: going from \<open>s\<close> to \<open>s'\<close> the chunk \<open>c\<close> was added to the allocated chunks \<open>A\<close>.
\<close>

definition served ::
    "'z kheap_scheme \<Rightarrow> 'z kheap_scheme \<Rightarrow> region set \<Rightarrow> region \<Rightarrow> region list \<Rightarrow> bool" where
  "served s s' A c F' \<longleftrightarrow> heap_inv s' (insert c A) F' \<and> c \<notin> A \<and> kept s s' A"

text \<open>The bytes a page-aligned request first consumes, so that the block after the header is aligned.\<close>

definition page_gap :: "'z kheap_scheme \<Rightarrow> nat" where
  "page_gap s = (let c = unat (arena_top s) mod 0x1000 in if c \<le> 0xff0 then 0xff0 - c else 0x1ff0 - c)"

definition no_room :: "'z kheap_scheme \<Rightarrow> region list \<Rightarrow> nat \<Rightarrow> u32 \<Rightarrow> bool" where
  "no_room s F n align \<longleftrightarrow>
     (if align = MALLOC_NO_ALIGN then (\<forall>c\<in>set F. snd c < n) \<and> unat (arena_top_size s) < n
      else unat (arena_top_size s) < page_gap s + n)"

lemma not_smaller_Nil: "not_smaller n F = [] \<longleftrightarrow> (\<forall>c\<in>set F. snd c < n)"
  by (simp add: not_smaller_def)

lemma served_fetch:
  assumes inv: "heap_inv s A F" and n: "0 < n" "n mod 0x80 = 0" and F: "not_smaller n F \<noteq> []"
  obtains s' c F' where "fetch_sorted_bin s (of_nat n) = Inr (chunk2mem (fst c), s')"
    "served s s' A c F'" "snd c = n"
proof -
  obtain c F2 where ns: "not_smaller n F = c # F2" using F by (auto simp: neq_Nil_conv)
  from heap_invD(2) [OF inv] have c: "n \<le> snd c" "c \<in> set F"
    by (rule not_smaller_split [OF ns])+
  obtain s' where s': "fetch_sorted_bin s (of_nat n) = Inr (chunk2mem (fst c), s')"
    "heap_inv s' (insert (fst c, n) A) (taken n c F)" "changed_within (kmem s) (kmem s') (set F)"
    "arena_top s' = arena_top s" "arena_top_size s' = arena_top_size s"
    "arena_min_addr s' = arena_min_addr s"
    by (rule fetch_found [OF inv n ns])
  have disj: "disjr e d" if "e \<in> set F" "d \<in> A" for e d
    using that heap_invD(3) [OF inv] by (intro heap_inv_disjr [OF inv]) auto
  have "kept s s' A"
    using s'(4-6) disj chunk_subr_arena [OF inv]
    by (intro keptI [OF inv s'(3)]) (auto simp: arena_end_def)
  moreover have "(fst c, n) \<notin> A" using disj [OF c(2), of "(fst c, n)"] c(1) n(1) by (auto simp: disjr_def)
  ultimately have "served s s' A (fst c, n) (taken n c F)" using s'(2) by (simp add: served_def)
  with s'(1) show ?thesis using that [where c = "(fst c, n)" and s' = s' and F' = "taken n c F"] by simp
qed

lemma served_top:
  assumes inv: "heap_inv s A F" and n: "0 < n" "n mod 0x80 \<in> {0, 0x70}"
    and top: "(unat (arena_top s) + n) mod 0x80 \<in> {0, 0x70}" and fits: "n \<le> unat (arena_top_size s)"
  obtains s' where "malloc_top s (of_nat n) = (chunk2mem (arena_top s), s')"
    "served s s' A (arena_top s, n) F"
    "arena_top s' = arena_top s + of_nat n" "arena_top_size s' = arena_top_size s - of_nat n"
proof -
  obtain s' where s': "malloc_top s (of_nat n) = (chunk2mem (arena_top s), s')"
    "heap_inv s' (insert (arena_top s, n) A) F" "(arena_top s, n) \<notin> A \<union> set F"
    "changed_within (kmem s) (kmem s') {(arena_top s, n)}"
    "arena_top s' = arena_top s + of_nat n" "arena_top_size s' = arena_top_size s - of_nat n"
    "arena_min_addr s' = arena_min_addr s"
    by (rule malloc_top_inv [OF inv n top fits])
  have a: "arena_ok s" by (rule heap_inv_arena [OF inv])
  have n': "n < 2 ^ 64" using fits unat_bound_64 [of "arena_top_size s"] by simp
  have u: "unat (arena_top s') = unat (arena_top s) + n"
    unfolding s'(5) using a fits by (intro unat_add_nat_64) (auto simp: arena_ok_def)
  have us: "unat (arena_top_size s') = unat (arena_top_size s) - n"
    unfolding s'(6) using fits n' by (simp add: unat_sub_if' word_le_nat_alt)
  have "disjr (arena_top s, n) d" if "d \<in> A" for d
    using that heap_inv_disjr [OF s'(2), of "(arena_top s, n)" d] s'(3) by auto
  moreover have "subr (arena_top s, n) (arena s)"
    using a fits by (auto simp: subr_def arena_def arena_end_def arena_ok_def)
  ultimately have "kept s s' A"
    using s'(7) u us fits by (intro keptI [OF inv s'(4)]) (auto simp: arena_end_def)
  with s' show ?thesis by (intro that) (simp_all add: served_def)
qed

lemma mod_0x80_add:
  assumes "t mod 0x80 \<in> {0, 0x70}" "n mod 0x80 = (0 :: nat)" shows "(t + n) mod 0x80 \<in> {0, 0x70}"
  using assms by (metis mod_add_right_eq Nat.add_0_right)

lemma int_kmalloc_no_align:
  assumes inv: "heap_inv s A F" and n: "0 < n" "n mod 0x80 = 0" "n < 2 ^ 64"
  obtains (none) "int_kmalloc s (of_nat n) MALLOC_NO_ALIGN = Inr (0, s)" "no_room s F n MALLOC_NO_ALIGN"
  | (some) s' c F' where "int_kmalloc s (of_nat n) MALLOC_NO_ALIGN = Inr (chunk2mem (fst c), s')"
      "served s s' A c F'" "snd c = n" "\<not> no_room s F n MALLOC_NO_ALIGN"
proof (cases "not_smaller n F = []")
  case True
  have i: "int_kmalloc s (of_nat n) MALLOC_NO_ALIGN = Inr (malloc_top s (of_nat n))"
    using fetch_none [OF inv n(3) True] by (simp add: int_kmalloc_def)
  show ?thesis
  proof (cases "n \<le> unat (arena_top_size s)")
    case fits: True
    have "(unat (arena_top s) + n) mod 0x80 \<in> {0, 0x70}"
      using heap_inv_arena [OF inv] n(2) by (intro mod_0x80_add) (auto simp: arena_ok_def)
    then obtain s' where "malloc_top s (of_nat n) = (chunk2mem (arena_top s), s')"
      "served s s' A (arena_top s, n) F"
      using n(2) by (auto intro: served_top [OF inv n(1) _ _ fits])
    then show ?thesis using i fits by (intro some [of "(arena_top s, n)"]) (simp_all add: no_room_def)
  next
    case False
    then show ?thesis using i n True malloc_top_none [of s "of_nat n"]
      by (intro none) (simp_all add: no_room_def not_smaller_Nil)
  qed
next
  case False
  then obtain s' c F' where f: "fetch_sorted_bin s (of_nat n) = Inr (chunk2mem (fst c), s')"
    "served s s' A c F'" "snd c = n"
    using served_fetch [OF inv n(1,2)] by blast
  have "big_region c" using f(2) heap_inv_big [of s' "insert c A" F' c] by (simp add: served_def)
  then have "chunk2mem (fst c) \<noteq> 0" by (intro chunk2mem_nz) (simp_all add: big_region_def)
  then show ?thesis using f False
    by (intro some [of c s' F']) (auto simp: int_kmalloc_def no_room_def not_smaller_Nil)
qed

lemma complement_0x80:
  assumes "(r + g) mod 0x80 = 0x70" "g < (0x80 :: nat)" "r \<in> {0, 0x70}"
  shows "g \<in> {0, 0x70}"
proof (cases "r + g < 0x80")
  case True
  with assms show ?thesis by auto
next
  case False
  then have "(r + g) mod 0x80 = r + g - 0x80" using assms(2,3) by (subst le_mod_geq) auto
  with assms show ?thesis by auto
qed

lemma page_gap_mod:
  assumes "unat (arena_top s) mod 0x80 \<in> {0, 0x70}"
  shows "page_gap s mod 0x80 \<in> {0, 0x70}" "(unat (arena_top s) + page_gap s) mod 0x1000 = 0xff0"
    "(unat (arena_top s) + page_gap s) mod 0x80 = 0x70" "page_gap s < 0x1000"
proof -
  define t c q where "t = unat (arena_top s)" and "c = t mod 0x1000" and "q = t div 0x1000"
  have c: "c < 0x1000" and t: "t = q * 0x1000 + c" by (simp_all add: c_def q_def)
  have k: "page_gap s = (if c \<le> 0xff0 then 0xff0 - c else 0x1ff0 - c)"
    by (simp add: page_gap_def t_def c_def Let_def)
  show "page_gap s < 0x1000" using c k by auto
  have "t + page_gap s = 0xff0 + (if c \<le> 0xff0 then q else q + 1) * 0x1000"
    using k t c by auto
  then show m: "(unat (arena_top s) + page_gap s) mod 0x1000 = 0xff0"
    unfolding t_def [symmetric] by (simp only: mod_mult_self1) simp
  have dvd: "(0x80 :: nat) dvd 0x1000" by simp
  show m80: "(unat (arena_top s) + page_gap s) mod 0x80 = 0x70"
    using arg_cong [OF m, of "\<lambda>x. x mod 0x80"] unfolding mod_mod_cancel [OF dvd] by simp
  have "(t mod 0x80 + page_gap s mod 0x80) mod 0x80 = 0x70"
    using m80 unfolding t_def by (simp only: mod_add_eq)
  moreover have "page_gap s mod 0x80 < 0x80" by simp
  ultimately show "page_gap s mod 0x80 \<in> {0, 0x70}"
    using assms unfolding t_def [symmetric] by (rule complement_0x80)
qed

lemma page_gap_word:
  "(((scast MALLOC_PAGE_ALIGN :: u64) - 16) - (arena_top s AND scast (MALLOC_PAGE_ALIGN - 1)))
      AND scast (MALLOC_PAGE_ALIGN - 1) = of_nat (page_gap s)"
proof -
  have "(0xfff :: u64) = mask 12" by (simp add: mask_eq_exp_minus_1)
  then have m: "unat (x AND 0xfff) = unat x mod 0x1000" for x :: u64 using and_mask_64 [of x 12] by simp
  let ?c = "arena_top s AND 0xfff"
  have c: "unat ?c < 0x1000" by (simp add: m)
  have "unat ((0xff0 - ?c) AND 0xfff) = page_gap s"
  proof (cases "unat ?c \<le> 0xff0")
    case True
    then have "unat (0xff0 - ?c) = 0xff0 - unat ?c" by (simp add: unat_sub_if' word_le_nat_alt)
    then show ?thesis using True unfolding m by (simp add: page_gap_def)
  next
    case False
    then have "unat (0xff0 - ?c) = 0xff0 + 2 ^ 64 - unat ?c" by (simp add: unat_sub_if' word_le_nat_alt)
    also have "\<dots> = (0x1ff0 - unat ?c) + (2 ^ 52 - 1) * 0x1000" using c by simp
    finally have "unat (0xff0 - ?c) mod 0x1000 = (0x1ff0 - unat ?c) mod 0x1000" by (simp only: mod_mult_self1)
    then show ?thesis using False c unfolding m by (simp add: page_gap_def)
  qed
  from arg_cong [OF this, of "of_nat :: nat \<Rightarrow> u64"]
  have "(0xff0 - ?c) AND 0xfff = of_nat (page_gap s)" by simp
  then show ?thesis by (simp add: MALLOC_PAGE_ALIGN_def)
qed

lemma kept_kfree:
  assumes inv: "heap_inv s A F" and c: "c \<in> A"
  obtains s' where "kfree s (chunk2mem (fst c)) = Inr s'"
    "heap_inv s' (A - {c}) (if free_top s c then F else ins c F)"
    "kept s s' (A - {c})" "arena_top s' = (if free_top s c then fst c else arena_top s)"
proof -
  obtain s' where s': "kfree s (chunk2mem (fst c)) = Inr s'"
    "heap_inv s' (A - {c}) (if free_top s c then F else ins c F)"
    "changed_within (kmem s) (kmem s') (insert c (set F))"
    "arena_min_addr s' = arena_min_addr s"
    "arena_top s' = (if free_top s c then fst c else arena_top s)"
    "unat (arena_top s') + unat (arena_top_size s') = unat (arena_top s) + unat (arena_top_size s)"
    by (rule kfree_inv [OF inv c])
  have "disjr e d" if "e \<in> insert c (set F)" "d \<in> A - {c}" for e d
    using that c heap_invD(3) [OF inv] by (intro heap_inv_disjr [OF inv]) auto
  moreover have "subr e (arena s)" if "e \<in> insert c (set F)" for e
    using that c by (intro chunk_subr_arena [OF inv]) auto
  ultimately have "kept s s' (A - {c})"
    using s'(4,6) by (intro keptI [OF inv s'(3)]) (auto simp: arena_end_def)
  with s' show ?thesis by (intro that)
qed

lemma page_align_neq [simp]: "MALLOC_PAGE_ALIGN \<noteq> MALLOC_NO_ALIGN" "MALLOC_NO_ALIGN \<noteq> MALLOC_PAGE_ALIGN"
  by (simp_all add: MALLOC_PAGE_ALIGN_def MALLOC_NO_ALIGN_def)

lemma int_kmalloc_page_eq:
  "int_kmalloc s nb MALLOC_PAGE_ALIGN =
     (let k = page_gap s; (gap, s1) = (if k = 0 then (0, s) else malloc_top s (of_nat k))
      in if k \<noteq> 0 \<and> gap = 0 then Inr (0, s1)
         else let (ret, s2) = malloc_top s1 nb in bindE (kfree s2 gap) (\<lambda>s3. Inr (ret, s3)))"
proof -
  have "page_gap s < 0x2000" by (auto simp: page_gap_def Let_def intro: le_less_trans [OF diff_le_self])
  then have "of_nat (page_gap s) = (0 :: u64) \<longleftrightarrow> page_gap s = 0"
    using of_nat_less_64 [of 0 "page_gap s"] by (cases "page_gap s = 0") auto
  then show ?thesis
    unfolding int_kmalloc_def page_gap_word Let_def
    by (simp add: MALLOC_PAGE_ALIGN_def MALLOC_NO_ALIGN_def)
qed

lemma page_aligned_top:
  assumes "arena_ok s" "unat (arena_top s) mod 0x1000 = 0xff0" "16 \<le> unat (arena_top_size s)"
  shows "unat (chunk2mem (arena_top s)) mod 0x1000 = 0"
proof -
  have "unat (arena_top s) + 16 < 2 ^ 64" using assms(1,3) by (auto simp: arena_ok_def)
  then have "unat (chunk2mem (arena_top s)) = unat (arena_top s) + 16"
    by (simp add: chunk2mem_def unat_add_64)
  moreover have "(unat (arena_top s) + 16) mod 0x1000 = (0xff0 + 16) mod 0x1000"
    using assms(2) by (metis mod_add_left_eq)
  ultimately show ?thesis by simp
qed

lemma int_kmalloc_page_at_boundary:
  assumes inv: "heap_inv s A F" and n: "0 < n" "n mod 0x80 = 0" "n < 2 ^ 64" and k: "page_gap s = 0"
  obtains (none) "int_kmalloc s (of_nat n) MALLOC_PAGE_ALIGN = Inr (0, s)" "no_room s F n MALLOC_PAGE_ALIGN"
  | (some) s' c F' where "int_kmalloc s (of_nat n) MALLOC_PAGE_ALIGN = Inr (chunk2mem (fst c), s')"
      "served s s' A c F'" "snd c = n" "\<not> no_room s F n MALLOC_PAGE_ALIGN"
      "unat (chunk2mem (fst c)) mod 0x1000 = 0"
proof (cases "n \<le> unat (arena_top_size s)")
  case True
  have a: "arena_ok s" "unat (arena_top s) mod 0x80 \<in> {0, 0x70}"
    using heap_inv_arena [OF inv] by (auto simp: arena_ok_def)
  obtain s' where s': "malloc_top s (of_nat n) = (chunk2mem (arena_top s), s')"
    "served s s' A (arena_top s, n) F"
    by (rule served_top [OF inv n(1) _ mod_0x80_add [OF a(2) n(2)] True]) (simp add: n(2))
  have "unat (arena_top s) mod 0x1000 = 0xff0" using page_gap_mod(2) [OF a(2)] k by simp
  moreover have "16 \<le> n" using n(1,2) by (cases "n < 16") auto
  ultimately have "unat (chunk2mem (arena_top s)) mod 0x1000 = 0"
    using True by (intro page_aligned_top [OF a(1)]) simp_all
  then show ?thesis
    using s' True k by (intro some [of "(arena_top s, n)" s' F])
      (simp_all add: int_kmalloc_page_eq kfree_def no_room_def)
next
  case False
  then show ?thesis using k n(3) malloc_top_none [of s "of_nat n"]
    by (intro none) (simp_all add: int_kmalloc_page_eq kfree_def no_room_def)
qed

lemma int_kmalloc_page_gap:
  assumes inv: "heap_inv s A F" and n: "0 < n" "n mod 0x80 = 0" "n < 2 ^ 63" and k: "page_gap s \<noteq> 0"
    and gap: "page_gap s \<le> unat (arena_top_size s)"
  obtains (none) s' where "int_kmalloc s (of_nat n) MALLOC_PAGE_ALIGN = Inr (0, s')"
      "heap_inv s' A F" "kept s s' A" "no_room s F n MALLOC_PAGE_ALIGN"
  | (some) s' c F' where "int_kmalloc s (of_nat n) MALLOC_PAGE_ALIGN = Inr (chunk2mem (fst c), s')"
      "served s s' A c F'" "snd c = n" "\<not> no_room s F n MALLOC_PAGE_ALIGN"
      "unat (chunk2mem (fst c)) mod 0x1000 = 0"
proof -
  let ?k = "page_gap s" and ?g = "(arena_top s, page_gap s)"
  have a: "unat (arena_top s) mod 0x80 \<in> {0, 0x70}"
    using heap_inv_arena [OF inv] by (auto simp: arena_ok_def)
  note pg = page_gap_mod [OF a]
  obtain s1 where s1: "malloc_top s (of_nat ?k) = (chunk2mem (arena_top s), s1)" "served s s1 A ?g F"
    "arena_top s1 = arena_top s + of_nat ?k" "arena_top_size s1 = arena_top_size s - of_nat ?k"
    by (rule served_top [OF inv _ pg(1) _ gap]) (use k pg(3) in auto)
  from s1(2) have inv1: "heap_inv s1 (insert ?g A) F" and g: "?g \<notin> A" and kept1: "kept s s1 A"
    by (auto simp: served_def)
  have "big_region ?g" using heap_inv_big [OF inv1] by simp
  then have nz: "chunk2mem (arena_top s) \<noteq> 0" using chunk2mem_nz [of ?g] by (simp add: big_region_def)
  have top1: "unat (arena_top s1) = unat (arena_top s) + ?k"
    unfolding s1(3) using heap_inv_arena [OF inv] gap
    by (intro unat_add_nat_64) (auto simp: arena_ok_def)
  have size1: "unat (arena_top_size s1) = unat (arena_top_size s) - ?k"
    unfolding s1(4) using gap pg(4) by (simp add: unat_sub_if' word_le_nat_alt)
  have run: "int_kmalloc s (of_nat n) MALLOC_PAGE_ALIGN
      = (let (ret, s2) = malloc_top s1 (of_nat n)
         in bindE (kfree s2 (chunk2mem (fst ?g))) (\<lambda>s3. Inr (ret, s3)))"
    using s1(1) k nz by (simp add: int_kmalloc_page_eq)
  show ?thesis
  proof (cases "n \<le> unat (arena_top_size s1)")
    case True
    let ?c = "(arena_top s1, n)"
    have a1: "arena_ok s1" by (rule heap_inv_arena [OF inv1])
    obtain s2 where s2: "malloc_top s1 (of_nat n) = (chunk2mem (arena_top s1), s2)"
      "served s1 s2 (insert ?g A) ?c F"
      by (rule served_top [OF inv1 n(1) _ _ True])
        (use n(2) a1 mod_0x80_add [OF _ n(2)] in \<open>auto simp: arena_ok_def\<close>)
    obtain s3 where s3: "kfree s2 (chunk2mem (fst ?g)) = Inr s3"
      "heap_inv s3 (insert ?c (insert ?g A) - {?g}) (if free_top s2 ?g then F else ins ?g F)"
      "kept s2 s3 (insert ?c (insert ?g A) - {?g})"
      using s2(2) by (auto simp: served_def intro: kept_kfree [of s2 "insert ?c (insert ?g A)" F ?g])
    have A: "insert ?c (insert ?g A) - {?g} = insert ?c A" "?c \<notin> A"
      using s2(2) g by (auto simp: served_def)
    have "kept s s3 A"
      using s2(2) s3(3) A(1) kept1 by (auto simp: served_def intro: kept_trans)
    then have "served s s3 A ?c (if free_top s2 ?g then F else ins ?g F)"
      using s3(2) A by (simp add: served_def)
    moreover have "unat (chunk2mem (arena_top s1)) mod 0x1000 = 0"
    proof (rule page_aligned_top [OF a1])
      show "unat (arena_top s1) mod 0x1000 = 0xff0" using pg(2) top1 by simp
      show "16 \<le> unat (arena_top_size s1)" using True n(1,2) by (cases "n < 16") auto
    qed
    ultimately show ?thesis
      using s2(1) s3(1) run True size1 gap
      by (intro some [of ?c s3]) (auto simp: no_room_def)
  next
    case False
    obtain s3 where s3: "kfree s1 (chunk2mem (fst ?g)) = Inr s3"
      "heap_inv s3 (insert ?g A - {?g}) (if free_top s1 ?g then F else ins ?g F)"
      "kept s1 s3 (insert ?g A - {?g})"
      using kept_kfree [OF inv1, of ?g] by auto
    have A: "insert ?g A - {?g} = A" using g by auto
    have "free_top s1 ?g" using top1 by (simp add: free_top_def)
    then show ?thesis
      using s3 A run False malloc_top_none [of s1 "of_nat n"] n(3) size1 gap kept_trans [OF kept1 s3(3)]
      by (intro none [of s3]) (auto simp: no_room_def)
  qed
qed

text \<open>The owner of a chunk may write its block: the heap does not look there.\<close>

definition block :: "region \<Rightarrow> region" where
  "block c = (chunk2mem (fst c), snd c - 16)"

lemma block_subr:
  assumes "kreg c" "16 < snd c"
  shows "subr (block c) c" "kreg (block c)" "disjr (block c) (fst c, 16)" "kreg (fst c, 16)"
    "unat (chunk2mem (fst c)) = unat (fst c) + 16"
proof -
  have u: "unat (fst c + 16) = unat (fst c) + 16" using unat_offset [of c 16] assms by simp
  then show "subr (block c) c" "kreg (block c)" "disjr (block c) (fst c, 16)" "kreg (fst c, 16)"
    "unat (chunk2mem (fst c)) = unat (fst c) + 16"
    using assms by (auto simp: subr_def block_def chunk2mem_def kreg_def disjr_def)
qed

lemma heap_inv_write:
  assumes inv: "heap_inv s A F" and c: "c \<in> A" and ch: "changed_within (kmem s) m {block c}"
  shows "heap_inv (s\<lparr>kmem := m\<rparr>) A F" "kept s (s\<lparr>kmem := m\<rparr>) (A - {c})"
proof -
  have bigc: "big_region c" using c heap_inv_big [OF inv] by blast
  note b = block_subr [of c]
  have sub: "subr (block c) c" "disjr (block c) (fst c, 16)" "kreg (fst c, 16)"
    using b bigc by (auto simp: big_region_def)
  have disj: "disjr (block c) d" if "d \<in> A \<union> set F" "d \<noteq> c" for d
    using that c heap_inv_disjr [OF inv, of c d] disjr_subr [OF _ sub(1)] by auto
  have same: "same_on (kmem s) m d" if "d \<in> A \<union> set F" "d \<noteq> c" for d
    using disj [OF that] heap_inv_big [OF inv that(1)]
    by (intro changed_withinD [OF ch]) (auto simp: big_region_def)
  have "same_on (kmem s) m (fst c, 16)" using sub(2,3) by (intro changed_withinD [OF ch]) auto
  then have szc: "chunk_size m (fst c) = chunk_size (kmem s) (fst c)"
    using sub(3) kload64_same_on [of "kmem s" m "(fst c, 16)" 0] by (simp add: chunk_size_def)
  have "chunk_size m (fst d) = of_nat (snd d)" if "d \<in> A" for d
  proof (cases "d = c")
    case False
    then show ?thesis
      using that same heap_inv_big [OF inv] chunk_size_same_on heap_invD(5) [OF inv] by (metis UnI1)
  qed (use szc that heap_invD(5) [OF inv] in simp)
  moreover have "bin_seg m (sorted_bin_next s) F 0"
  proof (subst bin_seg_same_on)
    show "big_region d \<and> same_on (kmem s) m d" if "d \<in> set F" for d
      using that c same [of d] heap_inv_big [OF inv, of d] heap_invD(3) [OF inv] by auto
  qed (rule heap_invD(6) [OF inv])
  ultimately show "heap_inv (s\<lparr>kmem := m\<rparr>) A F"
    using inv by (simp add: heap_inv_def arena_ok_def)
  have "subr (block c) (arena s)"
    using sub(1) chunk_subr_arena [OF inv, of c] c by (auto simp: subr_def)
  then show "kept s (s\<lparr>kmem := m\<rparr>) (A - {c})"
    using ch disj by (intro keptI [OF inv, of _ "{block c}"]) (auto simp: arena_end_def)
qed

lemma clear_block:
  assumes "kreg c" "16 < snd c" "unat len \<le> snd c - 16"
  shows "changed_within m (memset dm m (chunk2mem (fst c)) 0 len) {block c}"
    "load_bytes (memset dm m (chunk2mem (fst c)) 0 len) (dm (chunk2mem (fst c))) (unat len)
       = replicate (unat len) 0"
proof -
  let ?p = "chunk2mem (fst c)" and ?b = "(chunk2mem (fst c), unat len)"
  note b = block_subr [OF assms(1,2)]
  have "unat ?p + unat len \<le> 2 ^ 40" "kptr ?p" using b(5) assms by (auto simp: kreg_def kptr_def)
  then have m: "memset dm m ?p 0 len = store_bytes m (dm ?p) (replicate (unat len) 0)"
    by (subst memset_dm) simp_all
  show "load_bytes (memset dm m ?p 0 len) (dm ?p) (unat len) = replicate (unat len) 0"
    unfolding m using unat_bound_64 [of len] load_store_bytes_same [of "replicate (unat len) 0" m "dm ?p"]
    by simp
  have sub: "subr ?b (block c)" using assms(3) by (simp add: subr_def block_def)
  show "changed_within m (memset dm m ?p 0 len) {block c}"
  proof (cases "unat len = 0")
    case True
    then show ?thesis unfolding m by simp
  next
    case False
    then have "kreg ?b" using b(2) assms(2,3) by (auto simp: kreg_def block_def)
    then show ?thesis
      unfolding m changed_within_def using store_bytes_frame [of ?b _ "replicate (unat len) 0" m]
      by (simp add: disjr_subr [OF _ sub])
  qed
qed

lemma served_clear:
  assumes "served s s' A c F'" "snd c = rounded (unat len)"
  defines "s1 \<equiv> s'\<lparr>kmem := memset dm (kmem s') (chunk2mem (fst c)) 0 len\<rparr>"
  shows "served s s1 A c F'"
    "load_bytes (kmem s1) (dm (chunk2mem (fst c))) (unat len) = replicate (unat len) 0"
proof -
  have inv: "heap_inv s' (insert c A) F'" "c \<notin> A" "kept s s' A" using assms(1) by (auto simp: served_def)
  have c: "kreg c" "16 < snd c" "unat len \<le> snd c - 16"
    using heap_inv_big [OF inv(1), of c] rounded_bounds [of "unat len"] assms(2)
    by (auto simp: big_region_def)
  note w = heap_inv_write [OF inv(1) _ clear_block(1) [OF c]]
  have "kept s' s1 A" using w(2) inv(2) by (simp add: s1_def)
  then show "served s s1 A c F'"
    using w(1) inv kept_trans [OF inv(3)] by (auto simp: served_def s1_def)
  show "load_bytes (kmem s1) (dm (chunk2mem (fst c))) (unat len) = replicate (unat len) 0"
    using clear_block(2) [OF c] by (simp add: s1_def)
qed

lemma int_kmalloc_cases:
  assumes inv: "heap_inv s A F" and n: "0 < n" "n mod 0x80 = 0" "n < 2 ^ 63"
    and al: "align = MALLOC_NO_ALIGN \<or> align = MALLOC_PAGE_ALIGN"
  obtains (none) s' where "int_kmalloc s (of_nat n) align = Inr (0, s')"
      "heap_inv s' A F" "kept s s' A" "no_room s F n align"
  | (some) s' c F' where "int_kmalloc s (of_nat n) align = Inr (chunk2mem (fst c), s')"
      "served s s' A c F'" "snd c = n" "\<not> no_room s F n align"
      "align \<noteq> MALLOC_NO_ALIGN \<longrightarrow> unat (chunk2mem (fst c)) mod 0x1000 = 0"
proof -
  have n64: "n < 2 ^ 64" using n(3) by simp
  consider (plain) "align = MALLOC_NO_ALIGN" | (at) "align = MALLOC_PAGE_ALIGN" "page_gap s = 0"
    | (short) "align = MALLOC_PAGE_ALIGN" "page_gap s \<noteq> 0" "unat (arena_top_size s) < page_gap s"
    | (gap) "align = MALLOC_PAGE_ALIGN" "page_gap s \<noteq> 0" "page_gap s \<le> unat (arena_top_size s)"
    using al by linarith
  then show ?thesis
  proof cases
    case plain
    show ?thesis
      by (rule int_kmalloc_no_align [OF inv n(1,2) n64]) (use plain none some inv in auto)
  next
    case at
    show ?thesis
      by (rule int_kmalloc_page_at_boundary [OF inv n(1,2) n64 at(2)]) (use at none some inv in auto)
  next
    case short
    have "unat (of_nat (page_gap s) :: u64) = page_gap s"
      using page_gap_mod(4) [of s] heap_inv_arena [OF inv] by (intro unat_of_nat_64) (auto simp: arena_ok_def)
    then show ?thesis
      using short inv malloc_top_none [of s "of_nat (page_gap s)"]
      by (intro none [of s]) (simp_all add: int_kmalloc_page_eq no_room_def)
  next
    case gap
    show ?thesis
      by (rule int_kmalloc_page_gap [OF inv n gap(2,3)]) (use gap none some in auto)
  qed
qed

text \<open>What \<open>kmalloc\<close> does with the block it found: it is cleared, unless there is none or it is too long.\<close>

lemma kmalloc_eq:
  assumes "unat len < 2 ^ 32"
  shows "kmalloc s len align = bindE (int_kmalloc s (of_nat (rounded (unat len))) align)
     (\<lambda>(victim, s1). if align \<noteq> MALLOC_NO_ALIGN \<and> victim AND scast (align - 1) \<noteq> 0
        then Inl (Panic ''kmalloc.c#kmalloc: alignment request failed'')
        else if victim = 0 \<and> len \<noteq> 0 then Inl null_write
        else if 2 ^ 31 \<le> unat len then Inl memset_overflow
        else Inr (victim, s1\<lparr>kmem := memset dm (kmem s1) victim 0 len\<rparr>))"
proof -
  have l: "\<not> (push_bit 32 1 :: u64) \<le> len" "(push_bit 31 1 :: u64) \<le> len \<longleftrightarrow> 2 ^ 31 \<le> unat len"
    using assms by (simp_all add: word_le_nat_alt push_bit_of_1)
  show ?thesis
    unfolding kmalloc_def Let_def if_not_P [OF l(1)] l(2) using assms by (simp add: alignup_rounded)
qed

lemma page_aligned_and: "unat p mod 0x1000 = 0 \<Longrightarrow> p AND scast (MALLOC_PAGE_ALIGN - 1) = (0 :: u64)"
proof -
  assume p: "unat p mod 0x1000 = 0"
  have "unat (p AND mask 12) = 0" using p and_mask_64 [of p 12] by simp
  then have "p AND mask 12 = 0" by (simp only: unat_eq_zero)
  then show ?thesis by (simp add: MALLOC_PAGE_ALIGN_def mask_eq_exp_minus_1)
qed

lemma kmalloc_cases:
  assumes inv: "heap_inv s A F" and len: "unat len < 2 ^ 32"
    and al: "align = MALLOC_NO_ALIGN \<or> align = MALLOC_PAGE_ALIGN"
  obtains (none) "kmalloc s len align = Inl null_write" "len \<noteq> 0" "no_room s F (rounded (unat len)) align"
  | (empty) s' where "kmalloc s len align = Inr (0, s')" "len = 0"
      "heap_inv s' A F" "kept s s' A" "no_room s F (rounded (unat len)) align"
  | (long) "kmalloc s len align = Inl memset_overflow" "2 ^ 31 \<le> unat len" "\<not> no_room s F (rounded (unat len)) align"
  | (some) s' c F' where "kmalloc s len align = Inr (chunk2mem (fst c), s')" "unat len < 2 ^ 31"
      "served s s' A c F'" "snd c = rounded (unat len)" "\<not> no_room s F (rounded (unat len)) align"
      "load_bytes (kmem s') (dm (chunk2mem (fst c))) (unat len) = replicate (unat len) 0"
      "align \<noteq> MALLOC_NO_ALIGN \<longrightarrow> unat (chunk2mem (fst c)) mod 0x1000 = 0"
proof -
  note rb = rounded_bounds [of "unat len"]
  have n: "rounded (unat len) < 2 ^ 63" using rb(2) len by simp
  show ?thesis
  proof (cases rule: int_kmalloc_cases [OF inv rb(4,3) n al])
    case (1 s')
    show ?thesis
    proof (cases "len = 0")
      case True
      then show ?thesis using 1 by (intro empty [of s']) (simp_all add: kmalloc_eq [of 0] memset_def)
    qed (use 1 in \<open>auto simp: kmalloc_eq [OF len] intro: none\<close>)
  next
    case (2 s' c F')
    have "heap_inv s' (insert c A) F'" using 2(2) by (simp add: served_def)
    then have "big_region c" by (rule heap_inv_big) simp
    then have nz: "chunk2mem (fst c) \<noteq> 0" using chunk2mem_nz [of c] by (simp add: big_region_def)
    have al': "\<not> (align \<noteq> MALLOC_NO_ALIGN \<and> chunk2mem (fst c) AND scast (align - 1) \<noteq> 0)"
      using 2(5) al page_aligned_and by auto
    show ?thesis
    proof (cases "2 ^ 31 \<le> unat len")
      case True
      then show ?thesis using 2(1,4) nz al' by (intro long) (auto simp: kmalloc_eq [OF len])
    next
      case False
      then have "kmalloc s len align
          = Inr (chunk2mem (fst c), s'\<lparr>kmem := memset dm (kmem s') (chunk2mem (fst c)) 0 len\<rparr>)"
        using 2(1) nz al' by (auto simp: kmalloc_eq [OF len])
      then show ?thesis using served_clear [OF 2(2,3)] 2(3,4,5) False by (intro some) auto
    qed
  qed
qed

lemma kmalloc_too_big: "2 ^ 32 \<le> unat len \<Longrightarrow> kmalloc s len align = Inr (0, s)"
  by (simp add: kmalloc_def word_le_nat_alt push_bit_of_1)

text \<open>A fresh arena: nothing allocated, nothing in the bin.\<close>

lemma init_allocator_inv:
  assumes "unat len mod 0x1000 = 0" "0 < unat len" "unat len < 2 ^ 32" "unat addr mod 0x1000 = 0"
    "2 ^ 39 \<le> unat addr" "unat addr + unat len \<le> 2 ^ 40"
  obtains s' where "init_allocator s addr len = Inr s'" "heap_inv s' {} []" "kmem s' = kmem s"
    "arena_min_addr s' = addr" "arena_end s' = unat addr + unat len"
proof -
  have "unat (len AND mask 12) = 0" using assms(1) and_mask_64 [of len 12] by simp
  then have "len AND mask 12 = 0" by (simp only: unat_eq_zero)
  then have l: "len AND 0xfff = 0" "len \<noteq> 0" using assms(2) by (auto simp: mask_eq_exp_minus_1)
  have "unat addr mod 0x80 = 0"
    using arg_cong [OF assms(4), of "\<lambda>x. x mod 0x80"] by (subst (asm) mod_mod_cancel) simp_all
  then show ?thesis
    using assms l that [of "s\<lparr>arena_top := addr, arena_top_size := len, arena_min_addr := addr,
                  sorted_bin_next := 0\<rparr>"]
    by (simp add: init_allocator_def heap_inv_def arena_ok_def apart_def arena_end_def)
qed

section \<open>The contract of the allocator\<close>

text \<open>
  What a client of the allocator relies on, in terms of the blocks it was given: a new block is
  disjoint from the ones handed out before, cleared, and the bytes of the other blocks never change.
  A request that cannot be served ends the run with \<open>starved\<close>, or returns the null pointer when it
  was for no bytes.
\<close>

locale block_heap =
  fixes mem :: "'s \<Rightarrow> memory" and set_mem :: "'s \<Rightarrow> memory \<Rightarrow> 's" and inv :: "'s \<Rightarrow> region set \<Rightarrow> bool"
    and alloc :: "'s \<Rightarrow> u64 \<Rightarrow> stop + (u64 \<times> 's)" and release :: "'s \<Rightarrow> u64 \<Rightarrow> stop + 's"
    and starved :: stop
  assumes mem_set_mem [simp]: "mem (set_mem s m) = m"
    and apart_blocks: "inv s B \<Longrightarrow> apart B"
    and kreg_block: "inv s B \<Longrightarrow> b \<in> B \<Longrightarrow> kreg b"
    and alloc_cases: "inv s B \<Longrightarrow> unat len < 2 ^ 31 \<Longrightarrow> alloc s len = Inl starved \<or>
      (\<exists>s'. alloc s len = Inr (0, s') \<and> inv s' B \<and> (\<forall>b\<in>B. same_on (mem s) (mem s') b)) \<or>
      (\<exists>p n s'. alloc s len = Inr (p, s') \<and> p \<noteq> 0 \<and> unat len \<le> n \<and> (p, n) \<notin> B \<and>
         inv s' (insert (p, n) B) \<and> (\<forall>b\<in>B. same_on (mem s) (mem s') b) \<and>
         load_bytes (mem s') (dm p) (unat len) = replicate (unat len) 0)"
    and write_block: "inv s B \<Longrightarrow> b \<in> B \<Longrightarrow> changed_within (mem s) m {b} \<Longrightarrow> inv (set_mem s m) B"
    and release_block: "inv s B \<Longrightarrow> (p, n) \<in> B \<Longrightarrow>
      \<exists>s'. release s p = Inr s' \<and> inv s' (B - {(p, n)}) \<and>
        (\<forall>b \<in> B - {(p, n)}. same_on (mem s) (mem s') b)"
begin

lemma write_other:
  assumes "inv s B" "b \<in> B" "changed_within (mem s) m {b}" "d \<in> B" "d \<noteq> b"
  shows "same_on (mem s) m d"
  using assms apartD [OF apart_blocks [OF assms(1)]] kreg_block [OF assms(1)]
  by (intro changed_withinD [OF assms(3)]) auto

text \<open>
  A temporary buffer: allocate, fill, free.  Whatever the filling writes into the block, the client
  is back with the blocks it had, their bytes unchanged, or there was no memory for the buffer.
\<close>

lemma scratch_buffer:
  assumes inv: "inv s B" and len: "unat len < 2 ^ 31" and served: "alloc s len \<noteq> Inl starved"
    and fill: "\<And>p n m. unat len \<le> n \<Longrightarrow> changed_within m (fill p m) {(p, n)}"
  shows "\<exists>s'. bindE (alloc s len) (\<lambda>(p, s1). if p = 0 then Inr s1
      else release (set_mem s1 (fill p (mem s1))) p) = Inr s' \<and>
    inv s' B \<and> (\<forall>b\<in>B. same_on (mem s) (mem s') b)"
proof -
  from alloc_cases [OF inv len] served show ?thesis
  proof (elim disjE exE conjE)
    fix p n s1
    assume a: "alloc s len = Inr (p, s1)" "p \<noteq> 0" "unat len \<le> n" "(p, n) \<notin> B"
      "inv s1 (insert (p, n) B)" "\<forall>b\<in>B. same_on (mem s) (mem s1) b"
    let ?s2 = "set_mem s1 (fill p (mem s1))"
    have ch: "changed_within (mem s1) (fill p (mem s1)) {(p, n)}" by (rule fill [OF a(3)])
    have i2: "inv ?s2 (insert (p, n) B)" by (rule write_block [OF a(5) _ ch]) simp
    have k2: "same_on (mem s1) (mem ?s2) b" if "b \<in> B" for b
      using that a(4) write_other [OF a(5) _ ch, of b] by auto
    obtain s3 where s3: "release ?s2 p = Inr s3" "inv s3 (insert (p, n) B - {(p, n)})"
      "\<forall>b \<in> insert (p, n) B - {(p, n)}. same_on (mem ?s2) (mem s3) b"
      using release_block [OF i2, of p n] by auto
    have "same_on (mem s) (mem s3) b" if "b \<in> B" for b
    proof -
      have "b \<noteq> (p, n)" using that a(4) by blast
      then have "same_on (mem ?s2) (mem s3) b" using that s3(3) by blast
      then show ?thesis using that a(6) k2 [OF that] by (simp add: same_on_def)
    qed
    then show ?thesis using s3(1,2) a(1,2,4) by auto
  qed auto
qed

text \<open>Two requests give disjoint blocks, and filling the second does not disturb the first.\<close>

lemma two_blocks:
  assumes "inv s B" "alloc s len = Inr (p, s1)" "p \<noteq> 0" "unat len < 2 ^ 31"
    and "alloc s1 len' = Inr (q, s2)" "q \<noteq> 0" "unat len' < 2 ^ 31"
  shows "\<exists>n k. unat len \<le> n \<and> unat len' \<le> k \<and> disjr (p, n) (q, k) \<and>
    same_on (mem s1) (mem s2) (p, n) \<and> inv s2 (insert (q, k) (insert (p, n) B))"
proof -
  obtain n where n: "unat len \<le> n" "inv s1 (insert (p, n) B)"
    using alloc_cases [OF assms(1,4)] assms(2,3) by auto
  obtain k where k: "unat len' \<le> k" "inv s2 (insert (q, k) (insert (p, n) B))"
    "(q, k) \<notin> insert (p, n) B" "same_on (mem s1) (mem s2) (p, n)"
    using alloc_cases [OF n(2) assms(7)] assms(5,6) by auto
  have "(p, n) \<noteq> (q, k)" using k(3) by blast
  then have "disjr (p, n) (q, k)" by (intro apartD [OF apart_blocks [OF k(2)]]) simp_all
  with n k show ?thesis by blast
qed

end

text \<open>The allocator of the kernel keeps the contract, for plain and for page-aligned requests.\<close>

definition heap_blocks :: "'z kheap_scheme \<Rightarrow> region set \<Rightarrow> bool" where
  "heap_blocks s B \<longleftrightarrow> (\<exists>A F. heap_inv s A F \<and> B = block ` A)"

lemma block_facts:
  assumes "heap_inv s A F" "c \<in> A"
  shows "kreg c" "16 < snd c" "subr (block c) c" "kreg (block c)"
  using heap_inv_big [OF assms(1), of c] assms(2) block_subr [of c] by (auto simp: big_region_def)

lemma block_eq_iff:
  assumes "heap_inv s A F" "c \<in> A" "d \<in> A" shows "block c = block d \<longleftrightarrow> c = d"
  using block_facts(2) [OF assms(1)] assms(2,3)
  by (fastforce simp: block_def chunk2mem_def prod_eq_iff)

lemma block_insert_diff:
  assumes "heap_inv s A F" "c \<in> A" shows "block ` (A - {c}) = block ` A - {block c}"
  using block_eq_iff [OF assms(1)] assms(2) by blast

lemma same_on_block:
  assumes "heap_inv s A F" "c \<in> A" "same_on m m' c" shows "same_on m m' (block c)"
  using block_facts [OF assms(1,2)] same_on_sub [of m m' c 16 "snd c - 16"] assms(3)
  by (simp add: block_def chunk2mem_def)

lemma apart_block:
  assumes "heap_inv s A F" shows "apart (block ` A)"
proof -
  have "disjr (block c) (block d)" if "c \<in> A" "d \<in> A" "block c \<noteq> block d" for c d
  proof -
    have "disjr c d" using that heap_inv_disjr [OF assms, of c d] by auto
    then have "disjr d (block c)" using disjr_subr [OF _ block_facts(3) [OF assms that(1)]] disjr_sym by blast
    then show ?thesis using disjr_subr [OF _ block_facts(3) [OF assms that(2)]] disjr_sym by blast
  qed
  then show ?thesis unfolding apart_def by blast
qed

lemma heap_inv_mem:
  assumes inv: "heap_inv s A F" and same: "\<And>c. c \<in> A \<union> set F \<Longrightarrow> same_on (kmem s) m c"
  shows "heap_inv (s\<lparr>kmem := m\<rparr>) A F"
proof -
  have "chunk_size m (fst c) = of_nat (snd c)" if "c \<in> A" for c
    using that same [of c] heap_inv_big [OF inv, of c] heap_invD(5) [OF inv that]
    by (simp add: chunk_size_same_on)
  moreover have "bin_seg m (sorted_bin_next s) F 0"
    using same heap_inv_big [OF inv] heap_invD(6) [OF inv] by (subst bin_seg_same_on) auto
  ultimately show ?thesis using inv by (simp add: heap_inv_def arena_ok_def)
qed

lemma kmalloc_contract:
  assumes B: "heap_blocks s B" and len: "unat len < 2 ^ 31"
    and al: "align = MALLOC_NO_ALIGN \<or> align = MALLOC_PAGE_ALIGN"
  shows "kmalloc s len align = Inl null_write \<or>
      (\<exists>s'. kmalloc s len align = Inr (0, s') \<and> heap_blocks s' B \<and>
        (\<forall>b\<in>B. same_on (kmem s) (kmem s') b)) \<or>
      (\<exists>p n s'. kmalloc s len align = Inr (p, s') \<and> p \<noteq> 0 \<and> unat len \<le> n \<and> (p, n) \<notin> B \<and>
         heap_blocks s' (insert (p, n) B) \<and> (\<forall>b\<in>B. same_on (kmem s) (kmem s') b) \<and>
         load_bytes (kmem s') (dm p) (unat len) = replicate (unat len) 0)"
proof -
  obtain A F where inv: "heap_inv s A F" and B: "B = block ` A" using B by (auto simp: heap_blocks_def)
  have len32: "unat len < 2 ^ 32" using len by simp
  show ?thesis
  proof (cases rule: kmalloc_cases [OF inv len32 al])
    case (2 s')
    have "same_on (kmem s) (kmem s') (block c)" if "c \<in> A" for c
      using that 2(4) by (intro same_on_block [OF inv that]) (auto simp: kept_def)
    then show ?thesis using 2(1,3) B by (auto simp: heap_blocks_def)
  next
    case (4 s' c F')
    have inv': "heap_inv s' (insert c A) F'" "c \<notin> A" "kept s s' A" using 4(3) by (auto simp: served_def)
    note c = block_facts [OF inv'(1), of c, simplified]
    let ?p = "chunk2mem (fst c)" and ?n = "snd c - 16"
    have bc: "block c = (?p, ?n)" by (simp add: block_def)
    have "block c \<notin> B" using block_eq_iff [OF inv'(1), of c] inv'(2) B by auto
    moreover have "heap_blocks s' (insert (block c) B)" using inv'(1) B unfolding heap_blocks_def by blast
    moreover have "\<forall>b\<in>B. same_on (kmem s) (kmem s') b"
      using inv'(3) same_on_block [OF inv] B by (auto simp: kept_def)
    moreover have "unat len \<le> ?n" "?p \<noteq> 0"
      using 4(4) rounded_bounds(1) [of "unat len"] c(1,2) chunk2mem_nz [of c] by auto
    ultimately show ?thesis using 4(1,6) unfolding bc by blast
  qed (use len in auto)
qed

lemma kfree_contract:
  assumes B: "heap_blocks s B" and b: "(p, n) \<in> B"
  shows "\<exists>s'. kfree s p = Inr s' \<and> heap_blocks s' (B - {(p, n)}) \<and>
    (\<forall>b \<in> B - {(p, n)}. same_on (kmem s) (kmem s') b)"
proof -
  obtain A F where inv: "heap_inv s A F" and B: "B = block ` A" using B by (auto simp: heap_blocks_def)
  obtain c where c: "c \<in> A" "block c = (p, n)" using b B by fastforce
  obtain s' where s': "kfree s (chunk2mem (fst c)) = Inr s'"
    "heap_inv s' (A - {c}) (if free_top s c then F else ins c F)" "kept s s' (A - {c})"
    by (rule kept_kfree [OF inv c(1)])
  have "B - {(p, n)} = block ` (A - {c})" using block_insert_diff [OF inv c(1)] B c(2) by simp
  moreover have "same_on (kmem s) (kmem s') (block d)" if "d \<in> A - {c}" for d
    using that s'(3) same_on_block [OF inv] by (auto simp: kept_def)
  ultimately show ?thesis using s'(1,2) c(2) by (auto simp: heap_blocks_def block_def)
qed

lemma heap_blocks_write:
  assumes "heap_blocks s B" "b \<in> B" "changed_within (kmem s) m {b}"
  shows "heap_blocks (s\<lparr>kmem := m\<rparr>) B"
  using assms heap_inv_write(1) unfolding heap_blocks_def by blast

interpretation kplain: block_heap kmem "\<lambda>s m. s\<lparr>kmem := m\<rparr>" heap_blocks
  "\<lambda>s len. kmalloc s len MALLOC_NO_ALIGN" kfree null_write
proof (unfold_locales, goal_cases)
  case (2 s B) then show ?case using apart_block by (auto simp: heap_blocks_def)
next
  case (3 s B b) then show ?case using block_facts(4) by (auto simp: heap_blocks_def)
next
  case (4 s B len) then show ?case by (rule kmalloc_contract) simp
next
  case (5 s B b m) then show ?case by (rule heap_blocks_write)
next
  case (6 s B p n) then show ?case by (rule kfree_contract)
qed simp

interpretation kpage: block_heap kmem "\<lambda>s m. s\<lparr>kmem := m\<rparr>" heap_blocks
  "\<lambda>s len. kmalloc s len MALLOC_PAGE_ALIGN" kfree null_write
proof (unfold_locales, goal_cases)
  case (4 s B len) then show ?case by (rule kmalloc_contract) simp
qed (simp_all add: kplain.apart_blocks kplain.kreg_block kplain.write_block kplain.release_block)

section \<open>Properties\<close>

lemma chunk2mem_aligned:
  assumes "heap_inv s A F" "c \<in> A" shows "unat (chunk2mem (fst c)) mod 0x10 = 0"
proof -
  have c: "unat (fst c) mod 0x80 \<in> {0, 0x70}"
    using heap_inv_ok [OF assms(1), of c] assms(2) by (simp add: chunk_ok_def)
  have "unat (fst c) mod 0x10 = (unat (fst c) mod 0x80) mod 0x10" by (subst mod_mod_cancel) simp_all
  then have "unat (fst c) mod 0x10 = 0" using c by auto
  then show ?thesis
    using block_subr(5) [OF block_facts(1,2) [OF assms]] by simp
qed

text \<open>A heap for the examples: an arena of 64 KiB at physical address \<open>0x10000\<close>.\<close>

definition heap0 :: kheap where
  "heap0 = \<lparr>kmem = (\<lambda>_. 0), arena_top = 0x8000010000, arena_top_size = 0x10000,
     arena_min_addr = 0x8000010000, sorted_bin_next = 0\<rparr>"

lemma heap0_inv: "heap_inv heap0 {} []"
  by (simp add: heap0_def heap_inv_def arena_ok_def apart_def)



text \<open>
  C2: freeing the block of an allocated chunk always succeeds.  The chunk leaves the allocated ones:
  it is given back to the top when it is the last one of the arena and enters the bin at its place
  in the order of sizes otherwise, and no other allocated chunk changes.
\<close>

theorem kfree_correct:
  assumes "heap_inv s A F" "c \<in> A"
  shows "\<exists>s'. kfree s (chunk2mem (fst c)) = Inr s' \<and>
    (if unat (fst c) + snd c = unat (arena_top s)
     then heap_inv s' (A - {c}) F \<and> arena_top s' = fst c
     else heap_inv s' (A - {c}) (ins c F) \<and> arena_top s' = arena_top s) \<and>
    kept s s' (A - {c})"
proof -
  obtain s' where "kfree s (chunk2mem (fst c)) = Inr s'"
    "heap_inv s' (A - {c}) (if free_top s c then F else ins c F)" "kept s s' (A - {c})"
    "arena_top s' = (if free_top s c then fst c else arena_top s)"
    by (rule kept_kfree [OF assms])
  then show ?thesis by (auto simp: free_top_def)
qed

text \<open>A heap with one chunk of 128 bytes in use.\<close>

definition heap1 :: kheap where
  "heap1 = \<lparr>kmem = kstore64 (\<lambda>_. 0) 0x8000010000 0x80, arena_top = 0x8000010080,
     arena_top_size = 0xff80, arena_min_addr = 0x8000010000, sorted_bin_next = 0\<rparr>"

lemma heap1_inv: "heap_inv heap1 {(0x8000010000, 0x80)} []"
  by (simp add: heap1_def heap_inv_def arena_ok_def apart_def chunk_ok_def chunk_size_def)

theorem kfree_correct_witness:
  "heap_inv heap1 {(0x8000010000, 0x80)} [] \<and>
   (\<exists>s'. kfree heap1 0x8000010010 = Inr s' \<and> heap_inv s' {} [] \<and> arena_top s' = 0x8000010000)"
  using kfree_correct [OF heap1_inv, of "(0x8000010000, 0x80)"] heap1_inv
  by (auto simp: chunk2mem_def heap1_def)

text \<open>
  Every history of the allocator: initialisation, requests, writes of the owners into their blocks, and
  frees, in any order.  \<open>B\<close> is the set of blocks in use.  A request that returns the null pointer leaves
  them as they are; one that does not return has no next state.
\<close>

inductive heap_reach :: "kheap \<Rightarrow> region set \<Rightarrow> bool" where
  reach_init: "init_allocator s addr len = Inr s' \<Longrightarrow> unat len < 2 ^ 32 \<Longrightarrow>
    unat addr mod 0x1000 = 0 \<Longrightarrow> 2 ^ 39 \<le> unat addr \<Longrightarrow> unat addr + unat len \<le> 2 ^ 40 \<Longrightarrow>
    heap_reach s' {}"
| reach_alloc: "heap_reach s B \<Longrightarrow> align = MALLOC_NO_ALIGN \<or> align = MALLOC_PAGE_ALIGN \<Longrightarrow>
    kmalloc s len align = Inr (p, s') \<Longrightarrow>
    heap_reach s' (if p = 0 then B else insert (p, rounded (unat len) - 16) B)"
| reach_write: "heap_reach s B \<Longrightarrow> (p, n) \<in> B \<Longrightarrow> length bs = n \<Longrightarrow>
    heap_reach (s\<lparr>kmem := store_bytes (kmem s) (dm p) bs\<rparr>) B"
| reach_free: "heap_reach s B \<Longrightarrow> (p, n) \<in> B \<Longrightarrow> kfree s p = Inr s' \<Longrightarrow> heap_reach s' (B - {(p, n)})"

lemma kmalloc_block:
  assumes B: "heap_blocks s B" and al: "align = MALLOC_NO_ALIGN \<or> align = MALLOC_PAGE_ALIGN"
    and r: "kmalloc s len align = Inr (p, s')"
  shows "heap_blocks s' (if p = 0 then B else insert (p, rounded (unat len) - 16) B)"
proof (cases "unat len < 2 ^ 32")
  case len: True
  obtain A F where inv: "heap_inv s A F" and B: "B = block ` A" using B by (auto simp: heap_blocks_def)
  show ?thesis
  proof (cases rule: kmalloc_cases [OF inv len al])
    case (4 s2 c F')
    then have i: "heap_inv s' (insert c A) F'" "block c = (p, rounded (unat len) - 16)"
      using r by (auto simp: served_def block_def)
    then have "p \<noteq> 0" using block_facts(4) [OF i(1), of c] by (auto simp: kreg_def)
    then show ?thesis
      using B i unfolding heap_blocks_def by (intro exI [of _ "insert c A"]) auto
  qed (use r B in \<open>auto simp: heap_blocks_def\<close>)
qed (use B r in \<open>simp add: kmalloc_too_big\<close>)

lemma store_block_within: "kreg (p, n) \<Longrightarrow> length bs = n \<Longrightarrow> changed_within m (store_bytes m (dm p) bs) {(p, n)}"
  using store_bytes_frame [of "(p, n)" _ bs m] by (simp add: changed_within_def)

lemma heap_reach_blocks: "heap_reach s B \<Longrightarrow> heap_blocks s B"
proof (induction rule: heap_reach.induct)
  case (reach_init s addr len s')
  from reach_init(1) have "len AND 0xfff = 0" "len \<noteq> 0" by (auto simp: init_allocator_def split: if_splits)
  then have "unat (len AND mask 12) = 0" "0 < unat len" by (simp_all add: mask_eq_exp_minus_1 unat_gt_0)
  then have l: "unat len mod 0x1000 = 0" "0 < unat len" using and_mask_64 [of len 12] by simp_all
  obtain s2 where "init_allocator s addr len = Inr s2" "heap_inv s2 {} []"
    by (rule init_allocator_inv [OF l reach_init(2-5), of s])
  with reach_init(1) show ?case by (auto simp: heap_blocks_def)
next
  case (reach_alloc s B align len p s')
  then show ?case by (intro kmalloc_block)
next
  case (reach_write s B p n bs)
  then show ?case
    using store_block_within [of p n bs "kmem s"] kplain.kreg_block [of s B "(p, n)"]
    by (intro heap_blocks_write) auto
next
  case (reach_free s B p n s')
  then show ?case using kfree_contract [of s B p n] by auto
qed


lemma heap0_reach: "heap_reach heap0 {}"
  by (rule reach_init [of "heap0" "0x8000010000" "0x10000"]) (simp_all add: init_allocator_def heap0_def)

lemma heap1_reach: "\<exists>s p. heap_reach s {(p, 0x70)}"
proof -
  have len: "unat (100 :: u64) < 2 ^ 32" by simp
  have room: "\<not> no_room heap0 [] (rounded (unat (100 :: u64))) MALLOC_NO_ALIGN"
    by (simp add: no_room_def rounded_def heap0_def)
  obtain p s' where k: "kmalloc heap0 100 MALLOC_NO_ALIGN = Inr (p, s')" "p \<noteq> 0"
  proof (cases rule: kmalloc_cases [OF heap0_inv len disjI1 [OF refl]])
    case (4 s' c F')
    then have "chunk2mem (fst c) \<noteq> 0"
      using block_facts(4) [of s' "insert c {}" F' c] by (auto simp: served_def kreg_def block_def)
    then show thesis using 4(1) that by blast
  qed (use room in auto)
  have "heap_reach s' (if p = 0 then {} else insert (p, rounded (unat (100 :: u64)) - 16) {})"
    by (rule reach_alloc [OF heap0_reach _ k(1)]) simp
  then show ?thesis using k(2) by (auto simp: rounded_def)
qed


end
