(* ===== verification/Translate_Inv.thy ===== *)
theory Translate_Inv
  imports Translate Kmalloc_Spec
begin

unbundle bit_operations_syntax

text \<open>
  The page tables of \<^verbatim>\<open>kernel/mm/translate.c\<close> as a tree: the invariant relates the words in
  memory to a map from index paths to tables, and the lemmas show that walking, extending and
  changing the tables implement a lookup and an update of one page.  The tables come from the
  allocator, whose contract keeps them apart from everything else.
\<close>

section \<open>Bits of entries and addresses\<close>

abbreviation page_aligned :: "u64 \<Rightarrow> bool" where
  "page_aligned t \<equiv> t AND 0xfff = 0"

lemma aligned_and_low: "page_aligned t \<Longrightarrow> 0xfff AND c = c \<Longrightarrow> t AND c = 0"
proof -
  assume t: "page_aligned t" and c: "0xfff AND c = c"
  have "t AND c = t AND (0xfff AND c)" by (simp only: c)
  also have "\<dots> = (t AND 0xfff) AND c" by (simp only: and.assoc)
  finally show ?thesis unfolding t by simp
qed

lemma aligned_and_high: "page_aligned t \<Longrightarrow> t AND (- 0x1000) = t"
proof -
  assume t: "page_aligned t"
  have "(- 0x1000 :: u64) = NOT 0xfff" by simp
  then show ?thesis using and_not_plus_and [of t "0xfff"] t by simp
qed

text \<open>An entry of the upper levels of the user part.\<close>

definition user_entry :: "u64 \<Rightarrow> u64" where
  "user_entry t = PDE64_PRESENT OR PDE64_RW OR PDE64_USER OR t"

lemma user_entry_bits:
  assumes "page_aligned t"
  shows "user_entry t AND PDE64_PRESENT \<noteq> 0" "user_entry t AND PDE64_USER \<noteq> 0"
    "user_entry t AND PDE64_RW \<noteq> 0" "user_entry t AND PDE64_PS = 0"
    "next_table (user_entry t) = t OR KERNEL_BASE_OFFSET"
proof -
  have u: "user_entry t = 7 OR t" by (simp add: user_entry_def pde_defs flip: or.assoc)
  have low: "t AND c = 0" if "0xfff AND c = c" for c using assms that by (rule aligned_and_low)
  show "user_entry t AND PDE64_PRESENT \<noteq> 0" "user_entry t AND PDE64_USER \<noteq> 0"
    "user_entry t AND PDE64_RW \<noteq> 0" "user_entry t AND PDE64_PS = 0"
    by (simp_all add: u pde_defs bit.conj_disj_distrib2 low)
  show "next_table (user_entry t) = t OR KERNEL_BASE_OFFSET"
    by (simp add: u next_table_def bit.conj_disj_distrib2 aligned_and_high [OF assms])
qed

lemma pte_index_take: "pte_index v b = take_bit 9 (drop_bit b v)"
  by (simp add: pte_index_def take_bit_eq_mask mask_eq_exp_minus_1)

lemma bit_pte_index: "bit (pte_index v b) n \<longleftrightarrow> n < 9 \<and> bit v (b + n)"
  by (simp only: pte_index_take bit_take_bit_iff bit_drop_bit_eq comp_def)

lemma pte_index_less: "unat (pte_index v b) < 512"
proof -
  have "(0x1ff :: u64) = mask 9" by (simp add: mask_eq_exp_minus_1)
  then show ?thesis using and_mask_64 [of "drop_bit b v" 9] by (simp add: pte_index_def)
qed

lemma high_bits_zero: "drop_bit 48 v = 0 \<Longrightarrow> 48 \<le> n \<Longrightarrow> \<not> bit (v :: u64) n"
  using bit_drop_bit_eq [of 48 v] by (auto simp: fun_eq_iff dest: spec [of _ "n - 48"])

lemma bit_interval_cases:
  assumes "(12 :: nat) \<le> n" "n < 48"
  obtains k where "k < 9" "n = 39 + k" | k where "k < 9" "n = 30 + k"
    | k where "k < 9" "n = 21 + k" | k where "k < 9" "n = 12 + k"
  using that(1) [of "n - 39"] that(2) [of "n - 30"] that(3) [of "n - 21"] that(4) [of "n - 12"] assms
  by linarith

lemma same_page_iff:
  assumes "drop_bit 48 v = 0" "drop_bit 48 w = 0"
  shows "drop_bit 12 v = drop_bit 12 w \<longleftrightarrow>
    PML4OFF v = PML4OFF w \<and> PDPOFF v = PDPOFF w \<and> PDOFF v = PDOFF w \<and> PTOFF v = PTOFF w"
    (is "?l \<longleftrightarrow> ?r")
proof
  assume l: ?l
  have "bit v n \<longleftrightarrow> bit w n" if "12 \<le> n" for n
    using that arg_cong [OF l, of "\<lambda>x. bit x (n - 12)"] by (simp add: bit_drop_bit_eq)
  then have "pte_index v b = pte_index w b" if "12 \<le> b" for b
    using that by (intro bit_eqI) (simp only: bit_pte_index trans_le_add1)
  then show ?r by (simp add: offset_defs)
next
  assume r: ?r
  have off: "bit v (b + k) \<longleftrightarrow> bit w (b + k)" if "pte_index v b = pte_index w b" "k < 9" for b k
    using arg_cong [OF that(1), of "\<lambda>x. bit x k"] that(2) by (simp add: bit_pte_index)
  have "bit v n \<longleftrightarrow> bit w n" if n: "12 \<le> n" for n
  proof (cases "n < 48")
    case True
    from n this show ?thesis
      by (cases rule: bit_interval_cases) (use r off in \<open>auto simp: offset_defs\<close>)
  qed (use high_bits_zero assms in auto)
  then show ?l by (intro bit_eqI) (simp only: bit_drop_bit_eq comp_def le_add1)
qed

text \<open>A user address uses neither the kernel window nor the first two megabytes.\<close>

lemma user_range_index:
  assumes "USER_MEM_RANGE_OK v"
  shows "drop_bit 48 v = 0" "PML4OFF v \<noteq> 1"
    "\<not> (PML4OFF v = 0 \<and> PDPOFF v = 0 \<and> PDOFF v = 0)"
proof -
  show v: "drop_bit 48 v = 0" using assms by (simp add: USER_MEM_RANGE_OK_def)
  have "PML4OFF v = drop_bit 39 v"
  proof (rule bit_eqI)
    fix n
    show "bit (PML4OFF v) n \<longleftrightarrow> bit (drop_bit 39 v) n"
      using high_bits_zero [OF v, of "39 + n"]
      by (cases "n < 9") (simp_all add: PML4OFF_def bit_pte_index bit_drop_bit_eq)
  qed
  then show "PML4OFF v \<noteq> 1" using assms by (simp add: USER_MEM_RANGE_OK_def)
  have "0x200000 \<le> unat v"
    using assms by (simp add: USER_MEM_RANGE_OK_def MIN_USER_MEM_def KERNEL_PAGING_SIZE_def word_le_nat_alt)
  then have nz: "drop_bit 21 v \<noteq> 0"
    using unat_drop_bit [of 21 v] div_le_mono [of "0x200000" "unat v" "2 ^ 21"] by auto
  show "\<not> (PML4OFF v = 0 \<and> PDPOFF v = 0 \<and> PDOFF v = 0)"
  proof
    assume z: "PML4OFF v = 0 \<and> PDPOFF v = 0 \<and> PDOFF v = 0"
    have off: "\<not> bit v (b + k)" if "pte_index v b = 0" "k < 9" for b k
      using bit_pte_index [of v b k] that by simp
    have "\<not> bit v n" if n: "21 \<le> n" for n
    proof (cases "n < 48")
      case True
      consider k where "k < 9" "n = 39 + k" | k where "k < 9" "n = 30 + k" | k where "k < 9" "n = 21 + k"
        using that(1) [of "n - 39"] that(2) [of "n - 30"] that(3) [of "n - 21"] True n by linarith
      then show ?thesis by cases (use z off in \<open>auto simp: offset_defs\<close>)
    qed (use high_bits_zero [OF v] in auto)
    then have "drop_bit 21 v = 0" by (intro bit_eqI) (simp add: bit_drop_bit_eq)
    with nz show False by simp
  qed
qed

text \<open>Tables as regions of the kernel window, and their entries.\<close>

definition tbl :: "u64 \<Rightarrow> region" where
  "tbl t = (t OR KERNEL_BASE_OFFSET, 0x1000)"

definition entry :: "memory \<Rightarrow> u64 \<Rightarrow> u64 \<Rightarrow> u64" where
  "entry m t i = kload64 m ((t OR KERNEL_BASE_OFFSET) + 8 * i)"

definition set_entry :: "memory \<Rightarrow> u64 \<Rightarrow> u64 \<Rightarrow> u64 \<Rightarrow> memory" where
  "set_entry m t i e = kstore64 m ((t OR KERNEL_BASE_OFFSET) + 8 * i) e"

lemma entry_offset: "(8 :: u64) * i = of_nat (8 * unat i)"
  by simp

lemma entry_same_on:
  "same_on m m' (tbl t) \<Longrightarrow> kreg (tbl t) \<Longrightarrow> unat i < 512 \<Longrightarrow> entry m' t i = entry m t i"
  using kload64_same_on [of m m' "tbl t" "8 * unat i"] by (simp add: entry_def tbl_def)

lemma set_entry_within: "kreg (tbl t) \<Longrightarrow> unat i < 512 \<Longrightarrow> changed_within m (set_entry m t i e) {tbl t}"
  using kstore64_frame [of "tbl t" _ "8 * unat i" m e]
  by (simp add: set_entry_def tbl_def changed_within_def)

lemma entry_set_entry:
  assumes "kreg (tbl t)" "unat i < 512" "unat j < 512"
  shows "entry (set_entry m t i e) t j = (if i = j then e else entry m t j)"
proof (cases "i = j")
  case False
  then have "unat i < unat j \<or> unat j < unat i" by (metis nat_neq_iff word_unat_eq_iff)
  then show ?thesis
    using False assms kload64_kstore64_fields [of "tbl t" "8 * unat i" "8 * unat j" m e]
    by (auto simp: entry_def set_entry_def tbl_def)
qed (simp add: entry_def set_entry_def kload64_kstore64_same)

section \<open>The table tree\<close>

text \<open>
  \<open>tab\<close> maps the path of indices that leads to a table to the physical address of the table: the
  empty path to the root, a path of three indices to a page table.  The entries for the kernel window
  and for the first two megabytes are not part of the user tree.
\<close>

type_synonym tables = "u64 list \<rightharpoonup> u64"

definition reserved :: "u64 list \<Rightarrow> u64 \<Rightarrow> bool" where
  "reserved p i \<longleftrightarrow> p = [] \<and> i = 1 \<or> p = [0, 0] \<and> i = 0"

definition pt_ok :: "memory \<Rightarrow> tables \<Rightarrow> bool" where
  "pt_ok m tab \<longleftrightarrow>
     (\<forall>p t. tab p = Some t \<longrightarrow> length p \<le> 3 \<and> page_aligned t \<and> kreg (tbl t)) \<and>
     (\<forall>p q t u. tab p = Some t \<longrightarrow> tab q = Some u \<longrightarrow> p \<noteq> q \<longrightarrow> disjr (tbl t) (tbl u)) \<and>
     (\<forall>p i. tab (p @ [i]) \<noteq> None \<longrightarrow> tab p \<noteq> None) \<and>
     (\<forall>p i t. tab p = Some t \<longrightarrow> length p < 3 \<longrightarrow> unat i < 512 \<longrightarrow> \<not> reserved p i \<longrightarrow>
        (case tab (p @ [i]) of None \<Rightarrow> entry m t i AND PDE64_PRESENT = 0
         | Some u \<Rightarrow> entry m t i = user_entry u)) \<and>
     (\<forall>t. tab [] = Some t \<longrightarrow> entry m t 1 AND PDE64_USER = 0)"

text \<open>A region that allocator calls keep: inside an allocated block or outside the arena.\<close>

definition held :: "'z kheap_scheme \<Rightarrow> region set \<Rightarrow> region \<Rightarrow> bool" where
  "held s A r \<longleftrightarrow> kreg r \<and> ((\<exists>c\<in>A. subr r (block c)) \<or> disjr (arena s) r)"

definition pt_inv :: "'z kpaging_scheme \<Rightarrow> region set \<Rightarrow> tables \<Rightarrow> bool" where
  "pt_inv s A tab \<longleftrightarrow>
     tab [] = Some (cr3 s) \<and> pt_ok (kmem s) tab \<and> (\<forall>p t. tab p = Some t \<longrightarrow> held s A (tbl t))"

definition upath :: "u64 \<Rightarrow> u64 list" where
  "upath v = [PML4OFF v, PDPOFF v, PDOFF v]"

text \<open>The page-table entry that decides about the address \<open>v\<close>.\<close>

definition leaf :: "memory \<Rightarrow> tables \<Rightarrow> u64 \<Rightarrow> u64" where
  "leaf m tab v = (case tab (upath v) of None \<Rightarrow> 0 | Some t \<Rightarrow> entry m t (PTOFF v))"

definition leaf_translate :: "u64 \<Rightarrow> u64 \<Rightarrow> bool \<Rightarrow> bool \<Rightarrow> u64" where
  "leaf_translate e v usermode writable =
     (if e AND PDE64_PRESENT = 0 \<or> usermode \<and> e AND PDE64_USER = 0 \<or> writable \<and> e AND PDE64_RW = 0
      then -1 else (next_table e XOR KERNEL_BASE_OFFSET) + (v AND 0xfff))"

lemma pt_okD:
  assumes "pt_ok m tab" "tab p = Some t"
  shows "length p \<le> 3" "page_aligned t" "kreg (tbl t)"
    "tab q = Some u \<Longrightarrow> p \<noteq> q \<Longrightarrow> disjr (tbl t) (tbl u)"
    "length p < 3 \<Longrightarrow> unat i < 512 \<Longrightarrow> \<not> reserved p i \<Longrightarrow> tab (p @ [i]) = None \<Longrightarrow>
       entry m t i AND PDE64_PRESENT = 0"
    "length p < 3 \<Longrightarrow> unat i < 512 \<Longrightarrow> \<not> reserved p i \<Longrightarrow> tab (p @ [i]) = Some u \<Longrightarrow>
       entry m t i = user_entry u"
  using assms unfolding pt_ok_def by (blast, blast, blast, blast, fastforce, fastforce)

lemma pt_ok_window: "pt_ok m tab \<Longrightarrow> tab [] = Some t \<Longrightarrow> entry m t 1 AND PDE64_USER = 0"
  unfolding pt_ok_def by blast

lemma pt_ok_prefix: "pt_ok m tab \<Longrightarrow> tab p = None \<Longrightarrow> tab (p @ [i]) = None"
  unfolding pt_ok_def by blast

lemma pt_step:
  assumes ok: "pt_ok m tab" and t: "tab p = Some t" and i: "length p < 3" "unat i < 512" "\<not> reserved p i"
  shows "paging_check m um w ((t OR KERNEL_BASE_OFFSET) + 8 * i)
           = map_option (\<lambda>u. u OR KERNEL_BASE_OFFSET) (tab (p @ [i]))"
    "paging_present m ((t OR KERNEL_BASE_OFFSET) + 8 * i)
           = map_option (\<lambda>u. u OR KERNEL_BASE_OFFSET) (tab (p @ [i]))"
proof -
  have *: "(case tab (p @ [i]) of None \<Rightarrow> entry m t i AND PDE64_PRESENT = 0
      | Some u \<Rightarrow> entry m t i = user_entry u \<and> page_aligned u)"
    using pt_okD [OF ok t] pt_okD(2) [OF ok] i by (auto split: option.split)
  then show "paging_check m um w ((t OR KERNEL_BASE_OFFSET) + 8 * i)
      = map_option (\<lambda>u. u OR KERNEL_BASE_OFFSET) (tab (p @ [i]))"
    "paging_present m ((t OR KERNEL_BASE_OFFSET) + 8 * i)
      = map_option (\<lambda>u. u OR KERNEL_BASE_OFFSET) (tab (p @ [i]))"
    by (auto simp: paging_check_def paging_present_def user_entry_bits
        simp flip: entry_def split: option.splits)
qed

lemma index_bounds [simp]:
  "unat (PML4OFF v) < 512" "unat (PDPOFF v) < 512" "unat (PDOFF v) < 512" "unat (PTOFF v) < 512"
  by (simp_all add: offset_defs pte_index_less)

lemma not_reserved:
  assumes "USER_MEM_RANGE_OK v"
  shows "\<not> reserved [] (PML4OFF v)" "\<not> reserved [PML4OFF v] (PDPOFF v)"
    "\<not> reserved [PML4OFF v, PDPOFF v] (PDOFF v)"
  using user_range_index [OF assms] by (auto simp: reserved_def)

text \<open>The walk of \<open>translate\<close> on a user address only depends on the leaf.\<close>

lemma translate_leaf:
  assumes inv: "pt_inv s A tab" and v: "USER_MEM_RANGE_OK v"
  shows "translate s v um w = leaf_translate (leaf (kmem s) tab v) v um w"
proof -
  have ok: "pt_ok (kmem s) tab" and root: "tab [] = Some (cr3 s)" using inv by (auto simp: pt_inv_def)
  note nr = not_reserved [OF v]
  note walk = pt_step(1) [OF ok]
  have ps: "entry (kmem s) t (PDOFF v) AND PDE64_PS = 0"
    if "tab [PML4OFF v, PDPOFF v] = Some t" "tab (upath v) = Some u" for t u
    using pt_okD(6) [OF ok that(1), of "PDOFF v" u] that pt_okD(2) [OF ok that(2)] nr(3) user_entry_bits(4)
    by (simp add: upath_def)
  show ?thesis
  proof (cases "tab [PML4OFF v]")
    case None
    then have "tab [PML4OFF v, PDPOFF v] = None" "tab (upath v) = None"
      using pt_ok_prefix [OF ok, of "[PML4OFF v]"] pt_ok_prefix [OF ok, of "[PML4OFF v, PDPOFF v]"]
      by (simp_all add: upath_def)
    then show ?thesis using walk [OF root, of "PML4OFF v"] nr None
      by (simp add: translate_def get_pml4_addr_def leaf_def leaf_translate_def)
  next
    case (Some t1)
    note 1 = this
    show ?thesis
    proof (cases "tab [PML4OFF v, PDPOFF v]")
      case None
      then have "tab (upath v) = None"
        using pt_ok_prefix [OF ok, of "[PML4OFF v, PDPOFF v]"] by (simp add: upath_def)
      then show ?thesis
        using walk [OF root, of "PML4OFF v"] walk [OF 1, of "PDPOFF v"] nr None 1
        by (simp add: translate_def get_pml4_addr_def leaf_def leaf_translate_def)
    next
      case (Some t2)
      then show ?thesis
        using walk [OF root, of "PML4OFF v"] walk [OF 1, of "PDPOFF v"] walk [OF Some, of "PDOFF v"] nr 1
          ps [OF Some]
        by (cases "tab (upath v)")
          (auto simp: translate_def get_pml4_addr_def leaf_def leaf_translate_def upath_def
            paging_check_def Let_def simp flip: entry_def)
    qed
  qed
qed

section \<open>Allocator calls leave the registers alone\<close>

named_theorems heap_more

lemma set_next_more [heap_more]: "kheap.more (set_next s r v) = kheap.more s"
  by (cases r) (simp_all add: set_next_def)

lemma insert_sorted_more [heap_more]: "insert_sorted s c = Inr s' \<Longrightarrow> kheap.more s' = kheap.more s"
  by (auto simp: insert_sorted_def heap_more split: option.splits)

lemma malloc_top_more [heap_more]: "malloc_top s nb = (p, s') \<Longrightarrow> kheap.more s' = kheap.more s"
  by (auto simp: malloc_top_def Let_def split: if_splits)

lemma kfree_more [heap_more]: "kfree s p = Inr s' \<Longrightarrow> kheap.more s' = kheap.more s"
  by (auto simp: kfree_def Let_def dest: insert_sorted_more split: if_splits)

lemma fetch_sorted_bin_more [heap_more]:
  "fetch_sorted_bin s nb = Inr (p, s') \<Longrightarrow> kheap.more s' = kheap.more s"
  by (auto simp: fetch_sorted_bin_def Let_def bindE_eq_Inr set_next_more
      dest!: insert_sorted_more split: option.splits sum.splits prod.splits if_splits)

lemma int_kmalloc_more [heap_more]:
  "int_kmalloc s nb al = Inr (p, s') \<Longrightarrow> kheap.more s' = kheap.more s"
  by (auto simp: int_kmalloc_def Let_def bindE_eq_Inr
      dest!: fetch_sorted_bin_more malloc_top_more kfree_more split: prod.splits if_splits)

lemma kmalloc_more [heap_more]: "kmalloc s len al = Inr (p, s') \<Longrightarrow> kheap.more s' = kheap.more s"
  by (auto simp: kmalloc_def Let_def bindE_eq_Inr dest!: int_kmalloc_more split: if_splits)

lemma cr3_more: "kheap.more s' = kheap.more s \<Longrightarrow> cr3 s' = cr3 s"
  by (cases s, cases s') simp

section \<open>Regions that allocator calls keep\<close>

lemma same_on_subr:
  assumes "same_on m m' c" "kreg c" "kreg r" "subr r c" shows "same_on m m' r"
proof -
  let ?i = "unat (fst r) - unat (fst c)"
  have i: "?i + snd r \<le> snd c" "unat (fst c) \<le> unat (fst r)" using assms(4) by (auto simp: subr_def)
  have "fst c + of_nat ?i = fst r" using i(2) by (simp add: of_nat_diff)
  then show ?thesis using same_on_sub [OF assms(1,2) i(1)] by simp
qed

lemma held_same_on:
  assumes "heap_inv s A F" "kept s s' A" "held s A r" shows "same_on (kmem s) (kmem s') r"
proof -
  have r: "kreg r" using assms(3) by (simp add: held_def)
  consider c where "c \<in> A" "subr r (block c)" | "disjr (arena s) r" using assms(3) by (auto simp: held_def)
  then show ?thesis
  proof cases
    case (1 c)
    have "same_on (kmem s) (kmem s') c" using assms(2) 1(1) by (simp add: kept_def)
    moreover have "subr r c" using 1(2) block_facts(3) [OF assms(1) 1(1)] by (auto simp: subr_def)
    ultimately show ?thesis by (rule same_on_subr [OF _ block_facts(1) [OF assms(1) 1(1)] r])
  next
    case 2
    then show ?thesis using assms(2) r by (intro changed_withinD [of _ _ "{arena s}"]) (auto simp: kept_def)
  qed
qed

lemma held_mono:
  "held s A r \<Longrightarrow> A \<subseteq> A' \<Longrightarrow> arena s' = arena s \<Longrightarrow> held s' A' r"
  unfolding held_def by (metis subsetD)

lemma served_disjr:
  assumes "served s s' A c F'" "heap_inv s A F" "held s A r" shows "disjr (block c) r"
proof -
  have inv: "heap_inv s' (insert c A) F'" "c \<notin> A" "kept s s' A" using assms(1) by (auto simp: served_def)
  have bc: "subr (block c) c" using block_facts(3) [OF inv(1)] by simp
  consider d where "d \<in> A" "subr r (block d)" | "disjr (arena s) r" using assms(3) by (auto simp: held_def)
  then show ?thesis
  proof cases
    case (1 d)
    have "disjr c d" using 1(1) inv(2) by (intro heap_inv_disjr [OF inv(1)]) auto
    then show ?thesis using bc 1(2) block_facts(3) [OF assms(2) 1(1)] by (auto simp: disjr_def subr_def)
  next
    case 2
    moreover have "subr c (arena s')" by (rule chunk_subr_arena [OF inv(1)]) simp
    ultimately show ?thesis using bc arena_kept [OF inv(3)] by (auto simp: disjr_def subr_def)
  qed
qed

text \<open>A block that was just cleared is a table without entries.\<close>

lemma entry_cleared:
  assumes "load_bytes m (dm (t OR KERNEL_BASE_OFFSET)) 0x1000 = replicate 0x1000 0"
    "kreg (tbl t)" "unat i < 512"
  shows "entry m t i = 0"
proof -
  have "load_bytes (\<lambda>_. 0) a n = replicate n 0" for a n
    by (rule nth_equalityI) (simp_all add: nth_load_bytes)
  then have "same_on (\<lambda>_. 0) m (tbl t)" using assms(1) by (simp add: same_on_def tbl_def)
  from entry_same_on [OF this assms(2,3)]
  show ?thesis by (simp add: entry_def kload64_def load64_def \<open>\<And>a n. load_bytes (\<lambda>_. 0) a n = _\<close> le_word_replicate_0)
qed

lemma window_bits:
  assumes "kptr p" "unat p mod 0x1000 = 0"
  shows "p AND KERNEL_BASE_OFFSET \<noteq> 0" "(p XOR KERNEL_BASE_OFFSET) OR KERNEL_BASE_OFFSET = p"
    "page_aligned (p XOR KERNEL_BASE_OFFSET)"
proof -
  have b: "bit p 39" by (rule bit_39_if_kptr [OF assms(1)])
  have K: "KERNEL_BASE_OFFSET = 2 ^ 39" by (simp add: KERNEL_BASE_OFFSET_def)
  have bk: "bit KERNEL_BASE_OFFSET n \<longleftrightarrow> n = 39" for n
    unfolding K bit_exp_iff by (auto simp: possible_bit_word)
  have "bit (p AND KERNEL_BASE_OFFSET) 39" by (simp add: bit_and_iff bk b)
  then show "p AND KERNEL_BASE_OFFSET \<noteq> 0" by (metis bit_0_eq bot_apply bot_bool_def)
  show "(p XOR KERNEL_BASE_OFFSET) OR KERNEL_BASE_OFFSET = p"
    by (rule bit_eqI) (auto simp: bit_xor_iff bit_or_iff bk b)
  have "unat (p AND mask 12) = 0" using assms(2) and_mask_64 [of p 12] by simp
  then have "p AND mask 12 = 0" by (simp only: unat_eq_zero)
  moreover have "KERNEL_BASE_OFFSET AND mask 12 = 0"
    by (rule bit_eqI) (auto simp: bit_and_iff bk bit_mask_iff)
  ultimately have "(p XOR KERNEL_BASE_OFFSET) AND mask 12 = 0"
    by (simp add: bit.conj_xor_distrib2)
  then show "page_aligned (p XOR KERNEL_BASE_OFFSET)" by (simp add: mask_eq_exp_minus_1)
qed

section \<open>Growing the tree\<close>

lemma pt_ok_same_on:
  assumes ok: "pt_ok m tab" and same: "\<And>p t. tab p = Some t \<Longrightarrow> same_on m m' (tbl t)"
  shows "pt_ok m' tab" "leaf m' tab v = leaf m tab v"
proof -
  have e: "entry m' t i = entry m t i" if "tab p = Some t" "unat i < 512" for p t i
    using that by (intro entry_same_on same pt_okD(3) [OF ok])
  have "(case tab (p @ [i]) of None \<Rightarrow> entry m' t i AND PDE64_PRESENT = 0
         | Some u \<Rightarrow> entry m' t i = user_entry u)"
    if "tab p = Some t" "length p < 3" "unat i < 512" "\<not> reserved p i" for p i t
    using pt_okD(5,6) [OF ok that(1)] e [OF that(1,3)] that(2-4) by (auto split: option.split)
  moreover have "entry m' t 1 AND PDE64_USER = 0" if "tab [] = Some t" for t
    using pt_ok_window [OF ok that] e [OF that, of 1] by simp
  ultimately show "pt_ok m' tab" using ok unfolding pt_ok_def by blast
  show "leaf m' tab v = leaf m tab v" by (auto simp: leaf_def e split: option.split)
qed

lemma pt_ok_install:
  assumes ok: "pt_ok m tab" and t: "tab p = Some t" and i: "length p < 3" "unat i < 512" "\<not> reserved p i"
    and new: "tab (p @ [i]) = None" and u: "page_aligned u" "kreg (tbl u)"
    and disj: "\<And>q w. tab q = Some w \<Longrightarrow> disjr (tbl u) (tbl w)"
    and zero: "\<And>j. unat j < 512 \<Longrightarrow> entry m u j = 0"
  defines "m' \<equiv> set_entry m t i (user_entry u)" and "tab' \<equiv> tab(p @ [i] \<mapsto> u)"
  shows "pt_ok m' tab'" "leaf m' tab' v = leaf m tab v"
proof -
  note kt = pt_okD(3) [OF ok t]
  have ch: "changed_within m m' {tbl t}" unfolding m'_def by (rule set_entry_within [OF kt i(2)])
  have eu: "entry m' u j = 0" if "unat j < 512" for j
    using that zero disj [OF t] u(2)
    by (subst entry_same_on [of m]) (auto intro!: changed_withinD [OF ch] simp: disjr_sym)
  have ew: "entry m' w j = entry m w j" if "tab q = Some w" "q \<noteq> p" "unat j < 512" for q w j
    using pt_okD(3,4) [OF ok that(1)] t that(2,3)
    by (intro entry_same_on changed_withinD [OF ch]) (auto simp: disjr_sym)
  have et: "entry m' t j = (if i = j then user_entry u else entry m t j)" if "unat j < 512" for j
    unfolding m'_def by (rule entry_set_entry [OF kt i(2) that])
  have "(case tab' (q @ [j]) of None \<Rightarrow> entry m' w j AND PDE64_PRESENT = 0
         | Some u \<Rightarrow> entry m' w j = user_entry u)"
    if q: "tab' q = Some w" "length q < 3" "unat j < 512" "\<not> reserved q j" for q j w
  proof -
    consider "q = p @ [i]" "w = u" | "q = p" "q \<noteq> p @ [i]" "w = t" | "q \<noteq> p" "q \<noteq> p @ [i]" "tab q = Some w"
      using q(1) t by (cases "q = p") (auto simp: tab'_def split: if_splits)
    then show ?thesis
    proof cases
      case 1
      then show ?thesis using eu [OF q(3)] pt_ok_prefix [OF ok new] by (simp add: tab'_def)
    next
      case 2
      then show ?thesis using et [OF q(3)] pt_okD(5,6) [OF ok t i(1) q(3)] q(4)
        by (auto simp: tab'_def split: option.split)
    next
      case 3
      then show ?thesis using ew [OF 3(3,1) q(3)] pt_okD(5,6) [OF ok 3(3) q(2,3,4)]
        by (auto simp: tab'_def split: option.split)
    qed
  qed
  moreover have "tab' q \<noteq> None" if "tab' (q @ [j]) \<noteq> None" for q j
    using that pt_ok_prefix [OF ok, of q j] t by (cases "tab q") (auto simp: tab'_def split: if_splits)
  moreover have "length q \<le> 3 \<and> page_aligned w \<and> kreg (tbl w)" if "tab' q = Some w" for q w
    using that pt_okD(1-3) [OF ok, of q w] u i(1) by (auto simp: tab'_def split: if_splits)
  moreover have "disjr (tbl w) (tbl w')" if "tab' q = Some w" "tab' q' = Some w'" "q \<noteq> q'" for q q' w w'
    using that pt_okD(4) [OF ok, of q w q' w'] disj [of q w] disj [of q' w'] disjr_sym [of "tbl w" "tbl u"]
    by (auto simp: tab'_def split: if_splits)
  moreover have "entry m' w 1 AND PDE64_USER = 0" if "tab' [] = Some w" for w
    using that pt_ok_window [OF ok, of w] et [of 1] ew [of "[]" w 1] t i(3)
    by (cases "p = []") (auto simp: tab'_def reserved_def)
  ultimately show "pt_ok m' tab'" unfolding pt_ok_def by blast
  have "entry m' w j = entry m w j" if "tab (upath v) = Some w" "unat j < 512" for w j
    using that i(1) by (intro ew [of "upath v"]) (auto simp: upath_def)
  then show "leaf m' tab' v = leaf m tab v"
    using new eu by (auto simp: leaf_def tab'_def split: option.split)
qed

text \<open>
  What walking down for an insertion may do: allocate tables.  The translation of every user address
  stays, and so do the bytes of every region the caller holds that is not a table.
\<close>

definition grown ::
    "'z kpaging_scheme \<Rightarrow> 'z kpaging_scheme \<Rightarrow> region set \<Rightarrow> region set \<Rightarrow> tables \<Rightarrow> tables \<Rightarrow> bool" where
  "grown s s' A A' tab tab' \<longleftrightarrow>
     A \<subseteq> A' \<and> tab \<subseteq>\<^sub>m tab' \<and> cr3 s' = cr3 s \<and> arena s' = arena s \<and>
     (\<forall>v. leaf (kmem s') tab' v = leaf (kmem s) tab v) \<and>
     (\<forall>r. held s A r \<longrightarrow> (\<forall>t\<in>ran tab. disjr (tbl t) r) \<longrightarrow>
        same_on (kmem s) (kmem s') r \<and> (\<forall>t\<in>ran tab'. disjr (tbl t) r))"

lemma grown_refl [simp]: "grown s s A A tab tab"
  by (simp add: grown_def)

lemma grown_trans:
  assumes "grown s s1 A A1 tab tab1" "grown s1 s2 A1 A2 tab1 tab2"
  shows "grown s s2 A A2 tab tab2"
proof -
  have "same_on (kmem s) (kmem s2) r \<and> (\<forall>t\<in>ran tab2. disjr (tbl t) r)"
    if r: "held s A r" "\<forall>t\<in>ran tab. disjr (tbl t) r" for r
  proof -
    have 1: "same_on (kmem s) (kmem s1) r" "\<forall>t\<in>ran tab1. disjr (tbl t) r" "held s1 A1 r"
      using assms(1) r held_mono [OF r(1)] unfolding grown_def by blast+
    then have "same_on (kmem s1) (kmem s2) r" "\<forall>t\<in>ran tab2. disjr (tbl t) r"
      using assms(2) unfolding grown_def by blast+
    then show ?thesis using 1(1) same_on_trans by blast
  qed
  then show ?thesis using assms map_le_trans [of tab tab1 tab2] unfolding grown_def by auto
qed

lemma arena_mem [simp]: "arena (s\<lparr>kmem := m\<rparr>) = arena s"
  by (simp add: arena_def arena_end_def)

lemma heap_inv_held_write:
  assumes inv: "heap_inv s A F" and r: "held s A r" and ch: "changed_within (kmem s) m {r}"
  shows "heap_inv (s\<lparr>kmem := m\<rparr>) A F"
proof -
  consider c where "c \<in> A" "subr r (block c)" | "disjr (arena s) r" using r by (auto simp: held_def)
  then show ?thesis
  proof cases
    case (1 c)
    then have "changed_within (kmem s) m {block c}" by (intro changed_within_subr [OF ch]) simp
    then show ?thesis by (rule heap_inv_write(1) [OF inv 1(1)])
  next
    case 2
    have "same_on (kmem s) m c" if "c \<in> A \<union> set F" for c
      using that 2 chunk_subr_arena [OF inv that] heap_inv_big [OF inv that]
      by (intro changed_withinD [OF ch]) (auto simp: big_region_def disjr_def subr_def)
    then show ?thesis by (rule heap_inv_mem [OF inv])
  qed
qed

text \<open>How much of the arena a page-aligned request can use up.\<close>

lemma unat_add_le: "unat (a + b) \<le> unat a + unat (b :: u64)"
  by (simp add: unat_word_ariths)

lemma insert_sorted_top: "insert_sorted s c = Inr s' \<Longrightarrow> arena_top s' = arena_top s"
  by (auto simp: insert_sorted_def set_next_def split: option.splits chunk_ref.splits)

lemma kfree_top: "kfree s p = Inr s' \<Longrightarrow> arena_top s' = arena_top s \<or> p \<noteq> 0 \<and> arena_top s' = mem2chunk p"
  by (auto simp: kfree_def Let_def dest: insert_sorted_top split: if_splits)

lemma malloc_top_top:
  "malloc_top s nb = (p, s') \<Longrightarrow> arena_top s' = arena_top s \<and> p = 0 \<or>
     arena_top s' = arena_top s + nb \<and> p = chunk2mem (arena_top s)"
  by (auto simp: malloc_top_def Let_def split: if_splits)

lemma int_kmalloc_page_top:
  assumes "int_kmalloc s nb MALLOC_PAGE_ALIGN = Inr (p, s')"
  shows "unat (arena_top s') \<le> unat (arena_top s) + page_gap s + unat nb"
proof -
  let ?k = "page_gap s"
  have k: "unat (of_nat ?k :: u64) \<le> ?k" by (simp add: unat_of_nat)
  obtain gap s1 where g: "(if ?k = 0 then (0, s) else malloc_top s (of_nat ?k)) = (gap, s1)" by fastforce
  have s1: "arena_top s1 = arena_top s \<or> arena_top s1 = arena_top s + of_nat ?k"
    "gap \<noteq> 0 \<longrightarrow> mem2chunk gap = arena_top s"
    using g malloc_top_top [of s "of_nat ?k" gap s1] by (auto split: if_splits)
  then have u1: "unat (arena_top s1) \<le> unat (arena_top s) + ?k"
    using unat_add_le [of "arena_top s" "of_nat ?k"] k by auto
  consider "s' = s1" | s2 where "malloc_top s1 nb = (p, s2)" "kfree s2 gap = Inr s'"
    using assms g by (auto simp: int_kmalloc_page_eq Let_def bindE_eq_Inr split: if_splits prod.splits)
  then show ?thesis
  proof cases
    case (2 s2)
    have "unat (arena_top s2) \<le> unat (arena_top s1) + unat nb"
      using malloc_top_top [OF 2(1)] unat_add_le [of "arena_top s1" nb] by auto
    moreover have "arena_top s' = arena_top s2 \<or> arena_top s' = arena_top s"
      using kfree_top [OF 2(2)] s1(2) by auto
    ultimately show ?thesis using u1 by auto
  qed (use u1 in auto)
qed

lemma kmalloc_page_room:
  assumes inv: "heap_inv s A F" and k: "kmalloc s 0x1000 MALLOC_PAGE_ALIGN = Inr (p, s')"
    and ends: "arena_end s' = arena_end s"
  shows "unat (arena_top_size s) \<le> unat (arena_top_size s') + 0x2080"
proof -
  obtain s1 where i: "int_kmalloc s 0x1080 MALLOC_PAGE_ALIGN = Inr (p, s1)" "arena_top s' = arena_top s1"
    using k by (auto simp: kmalloc_def alignup_def bindE_eq_Inr split: if_splits)
  have "page_gap s < 0x1000"
    using heap_inv_arena [OF inv] by (intro page_gap_mod(4)) (auto simp: arena_ok_def)
  then have "unat (arena_top s') \<le> unat (arena_top s) + 0x2080"
    using int_kmalloc_page_top [OF i(1)] i(2) by simp
  then show ?thesis using ends by (simp add: arena_end_def)
qed

lemma rounded_page: "rounded 0x1000 = 0x1080"
  by (simp add: rounded_def)

text \<open>A fresh table, as \<open>kmalloc\<close> delivers it.\<close>

lemma kmalloc_table:
  assumes inv: "heap_inv s A F" and ok: "kmalloc s 0x1000 MALLOC_PAGE_ALIGN = Inr (p, s1)" "p \<noteq> 0"
  obtains c F1 u where "served s s1 A c F1" "physical p = Inr u" "p = u OR KERNEL_BASE_OFFSET"
    "page_aligned u" "kreg (tbl u)" "subr (tbl u) (block c)"
    "\<forall>j. unat j < 512 \<longrightarrow> entry (kmem s1) u j = 0"
proof (cases rule: kmalloc_cases [OF inv _ disjI2 [OF refl], of "0x1000"])
  case (5 s' c F')
  let ?u = "p XOR KERNEL_BASE_OFFSET"
  have p: "p = chunk2mem (fst c)" "s1 = s'" "snd c = 0x1080" "unat p mod 0x1000 = 0"
    using 5(1,4,7) ok rounded_page by auto
  have c: "c \<in> insert c A" "heap_inv s' (insert c A) F'" using 5(3) by (simp_all add: served_def)
  note b = block_facts [OF c(2,1)]
  have bc: "block c = (p, 0x1070)" using p by (simp add: block_def)
  have "kptr p" using b(4) bc by (auto simp: kptr_def kreg_def)
  note w = window_bits [OF this p(4)]
  have t: "tbl ?u = (p, 0x1000)" by (simp add: tbl_def w)
  have k: "kreg (tbl ?u)" using b(4) by (simp add: t bc kreg_def)
  have "entry (kmem s1) ?u j = 0" if "unat j < 512" for j
    using 5(6) p(1,2) w(2) by (intro entry_cleared k that) simp
  then show ?thesis
    using that [of c F' ?u] 5(3) p(2) w k by (simp add: physical_def t bc subr_def)
qed (use ok in simp_all)

lemma install_table:
  assumes inv: "heap_inv s A F" and pt: "pt_inv s A tab" and t: "tab p = Some t"
    and i: "length p < 3" "unat i < 512" "\<not> reserved p i" and new: "tab (p @ [i]) = None"
    and c: "served s s1 A c F1" and u: "page_aligned u" "kreg (tbl u)" "subr (tbl u) (block c)"
    and zero: "\<forall>j. unat j < 512 \<longrightarrow> entry (kmem s1) u j = 0" and more: "cr3 s1 = cr3 s"
  defines "s' \<equiv> s1\<lparr>kmem := set_entry (kmem s1) t i (user_entry u)\<rparr>" and "tab' \<equiv> tab(p @ [i] \<mapsto> u)"
  shows "heap_inv s' (insert c A) F1" "pt_inv s' (insert c A) tab'" "grown s s' A (insert c A) tab tab'"
proof -
  have ok: "pt_ok (kmem s) tab" and root: "tab [] = Some (cr3 s)"
    and held: "\<And>q w. tab q = Some w \<Longrightarrow> held s A (tbl w)" using pt by (auto simp: pt_inv_def)
  have inv1: "heap_inv s1 (insert c A) F1" "kept s s1 A" using c by (auto simp: served_def)
  have same1: "same_on (kmem s) (kmem s1) r" if "held s A r" for r
    by (rule held_same_on [OF inv inv1(2) that])
  have dis: "disjr (tbl u) r" if "held s A r" for r
    using served_disjr [OF c inv that] u(3) by (rule disjr_subr)
  have ar: "arena s1 = arena s" "arena s' = arena s"
    using arena_kept [OF inv1(2)] by (simp_all add: s'_def)
  have held1: "held s1 (insert c A) r" "held s' (insert c A) r" if "held s A r" for r
    by (rule held_mono [OF that subset_insertI ar(1)], rule held_mono [OF that subset_insertI ar(2)])
  have ch: "changed_within (kmem s1) (kmem s') {tbl t}"
    unfolding s'_def using set_entry_within [OF pt_okD(3) [OF ok t] i(2)] by simp
  have "changed_within (kmem s1) (set_entry (kmem s1) t i (user_entry u)) {tbl t}"
    using ch by (simp add: s'_def)
  then show "heap_inv s' (insert c A) F1"
    unfolding s'_def by (rule heap_inv_held_write [OF inv1(1) held1(1) [OF held [OF t]]])
  note ok1 = pt_ok_same_on [OF ok same1 [OF held]]
  have "pt_ok (kmem s') tab' \<and> (\<forall>v. leaf (kmem s') tab' v = leaf (kmem s1) tab v)"
    using pt_ok_install [OF ok1(1) t i new u(1,2) dis [OF held]] zero by (simp add: s'_def tab'_def)
  then have ok2: "pt_ok (kmem s') tab'" "leaf (kmem s') tab' v = leaf (kmem s) tab v" for v
    using ok1(2) by auto
  have "held s' (insert c A) (tbl w)" if "tab' q = Some w" for q w
  proof (cases "q = p @ [i]")
    case True
    then show ?thesis using that u(2,3) by (auto simp: held_def tab'_def)
  next
    case False
    then show ?thesis using that held1(2) held [of q w] by (simp add: tab'_def)
  qed
  then show "pt_inv s' (insert c A) tab'" using ok2(1) root more by (simp add: pt_inv_def s'_def tab'_def)
  have "same_on (kmem s) (kmem s') r \<and> (\<forall>w\<in>ran tab'. disjr (tbl w) r)"
    if r: "held s A r" "\<forall>w\<in>ran tab. disjr (tbl w) r" for r
  proof -
    have "disjr (tbl t) r" "kreg r" using r t by (auto simp: ran_def held_def)
    then have "same_on (kmem s1) (kmem s') r" by (intro changed_withinD [OF ch]) simp_all
    moreover have "ran tab' = insert u (ran tab)" using new by (simp add: tab'_def ran_map_upd)
    ultimately show ?thesis using same1 [OF r(1)] dis [OF r(1)] r(2) same_on_trans by auto
  qed
  moreover have "tab \<subseteq>\<^sub>m tab'" using new by (auto simp: tab'_def map_le_def)
  moreover have "cr3 s' = cr3 s" using more by (simp add: s'_def)
  ultimately show "grown s s' A (insert c A) tab tab'" using ok2(2) ar unfolding grown_def by blast
qed

lemma paging_user_step:
  assumes inv: "heap_inv s A F" and pt: "pt_inv s A tab" and t: "tab p = Some t"
    and i: "length p < 3" "unat i < 512" "\<not> reserved p i"
  obtains (starved) "paging_user s ((t OR KERNEL_BASE_OFFSET) + 8 * i) = Inl null_write"
      "unat (arena_top_size s) < 0x2080"
  | (step) u s' A' F' tab' where
      "paging_user s ((t OR KERNEL_BASE_OFFSET) + 8 * i) = Inr (u OR KERNEL_BASE_OFFSET, s')"
      "heap_inv s' A' F'" "pt_inv s' A' tab'" "grown s s' A A' tab tab'" "tab' (p @ [i]) = Some u"
      "unat (arena_top_size s) \<le> unat (arena_top_size s') + 0x2080"
proof (cases "tab (p @ [i])")
  have ok: "pt_ok (kmem s) tab" using pt by (simp add: pt_inv_def)
  case (Some u)
  have "entry (kmem s) t i = user_entry u" "page_aligned u"
    using pt_okD(6) [OF ok t i Some] pt_okD(2) [OF ok Some] .
  then show ?thesis
    using step [of u s A F tab] inv pt Some
    by (simp add: paging_user_def user_entry_bits flip: entry_def)
next
  have ok: "pt_ok (kmem s) tab" using pt by (simp add: pt_inv_def)
  case None
  then have np: "entry (kmem s) t i AND PDE64_PRESENT = 0" using pt_okD(5) [OF ok t i] by simp
  have len: "unat (0x1000 :: u64) < 2 ^ 32" by simp
  show ?thesis
  proof (cases rule: kmalloc_cases [OF inv len disjI2 [OF refl]])
    case 1
    have "page_gap s < 0x1000"
      using heap_inv_arena [OF inv] by (intro page_gap_mod(4)) (auto simp: arena_ok_def)
    then show ?thesis
      using starved 1(1,3) np by (auto simp: paging_user_def no_room_def rounded_page simp flip: entry_def)
  next
    case (4 s1 d G)
    define q where "q = chunk2mem (fst d)"
    have q: "kmalloc s 0x1000 MALLOC_PAGE_ALIGN = Inr (q, s1)" using 4(1) by (simp add: q_def)
    have "big_region d" using 4(3) heap_inv_big [of s1 "insert d A" G d] by (simp add: served_def)
    then have nz: "q \<noteq> 0" using chunk2mem_nz [of d] by (simp add: q_def big_region_def)
    obtain c F1 u where c: "served s s1 A c F1" "physical q = Inr u" "q = u OR KERNEL_BASE_OFFSET"
      "page_aligned u" "kreg (tbl u)" "subr (tbl u) (block c)"
      "\<forall>j. unat j < 512 \<longrightarrow> entry (kmem s1) u j = 0"
      by (rule kmalloc_table [OF inv q nz])
    have more: "cr3 s1 = cr3 s" by (rule cr3_more [OF kmalloc_more [OF q]])
    note ins = install_table [OF inv pt t i None c(1,4-7) more]
    have "paging_user s ((t OR KERNEL_BASE_OFFSET) + 8 * i)
        = Inr (u OR KERNEL_BASE_OFFSET, s1\<lparr>kmem := set_entry (kmem s1) t i (user_entry u)\<rparr>)"
      using np q c(2,3) by (simp add: paging_user_def set_entry_def user_entry_def flip: entry_def)
    from this ins show ?thesis
    proof (rule step)
      show "unat (arena_top_size s)
          \<le> unat (arena_top_size (s1\<lparr>kmem := set_entry (kmem s1) t i (user_entry u)\<rparr>)) + 0x2080"
        using c(1) kmalloc_page_room [OF inv q] by (simp add: served_def kept_def)
    qed simp
  qed simp_all
qed

section \<open>Setting a leaf\<close>

lemma kstore64_kstore64: "kstore64 (kstore64 m p a) p b = kstore64 m p b"
  by (rule ext) (simp add: kstore64_def store64_def store_bytes_apply)

definition prot_entry :: "u64 \<Rightarrow> u32 \<Rightarrow> u64" where
  "prot_entry e prot =
     (let e1 = (if prot AND PROT_R \<noteq> 0 then e OR PDE64_USER else e)
      in if prot AND PROT_W \<noteq> 0 then e1 OR PDE64_RW else e1)"

lemma set_prot_entry:
  "set_prot (kstore64 m p e) p prot = kstore64 m p (prot_entry e prot)"
  by (simp add: set_prot_def or_entry_def prot_entry_def Let_def kstore64_kstore64)

lemma set_leaf:
  fixes s :: "'z kpaging_scheme" and e :: u64
  assumes inv: "heap_inv s A F" and pt: "pt_inv s A tab" and t: "tab (upath v) = Some t"
  defines "s' \<equiv> s\<lparr>kmem := set_entry (kmem s) t (PTOFF v) e\<rparr>"
  shows "heap_inv s' A F" "pt_inv s' A tab"
    "leaf (kmem s') tab w = (if upath w = upath v \<and> PTOFF w = PTOFF v then e else leaf (kmem s) tab w)"
    "held s A r \<Longrightarrow> \<forall>t\<in>ran tab. disjr (tbl t) r \<Longrightarrow> same_on (kmem s) (kmem s') r"
proof -
  have ok: "pt_ok (kmem s) tab" and held: "\<And>q w. tab q = Some w \<Longrightarrow> held s A (tbl w)"
    using pt by (auto simp: pt_inv_def)
  note kt = pt_okD(3) [OF ok t]
  let ?m = "set_entry (kmem s) t (PTOFF v) e"
  have ch: "changed_within (kmem s) ?m {tbl t}" by (rule set_entry_within [OF kt]) simp
  show "heap_inv s' A F" unfolding s'_def by (rule heap_inv_held_write [OF inv held [OF t] ch])
  have other: "entry ?m u i = entry (kmem s) u i" if "tab q = Some u" "q \<noteq> upath v" "unat i < 512" for q u i
    using pt_okD(3,4) [OF ok that(1)] t that(2,3)
    by (intro entry_same_on changed_withinD [OF ch]) (auto simp: disjr_sym)
  have "(case tab (q @ [i]) of None \<Rightarrow> entry ?m u i AND PDE64_PRESENT = 0
         | Some x \<Rightarrow> entry ?m u i = user_entry x)"
    if q: "tab q = Some u" "length q < 3" "unat i < 512" "\<not> reserved q i" for q u i
  proof -
    have "q \<noteq> upath v" using q(2) by (auto simp: upath_def)
    then show ?thesis using other [OF q(1) _ q(3)] pt_okD(5,6) [OF ok q] by (auto split: option.split)
  qed
  moreover have "entry ?m u 1 AND PDE64_USER = 0" if "tab [] = Some u" for u
    using other [OF that, of 1] pt_ok_window [OF ok that] by (simp add: upath_def)
  ultimately have "pt_ok ?m tab" using ok unfolding pt_ok_def by blast
  then show "pt_inv s' A tab" using pt by (simp add: pt_inv_def s'_def held_def)
  show "leaf (kmem s') tab w = (if upath w = upath v \<and> PTOFF w = PTOFF v then e else leaf (kmem s) tab w)"
  proof (cases "upath w = upath v")
    case True
    then show ?thesis
      using t entry_set_entry [OF kt, of "PTOFF v" "PTOFF w" "kmem s" e] by (simp add: leaf_def s'_def)
  next
    case False
    then show ?thesis by (auto simp: leaf_def s'_def other [OF _ False] split: option.split)
  qed
  show "same_on (kmem s) (kmem s') r" if "held s A r" "\<forall>t\<in>ran tab. disjr (tbl t) r"
  proof -
    have "disjr (tbl t) r" "kreg r" using that t by (auto simp: held_def ran_def)
    then have "same_on (kmem s) ?m r" by (intro changed_withinD [OF ch]) simp_all
    then show ?thesis by (simp add: s'_def)
  qed
qed

text \<open>Walking down to the page table of \<open>v\<close>, and the result of \<open>add_trans_user\<close>.\<close>

lemma user_tables:
  assumes inv: "heap_inv s A F" and pt: "pt_inv s A tab" and v: "USER_MEM_RANGE_OK v"
  obtains (starved) "add_trans_user s v pa prot = Inl null_write"
      "unat (arena_top_size s) < 0x6180"
  | (mapped) t s1 A' F' tab' where "heap_inv s1 A' F'" "pt_inv s1 A' tab'" "grown s s1 A A' tab tab'"
      "tab' (upath v) = Some t" "unat (arena_top_size s) \<le> unat (arena_top_size s1) + 0x6180"
      "add_trans_user s v pa prot = Inr (s1\<lparr>kmem := set_entry (kmem s1) t (PTOFF v)
         (prot_entry (PDE64_PRESENT OR (pa AND NOT KERNEL_BASE_OFFSET)) prot)\<rparr>)"
proof -
  have root: "tab [] = Some (cr3 s)" using pt by (simp add: pt_inv_def)
  note nr = not_reserved [OF v]
  note add = add_trans_user_def [of s v pa prot] get_pml4_addr_def [of s]
  show ?thesis
  proof (cases rule: paging_user_step [OF inv pt root _ index_bounds(1) nr(1)])
    case 2 then show ?thesis using starved v by (simp add: add)
  next
    case 3: (3 t1 s1 A1 F1 tab1)
    have t1: "tab1 [PML4OFF v] = Some t1" using 3(5) by simp
    show ?thesis
    proof (cases rule: paging_user_step [OF 3(2,3) t1 _ index_bounds(2) nr(2)])
      case 2 then show ?thesis using starved v 3(1,6) by (simp add: add)
    next
      case 4: (3 t2 s2 A2 F2 tab2)
      have t2: "tab2 [PML4OFF v, PDPOFF v] = Some t2" using 4(5) by simp
      show ?thesis
      proof (cases rule: paging_user_step [OF 4(2,3) t2 _ index_bounds(3) nr(3)])
        case 2 then show ?thesis using starved v 3(1,6) 4(1,6) by (simp add: add)
      next
        case 5: (3 t3 s3 A3 F3 tab3)
        show ?thesis
          using 5(2,3) grown_trans [OF grown_trans [OF 3(4) 4(4)] 5(4)]
        proof (rule mapped)
          show "tab3 (upath v) = Some t3" using 5(5) by (simp add: upath_def)
          show "unat (arena_top_size s) \<le> unat (arena_top_size s3) + 0x6180" using 3(6) 4(6) 5(6) by simp
          show "add_trans_user s v pa prot = Inr (s3\<lparr>kmem := set_entry (kmem s3) t3 (PTOFF v)
             (prot_entry (PDE64_PRESENT OR (pa AND NOT KERNEL_BASE_OFFSET)) prot)\<rparr>)"
            using v 3(1) 4(1) 5(1) by (simp add: add set_prot_entry set_entry_def)
        qed
      qed simp
    qed simp
  qed simp
qed

lemma bit_window: "bit KERNEL_BASE_OFFSET n \<longleftrightarrow> n = 39"
proof -
  have K: "KERNEL_BASE_OFFSET = 2 ^ 39" by (simp add: KERNEL_BASE_OFFSET_def)
  show ?thesis unfolding K bit_exp_iff by (auto simp: possible_bit_word)
qed

lemma next_table_low:
  assumes "e AND (- 0x1000) = a" "\<not> bit a 39" shows "next_table e XOR KERNEL_BASE_OFFSET = a"
  unfolding next_table_def assms(1) by (rule bit_eqI) (use assms(2) in \<open>auto simp: bit_simps bit_window\<close>)

lemma bit_dm: "bit (pa AND NOT KERNEL_BASE_OFFSET) n \<longleftrightarrow> bit pa n \<and> n \<noteq> 39 \<and> n < 64"
  by (auto simp: bit_and_iff bit_not_iff bit_window possible_bit_word dest: bit_imp_le_length)

lemma page_aligned_dm: "page_aligned pa \<Longrightarrow> page_aligned (pa AND NOT KERNEL_BASE_OFFSET)"
  by (metis and.assoc and.commute and_zero_eq)

text \<open>What a leaf made from a page and permission bits allows.\<close>

lemma prot_entry_bits:
  assumes "page_aligned a" "e = PDE64_PRESENT OR a"
  shows "prot_entry e prot AND PDE64_PRESENT \<noteq> 0"
    "prot_entry e prot AND PDE64_USER = 0 \<longleftrightarrow> prot AND PROT_R = 0"
    "prot_entry e prot AND PDE64_RW = 0 \<longleftrightarrow> prot AND PROT_W = 0"
    "prot_entry e prot AND (- 0x1000) = a"
proof -
  note low = aligned_and_low [OF assms(1)]
  show "prot_entry e prot AND PDE64_PRESENT \<noteq> 0"
    "prot_entry e prot AND PDE64_USER = 0 \<longleftrightarrow> prot AND PROT_R = 0"
    "prot_entry e prot AND PDE64_RW = 0 \<longleftrightarrow> prot AND PROT_W = 0"
    by (simp_all add: prot_entry_def assms(2) pde_defs bit.conj_disj_distrib2 low Let_def)
  show "prot_entry e prot AND (- 0x1000) = a"
    by (simp add: prot_entry_def assms(2) pde_defs bit.conj_disj_distrib2 aligned_and_high [OF assms(1)] Let_def)
qed

lemma leaf_translate_prot:
  assumes "page_aligned pa"
  shows "leaf_translate (prot_entry (PDE64_PRESENT OR (pa AND NOT KERNEL_BASE_OFFSET)) prot) w um wr
    = (if (um \<longrightarrow> prot AND PROT_R \<noteq> 0) \<and> (wr \<longrightarrow> prot AND PROT_W \<noteq> 0)
       then (pa AND NOT KERNEL_BASE_OFFSET) + (w AND 0xfff) else -1)"
proof -
  note b = prot_entry_bits [OF page_aligned_dm [OF assms] refl, of prot]
  have "\<not> bit (pa AND NOT KERNEL_BASE_OFFSET) 39" by (simp add: bit_dm)
  note next_table_low [OF b(4) this]
  then show ?thesis using b by (auto simp: leaf_translate_def)
qed

lemma map_le_ran: "m \<subseteq>\<^sub>m m' \<Longrightarrow> ran m \<subseteq> ran m'"
  unfolding map_le_def ran_def by (auto, metis domI)

lemma add_trans_user_step:
  assumes "heap_inv s A F" "pt_inv s A tab" "USER_MEM_RANGE_OK v" "page_aligned pa"
  shows "(add_trans_user s v pa prot = Inl null_write \<and> unat (arena_top_size s) < 0x6180) \<or>
    (\<exists>s' A' F' tab'. add_trans_user s v pa prot = Inr s' \<and> heap_inv s' A' F' \<and> pt_inv s' A' tab' \<and> A \<subseteq> A' \<and>
      (\<forall>w um wr. USER_MEM_RANGE_OK w \<longrightarrow> translate s' w um wr =
         (if drop_bit 12 w = drop_bit 12 v
          then if (um \<longrightarrow> prot AND PROT_R \<noteq> 0) \<and> (wr \<longrightarrow> prot AND PROT_W \<noteq> 0)
               then (pa AND NOT KERNEL_BASE_OFFSET) + (w AND 0xfff) else -1
          else translate s w um wr)) \<and>
      cr3 s' = cr3 s \<and> arena s' = arena s \<and> unat (arena_top_size s) \<le> unat (arena_top_size s') + 0x6180 \<and>
      ran tab \<subseteq> ran tab' \<and>
      (\<forall>r. held s A r \<and> (\<forall>t\<in>ran tab. disjr (tbl t) r) \<longrightarrow>
         same_on (kmem s) (kmem s') r \<and> (\<forall>t\<in>ran tab'. disjr (tbl t) r)))"
proof (cases rule: user_tables [OF assms(1-3), of pa prot])
  case (2 t s1 A' F' tab')
  let ?e = "prot_entry (PDE64_PRESENT OR (pa AND NOT KERNEL_BASE_OFFSET)) prot"
  let ?s = "s1\<lparr>kmem := set_entry (kmem s1) t (PTOFF v) ?e\<rparr>"
  note set = set_leaf [OF 2(1,2,4), where e = ?e]
  have "translate ?s w um wr = (if drop_bit 12 w = drop_bit 12 v
      then if (um \<longrightarrow> prot AND PROT_R \<noteq> 0) \<and> (wr \<longrightarrow> prot AND PROT_W \<noteq> 0)
           then (pa AND NOT KERNEL_BASE_OFFSET) + (w AND 0xfff) else -1
      else translate s w um wr)" if w: "USER_MEM_RANGE_OK w" for w um wr
  proof -
    have page: "upath w = upath v \<and> PTOFF w = PTOFF v \<longleftrightarrow> drop_bit 12 w = drop_bit 12 v"
      using same_page_iff [of w v] user_range_index(1) w assms(3) by (auto simp: upath_def)
    have "leaf (kmem s1) tab' w = leaf (kmem s) tab w" using 2(3) by (simp add: grown_def)
    then show ?thesis
      using set(3) [of w] translate_leaf [OF set(2) w] translate_leaf [OF assms(2) w] page
        leaf_translate_prot [OF assms(4)] by simp
  qed
  moreover have "same_on (kmem s) (kmem ?s) r \<and> (\<forall>t\<in>ran tab'. disjr (tbl t) r)" if "held s A r" "\<forall>t\<in>ran tab. disjr (tbl t) r" for r
  proof -
    have "same_on (kmem s) (kmem s1) r" "\<forall>t\<in>ran tab'. disjr (tbl t) r" "held s1 A' r"
      using 2(3) that held_mono [OF that(1)] unfolding grown_def by blast+
    with set(4) [of r] show ?thesis using same_on_trans by blast
  qed
  moreover have "A \<subseteq> A'" "cr3 ?s = cr3 s" "arena ?s = arena s" "ran tab \<subseteq> ran tab'"
    using 2(3) map_le_ran [of tab tab'] by (simp_all add: grown_def)
  moreover have "unat (arena_top_size s) \<le> unat (arena_top_size ?s) + 0x6180" using 2(5) by simp
  ultimately show ?thesis using 2(6) set(1,2)
    by (intro disjI2 exI [of _ ?s] exI [of _ A'] exI [of _ F'] exI [of _ tab'] conjI allI impI) simp_all
qed auto

lemma prot_entry_clear:
  defines "x \<equiv> \<lambda>e. e AND NOT (PDE64_USER OR PDE64_RW)"
  shows "prot_entry (x e) prot AND PDE64_PRESENT = e AND PDE64_PRESENT"
    "prot_entry (x e) prot AND PDE64_USER = 0 \<longleftrightarrow> prot AND PROT_R = 0"
    "prot_entry (x e) prot AND PDE64_RW = 0 \<longleftrightarrow> prot AND PROT_W = 0"
    "prot_entry (x e) prot AND (- 0x1000) = e AND (- 0x1000)"
  by (simp_all add: prot_entry_def x_def pde_defs bit.conj_disj_distrib2 and.assoc Let_def)

lemma modify_permission_leaf:
  assumes pt: "pt_inv s A tab" and v: "USER_MEM_RANGE_OK v"
  shows "modify_permission s v prot =
    (if leaf (kmem s) tab v AND PDE64_PRESENT = 0 then (-1, s)
     else (0, s\<lparr>kmem := set_entry (kmem s) (the (tab (upath v))) (PTOFF v)
       (prot_entry (leaf (kmem s) tab v AND NOT (PDE64_USER OR PDE64_RW)) prot)\<rparr>))"
proof -
  have ok: "pt_ok (kmem s) tab" and root: "tab [] = Some (cr3 s)" using pt by (auto simp: pt_inv_def)
  note nr = not_reserved [OF v]
  note walk = pt_step(2) [OF ok]
  note def = modify_permission_def get_pml4_addr_def leaf_def
  show ?thesis
  proof (cases "tab [PML4OFF v]")
    case None
    then have "tab (upath v) = None"
      using pt_ok_prefix [OF ok, of "[PML4OFF v]"] pt_ok_prefix [OF ok, of "[PML4OFF v, PDPOFF v]"]
      by (simp add: upath_def)
    then show ?thesis using walk [OF root, of "PML4OFF v"] nr None by (simp add: def)
  next
    case 1: (Some t1)
    show ?thesis
    proof (cases "tab [PML4OFF v, PDPOFF v]")
      case None
      then have "tab (upath v) = None"
        using pt_ok_prefix [OF ok, of "[PML4OFF v, PDPOFF v]"] by (simp add: upath_def)
      then show ?thesis
        using walk [OF root, of "PML4OFF v"] walk [OF 1, of "PDPOFF v"] nr None 1 by (simp add: def)
    next
      case (Some t2)
      then show ?thesis
        using walk [OF root, of "PML4OFF v"] walk [OF 1, of "PDPOFF v"] walk [OF Some, of "PDOFF v"] nr 1
        by (cases "tab (upath v)")
          (simp_all add: def upath_def set_prot_entry set_entry_def Let_def flip: entry_def)
    qed
  qed
qed

lemma leaf_translate_mapped:
  assumes "e AND PDE64_PRESENT \<noteq> 0" shows "leaf_translate e v False False \<noteq> -1"
proof -
  let ?a = "next_table e XOR KERNEL_BASE_OFFSET" and ?b = "v AND 0xfff"
  have m: "(0xfff :: u64) = mask 12" "(- 0x1000 :: u64) = NOT (mask 12)"
    by (simp_all add: mask_eq_exp_minus_1)
  have a: "\<not> bit ?a n" if "n < 12 \<or> n = 39" for n
    using that by (auto simp: next_table_def m bit_xor_iff bit_or_iff bit_and_iff bit_not_iff bit_mask_iff
        bit_window possible_bit_word simp del: mask_numeral)
  have b: "\<not> bit ?b n" if "12 \<le> n" for n
    using that by (simp only: m bit_and_iff bit_mask_iff) simp
  have "?a AND ?b = 0" using a b by (intro bit_eqI) (metis bit_0_eq bit_and_iff bot_apply bot_bool_def not_less)
  then have "?a + ?b = ?a OR ?b" using word_plus_and_or [of ?a ?b] by simp
  then have "\<not> bit (?a + ?b) 39" using a [of 39] b [of 39] by (simp add: bit_or_iff)
  moreover have "bit (-1 :: u64) 39" by simp
  ultimately have "?a + ?b \<noteq> -1" by metis
  then show ?thesis using assms by (simp add: leaf_translate_def)
qed

lemma modify_permission_step:
  assumes inv: "heap_inv s A F" "pt_inv s A tab" and v: "USER_MEM_RANGE_OK v"
  shows "if translate s v False False = -1 then modify_permission s v prot = (-1, s)
    else \<exists>s'. modify_permission s v prot = (0, s') \<and> heap_inv s' A F \<and> pt_inv s' A tab \<and>
      (\<forall>w um wr. USER_MEM_RANGE_OK w \<longrightarrow> translate s' w um wr =
         (if drop_bit 12 w = drop_bit 12 v
          then if (um \<longrightarrow> prot AND PROT_R \<noteq> 0) \<and> (wr \<longrightarrow> prot AND PROT_W \<noteq> 0)
               then translate s w False False else -1
          else translate s w um wr))"
proof -
  let ?e = "leaf (kmem s) tab v"
  have tv: "translate s v False False = leaf_translate ?e v False False" by (rule translate_leaf [OF inv(2) v])
  show ?thesis
  proof (cases "?e AND PDE64_PRESENT = 0")
    case True
    then show ?thesis using tv modify_permission_leaf [OF inv(2) v, of prot] by (simp add: leaf_translate_def)
  next
    case False
    then obtain t where t: "tab (upath v) = Some t" by (auto simp: leaf_def split: option.splits)
    let ?x = "prot_entry (?e AND NOT (PDE64_USER OR PDE64_RW)) prot"
    let ?s = "s\<lparr>kmem := set_entry (kmem s) t (PTOFF v) ?x\<rparr>"
    note set = set_leaf [OF inv t, where e = ?x]
    have "translate ?s w um wr = (if drop_bit 12 w = drop_bit 12 v
        then if (um \<longrightarrow> prot AND PROT_R \<noteq> 0) \<and> (wr \<longrightarrow> prot AND PROT_W \<noteq> 0)
             then translate s w False False else -1
        else translate s w um wr)" if w: "USER_MEM_RANGE_OK w" for w um wr
    proof -
      have page: "upath w = upath v \<and> PTOFF w = PTOFF v \<longleftrightarrow> drop_bit 12 w = drop_bit 12 v"
        using same_page_iff [of w v] user_range_index(1) w v by (auto simp: upath_def)
      have same: "leaf (kmem s) tab w = ?e" if "upath w = upath v" "PTOFF w = PTOFF v"
        using that by (simp add: leaf_def cong: option.case_cong)
      have "leaf_translate ?x w um wr
          = (if (um \<longrightarrow> prot AND PROT_R \<noteq> 0) \<and> (wr \<longrightarrow> prot AND PROT_W \<noteq> 0)
             then leaf_translate ?e w False False else -1)"
        using False prot_entry_clear [of ?e prot] by (auto simp: leaf_translate_def next_table_def)
      then show ?thesis
        using set(3) [of w] translate_leaf [OF set(2) w] translate_leaf [OF inv(2) w] page same by auto
    qed
    moreover have "modify_permission s v prot = (0, ?s)"
      using False t modify_permission_leaf [OF inv(2) v, of prot] by simp
    moreover have "translate s v False False \<noteq> -1" using tv leaf_translate_mapped [OF False] by simp
    ultimately show ?thesis using set(1,2) by auto
  qed
qed

end
