(* ===== verification/Mmap.thy ===== *)
theory Mmap
  imports Translate
begin

unbundle bit_operations_syntax

text \<open>
  \<^verbatim>\<open>kernel/mm/mmap.c\<close>: mapping fresh memory into the user part and changing its protection.  The
  static \<^verbatim>\<open>last_mmapped\<close> of the function is a field of the state; it starts as -1.
\<close>

record kmm = kpaging +
  last_mmapped :: u64

text \<open>
  The two loops advance by whole pages.  For \<^verbatim>\<open>mmap\<close> the length is a multiple of the page size; the
  one of \<^verbatim>\<open>mprotect\<close> leaves the user range, and so returns, long before its counter could wrap.
\<close>

primrec map_pages ::
    "'z kpaging_scheme \<Rightarrow> u64 \<Rightarrow> u64 \<Rightarrow> u32 \<Rightarrow> nat \<Rightarrow> stop + 'z kpaging_scheme" where
  "map_pages s addr ret prot 0 = Inr s"
| "map_pages s addr ret prot (Suc n) =
     bindE (add_trans_user s addr ret prot) (\<lambda>s. map_pages s (addr + 0x1000) (ret + 0x1000) prot n)"

definition mmap :: "'z kmm_scheme \<Rightarrow> u64 \<Rightarrow> u64 \<Rightarrow> u32 \<Rightarrow> stop + (u64 \<times> 'z kmm_scheme)" where
  "mmap s addr len prot =
     (if len = 0 \<or> len AND 0xfff \<noteq> 0 then Inl (Panic ''mmap.c: invalid length'')
      else bindE (kmalloc s len MALLOC_PAGE_ALIGN) (\<lambda>(ret, s).
        if ret = 0 then Inr (0, s)
        else
          let s = (if last_mmapped s = -1 then s\<lparr>last_mmapped := 0x00007ffff7fff000\<rparr> else s);
              (addr, s) = (if addr = 0 then (last_mmapped s - len, s\<lparr>last_mmapped := last_mmapped s - len\<rparr>)
                           else (addr, s))
          in bindE (map_pages s addr ret prot (unat len div 0x1000)) (\<lambda>s. Inr (addr, s))))"

primrec protect_pages :: "'z kpaging_scheme \<Rightarrow> u64 \<Rightarrow> u32 \<Rightarrow> nat \<Rightarrow> int \<times> 'z kpaging_scheme" where
  "protect_pages s addr prot 0 = (0, s)"
| "protect_pages s addr prot (Suc n) =
     (if \<not> USER_MEM_RANGE_OK addr then (- EACCES, s)
      else let (r, s1) = modify_permission s addr prot
           in if r \<noteq> 0 then (- EACCES, s1) else protect_pages s1 (addr + 0x1000) prot n)"

definition mprotect :: "'z kpaging_scheme \<Rightarrow> u64 \<Rightarrow> u64 \<Rightarrow> u32 \<Rightarrow> int \<times> 'z kpaging_scheme" where
  "mprotect s addr len prot =
     (if \<not> alignok addr then (- EINVAL, s)
      else protect_pages s addr prot ((unat len + 0xfff) div 0x1000))"

end
