(* ===== verification/Hypercall_Host.thy ===== *)
theory Hypercall_Host
  imports Mmap
begin

unbundle bit_operations_syntax

text \<open>
  \<^verbatim>\<open>hypervisor/hypercall.c\<close>: the host side of the hypercalls.  The guest memory of the state is the
  \<^verbatim>\<open>vm->mem\<close> of the hypervisor.  Each handler keeps its result in a static variable between the
  \<^verbatim>\<open>out\<close> that does the work and the \<^verbatim>\<open>in\<close> that fetches the result; these variables and the table of
  file descriptors are fields of the state.  The system calls of the host are parameters over a
  world \<open>'w\<close>; each gives its result and the value of \<^verbatim>\<open>errno\<close>.
\<close>

record fd_handle =
  real_fd :: int
  is_open :: bool  \<comment> \<open>\<^verbatim>\<open>opening\<close>\<close>

record 'w machine = kmm +
  mem_size :: u64
  fd_map :: "fd_handle list"
  fd_map_init :: bool
  open_ret :: u32
  rw_ret :: u32
  close_ret :: u32
  lseek_ret :: u32
  world :: 'w

record 'w host_os =
  os_open :: "u8 list \<Rightarrow> 'w \<Rightarrow> (int \<times> int) \<times> 'w"
  os_read :: "int \<Rightarrow> u64 \<Rightarrow> 'w \<Rightarrow> (int \<times> int \<times> u8 list) \<times> 'w"
  os_write :: "int \<Rightarrow> u8 list \<Rightarrow> 'w \<Rightarrow> (int \<times> int) \<times> 'w"
  os_close :: "int \<Rightarrow> 'w \<Rightarrow> (int \<times> int) \<times> 'w"
  os_lseek :: "int \<Rightarrow> int \<Rightarrow> int \<Rightarrow> 'w \<Rightarrow> (int \<times> int) \<times> 'w"

definition HP_NR_MARK :: u16 where "HP_NR_MARK = 0x8000"
definition NR_HP_open :: u16 where "NR_HP_open = HP_NR_MARK OR 0"
definition NR_HP_read :: u16 where "NR_HP_read = HP_NR_MARK OR 1"
definition NR_HP_write :: u16 where "NR_HP_write = HP_NR_MARK OR 2"
definition NR_HP_close :: u16 where "NR_HP_close = HP_NR_MARK OR 3"
definition NR_HP_lseek :: u16 where "NR_HP_lseek = HP_NR_MARK OR 4"
definition NR_HP_exit :: u16 where "NR_HP_exit = HP_NR_MARK OR 5"
definition NR_HP_panic :: u16 where "NR_HP_panic = HP_NR_MARK OR 0x7fff"

lemmas hp_nr_defs = NR_HP_open_def NR_HP_read_def NR_HP_write_def NR_HP_close_def NR_HP_lseek_def
  NR_HP_exit_def NR_HP_panic_def HP_NR_MARK_def

definition MAX_FD :: nat where "MAX_FD = 255"

definition MAY_INIT_FD_MAP :: "'w machine \<Rightarrow> 'w machine" where
  "MAY_INIT_FD_MAP vm =
     (if fd_map_init vm then vm
      else let std = \<lambda>i h. h\<lparr>real_fd := i, is_open := True\<rparr>
           in vm\<lparr>fd_map_init := True,
                 fd_map := [std 0 (fd_map vm ! 0), std 1 (fd_map vm ! 1), std 2 (fd_map vm ! 2)]
                           @ map (\<lambda>h. h\<lparr>is_open := False\<rparr>) (drop 3 (fd_map vm))\<rparr>)"

definition UNUSED_VAR :: u32 where "UNUSED_VAR = 0xdeadffff"

text \<open>
  \<^verbatim>\<open>THEN_RETURN\<close>: the \<^verbatim>\<open>in\<close> half of a handler.  \<open>var\<close> is the static variable and \<open>reset\<close> the state
  with it unused again.  The result of a handler is its return value, the 32 bits exchanged with the
  guest, and the state.
\<close>

definition then_return :: "u32 \<Rightarrow> 'w machine \<Rightarrow> u32 \<Rightarrow> 'w machine \<Rightarrow> stop + (int \<times> u32 \<times> 'w machine)" where
  "then_return var reset data vm =
     (if var = UNUSED_VAR then Inr (-1, data, vm) else Inr (0, var, reset))"

definition CHECK_OOB :: "'w machine \<Rightarrow> u64 \<Rightarrow> stop + unit" where
  "CHECK_OOB vm off = (if off < mem_size vm then Inr () else Inl (Host_error ''assert''))"

text \<open>The string at an offset of the guest memory; \<open>None\<close> when \<^verbatim>\<open>strlen\<close> would leave the mapping.\<close>

primrec host_string :: "memory \<Rightarrow> u64 \<Rightarrow> nat \<Rightarrow> u8 list option" where
  "host_string m a 0 = None"
| "host_string m a (Suc n) = (if m a = 0 then Some [] else map_option (Cons (m a)) (host_string m (a + 1) n))"

definition string_at :: "'w machine \<Rightarrow> u64 \<Rightarrow> stop + u8 list" where
  "string_at vm off =
     (case host_string (kmem vm) off (unat (mem_size vm) - unat off) of
        None \<Rightarrow> Inl (Undefined ''string runs past the guest memory'')
      | Some bs \<Rightarrow> Inr bs)"

primrec first_unused :: "fd_handle list \<Rightarrow> nat \<Rightarrow> nat" where
  "first_unused [] i = i"
| "first_unused (h # hs) i = (if \<not> is_open h then i else first_unused hs (Suc i))"

definition hp_handle_open ::
    "'w host_os \<Rightarrow> bool \<Rightarrow> u32 \<Rightarrow> 'w machine \<Rightarrow> stop + (int \<times> u32 \<times> 'w machine)" where
  "hp_handle_open os out data vm =
     (if out then
        bindE (CHECK_OOB vm (ucast data)) (\<lambda>_.
        bindE (string_at vm (ucast data)) (\<lambda>filename.
        let end_off = data + of_nat (length filename) in
        bindE (CHECK_OOB vm (ucast end_off)) (\<lambda>_.
        let vm = MAY_INIT_FD_MAP vm; min_fd = first_unused (fd_map vm) 0 in
        if MAX_FD < min_fd then Inr (0, data, vm\<lparr>open_ret := word_of_int (- ENFILE)\<rparr>)
        else let ((fd, errno), w) = os_open os filename (world vm); vm = vm\<lparr>world := w\<rparr> in
          if fd < 0 then Inr (0, data, vm\<lparr>open_ret := word_of_int (- errno)\<rparr>)
          else Inr (0, data, vm\<lparr>fd_map := (fd_map vm)[min_fd := \<lparr>real_fd = fd, is_open = True\<rparr>],
                               open_ret := of_nat min_fd\<rparr>))))
      else then_return (open_ret vm) (vm\<lparr>open_ret := UNUSED_VAR\<rparr>) data vm)"

definition BADFD :: "'w machine \<Rightarrow> int \<Rightarrow> bool" where
  "BADFD vm fd \<longleftrightarrow> fd < 0 \<or> int MAX_FD < fd \<or> \<not> is_open (fd_map vm ! nat fd)"

text \<open>
  \<^verbatim>\<open>PROCESS_ON_FD\<close>: \<open>work\<close> gives the result of the host call as an \<^verbatim>\<open>int\<close> and \<^verbatim>\<open>errno\<close>; the value is what
  the static variable becomes.
\<close>

definition process_on_fd ::
    "'w machine \<Rightarrow> int \<Rightarrow> ('w machine \<Rightarrow> stop + ((int \<times> int) \<times> 'w machine)) \<Rightarrow> stop + (u32 \<times> 'w machine)" where
  "process_on_fd vm fd work =
     (let vm = MAY_INIT_FD_MAP vm in
      if BADFD vm fd then Inr (word_of_int (- EBADF), vm)
      else bindE (work vm) (\<lambda>((r, errno), vm).
             let ret = (word_of_int r :: u32)
             in Inr (if sint ret < 0 then word_of_int (- errno) else ret, vm)))"

type_synonym 'w rw_call = "int \<Rightarrow> u64 \<Rightarrow> u64 \<Rightarrow> 'w machine \<Rightarrow> (int \<times> int) \<times> 'w machine"

text \<open>The host \<^verbatim>\<open>read\<close> and \<^verbatim>\<open>write\<close> on a buffer inside the guest memory.\<close>

definition read_call :: "'w host_os \<Rightarrow> 'w rw_call" where
  "read_call os fd paddr nbytes vm =
     (let ((r, errno, bs), w) = os_read os fd nbytes (world vm)
      in ((r, errno), vm\<lparr>world := w, kmem := store_bytes (kmem vm) paddr bs\<rparr>))"

definition write_call :: "'w host_os \<Rightarrow> 'w rw_call" where
  "write_call os fd paddr nbytes vm =
     (let ((r, errno), w) = os_write os fd (load_bytes (kmem vm) paddr (unat nbytes)) (world vm)
      in ((r, errno), vm\<lparr>world := w\<rparr>))"

definition handle_rw ::
    "'w rw_call \<Rightarrow> bool \<Rightarrow> u32 \<Rightarrow> 'w machine \<Rightarrow> stop + (int \<times> u32 \<times> 'w machine)" where
  "handle_rw fptr out data vm =
     (if out then
        let off = ucast data in
        bindE (CHECK_OOB vm off) (\<lambda>_.
        if unat (mem_size vm) < unat off + 24 then Inl (Undefined ''kbuf runs past the guest memory'')
        else
          let fd = sint (ucast (load64 (kmem vm) off) :: u32);
              paddr = load64 (kmem vm) (off + 8);
              nbytes = load64 (kmem vm) (off + 16)
          in if \<not> (paddr \<le> paddr + nbytes \<and> paddr + nbytes \<le> mem_size vm)
             then Inr (0, data, vm\<lparr>rw_ret := word_of_int (- EACCES)\<rparr>)
             else bindE (process_on_fd vm fd (\<lambda>vm.
                      bindE (CHECK_OOB vm paddr) (\<lambda>_. Inr (fptr (real_fd (fd_map vm ! nat fd)) paddr nbytes vm))))
                    (\<lambda>(ret, vm). Inr (0, data, vm\<lparr>rw_ret := ret\<rparr>)))
      else then_return (rw_ret vm) (vm\<lparr>rw_ret := UNUSED_VAR\<rparr>) data vm)"

definition hp_handle_read ::
    "'w host_os \<Rightarrow> bool \<Rightarrow> u32 \<Rightarrow> 'w machine \<Rightarrow> stop + (int \<times> u32 \<times> 'w machine)" where
  "hp_handle_read os = handle_rw (read_call os)"

definition hp_handle_write ::
    "'w host_os \<Rightarrow> bool \<Rightarrow> u32 \<Rightarrow> 'w machine \<Rightarrow> stop + (int \<times> u32 \<times> 'w machine)" where
  "hp_handle_write os = handle_rw (write_call os)"

definition do_close :: "'w host_os \<Rightarrow> int \<Rightarrow> 'w machine \<Rightarrow> (int \<times> int) \<times> 'w machine" where
  "do_close os fd vm =
     (let h = fd_map vm ! nat fd; vm = vm\<lparr>fd_map := (fd_map vm)[nat fd := h\<lparr>is_open := False\<rparr>]\<rparr>;
          (r, w) = os_close os (real_fd h) (world vm)
      in (r, vm\<lparr>world := w\<rparr>))"

definition hp_handle_close ::
    "'w host_os \<Rightarrow> bool \<Rightarrow> u32 \<Rightarrow> 'w machine \<Rightarrow> stop + (int \<times> u32 \<times> 'w machine)" where
  "hp_handle_close os out data vm =
     (if out then
        let fd = sint data
        in bindE (process_on_fd vm fd (\<lambda>vm. Inr (do_close os fd vm)))
             (\<lambda>(ret, vm). Inr (0, data, vm\<lparr>close_ret := ret\<rparr>))
      else then_return (close_ret vm) (vm\<lparr>close_ret := UNUSED_VAR\<rparr>) data vm)"

definition hp_handle_lseek ::
    "'w host_os \<Rightarrow> bool \<Rightarrow> u32 \<Rightarrow> 'w machine \<Rightarrow> stop + (int \<times> u32 \<times> 'w machine)" where
  "hp_handle_lseek os out data vm =
     (if out then
        let a = ucast data in
        bindE (CHECK_OOB vm a) (\<lambda>_.
        if unat (mem_size vm) < unat a + 12 then Inl (Undefined ''kbuf runs past the guest memory'')
        else
          let fd = sint (load32 (kmem vm) a);
              off = load32 (kmem vm) (a + 4);
              whence = sint (load32 (kmem vm) (a + 8))
          in bindE (process_on_fd vm fd (\<lambda>vm.
                 let (r, w) = os_lseek os (real_fd (fd_map vm ! nat fd)) (uint off) whence (world vm)
                 in Inr (r, vm\<lparr>world := w\<rparr>)))
               (\<lambda>(ret, vm). Inr (0, data, vm\<lparr>lseek_ret := ret\<rparr>)))
      else then_return (lseek_ret vm) (vm\<lparr>lseek_ret := UNUSED_VAR\<rparr>) data vm)"

definition hp_handle_exit :: "u32 \<Rightarrow> 'w machine \<Rightarrow> stop + (int \<times> u32 \<times> 'w machine)" where
  "hp_handle_exit data vm = Inl (Exited (sint data))"

definition hp_handle_panic :: "u32 \<Rightarrow> 'w machine \<Rightarrow> stop + (int \<times> u32 \<times> 'w machine)" where
  "hp_handle_panic data vm =
     bindE (CHECK_OOB vm (ucast data)) (\<lambda>_.
     bindE (string_at vm (ucast data)) (\<lambda>bs. Inl (Panic (map (\<lambda>b. char_of (unat b)) bs))))"

definition hp_handler ::
    "'w host_os \<Rightarrow> u16 \<Rightarrow> bool \<Rightarrow> u32 \<Rightarrow> 'w machine \<Rightarrow> stop + (int \<times> u32 \<times> 'w machine)" where
  "hp_handler os nr out data vm =
     (if nr = NR_HP_open then hp_handle_open os out data vm
      else if nr = NR_HP_read then hp_handle_read os out data vm
      else if nr = NR_HP_write then hp_handle_write os out data vm
      else if nr = NR_HP_close then hp_handle_close os out data vm
      else if nr = NR_HP_lseek then hp_handle_lseek os out data vm
      else if nr = NR_HP_exit then hp_handle_exit data vm
      else if nr = NR_HP_panic then hp_handle_panic data vm
      else Inr (- ENOSYS, data, vm))"

end
