(* ===== verification/Uaccess.thy ===== *)
theory Uaccess
  imports Translate
begin

unbundle bit_operations_syntax

text \<open>
  \<^verbatim>\<open>kernel/mm/uaccess.c\<close>: checks that user memory is accessible, and the copy of a string into the
  kernel.  The processor reaches kernel pointers through the kernel window and user pointers through
  the page tables (\<open>cpu_addr\<close>).
\<close>

definition VERIFY_READ :: bool where "VERIFY_READ = False"
definition VERIFY_WRITE :: bool where "VERIFY_WRITE = True"

definition cpu_addr :: "'z kpaging_scheme \<Rightarrow> u64 \<Rightarrow> u64" where
  "cpu_addr s v = (if kptr v then dm v else translate s v False False)"

text \<open>
  The loop of \<^verbatim>\<open>access_ok\<close> runs over whole pages from \<open>v\<close>; both ends are page aligned and at most
  \<open>2 ^ 48\<close>, so that the counter cannot wrap.
\<close>

primrec access_pages :: "'z kpaging_scheme \<Rightarrow> bool \<Rightarrow> u64 \<Rightarrow> nat \<Rightarrow> bool" where
  "access_pages s type v 0 = True"
| "access_pages s type v (Suc n) =
     (if translate s v True type = -1 then False else access_pages s type (v + 0x1000) n)"

definition access_ok :: "'z kpaging_scheme \<Rightarrow> bool \<Rightarrow> u64 \<Rightarrow> u64 \<Rightarrow> bool" where
  "access_ok s type addr sz =
     (if \<not> USER_MEM_RANGE_OK addr then False
      else if \<not> USER_MEM_RANGE_OK (addr + sz - 1) then False
      else let v = aligndown addr; e = alignup_page (addr + sz)
           in access_pages s type v ((unat e - unat v + 0xfff) div 0x1000))"

lemma user_range_less: "USER_MEM_RANGE_OK v \<Longrightarrow> unat v < 2 ^ 48"
proof -
  assume "USER_MEM_RANGE_OK v"
  then have "unat (drop_bit 48 v) = 0" by (simp add: USER_MEM_RANGE_OK_def)
  moreover have "unat (drop_bit 48 v) = unat v div 2 ^ 48" by (rule unat_drop_bit)
  ultimately show ?thesis using div_eq_0_iff [of "unat v" "2 ^ 48"] by simp
qed

definition page_rest :: "u64 \<Rightarrow> u64" where
  "page_rest addr = 0x1000 - (addr AND 0xfff)"

lemma page_rest_bounds: "unat (page_rest addr) = 0x1000 - unat addr mod 0x1000"
proof -
  have "(0xfff :: u64) = mask 12" by (simp add: mask_eq_exp_minus_1)
  then have "unat (addr AND 0xfff) = unat addr mod 0x1000" using and_mask_64 [of addr 12] by simp
  then show ?thesis by (simp add: page_rest_def unat_sub_if' word_le_nat_alt)
qed

lemma access_ok_less: "access_ok s type addr sz \<Longrightarrow> unat addr < 2 ^ 48"
  by (intro user_range_less) (auto simp: access_ok_def split: if_splits)

function access_string_ok :: "'z kpaging_scheme \<Rightarrow> u64 \<Rightarrow> bool" where
  "access_string_ok s addr =
     (if \<not> access_ok s VERIFY_READ addr 1 then False
      else if strnlen (cpu_addr s) (kmem s) addr (page_rest addr) = page_rest addr
        then access_string_ok s (addr + page_rest addr)
      else True)"
  by pat_completeness auto
termination
proof (relation "measure (\<lambda>(s, addr). 2 ^ 48 - unat addr)", goal_cases)
  case (2 s addr)
  have a: "unat addr < 2 ^ 48" using 2(1) access_ok_less by blast
  have l: "0 < unat (page_rest addr)" "unat (page_rest addr) \<le> 0x1000"
    using mod_less_divisor [of "0x1000" "unat addr"] by (simp_all add: page_rest_bounds)
  then have "unat (addr + page_rest addr) = unat addr + unat (page_rest addr)"
    using a by (simp add: unat_add_64)
  then show ?case using a l by simp
qed simp

declare access_string_ok.simps [simp del]

definition copy_str_from_user :: "'z kpaging_scheme \<Rightarrow> u64 \<Rightarrow> stop + (u64 \<times> 'z kpaging_scheme)" where
  "copy_str_from_user s p =
     (let len = (ucast (strlen (cpu_addr s) (kmem s) p) :: u32);
          n = (scast (len + 1) :: u64)
      in bindE (kmalloc s n MALLOC_NO_ALIGN) (\<lambda>(dst, s1).
           if dst = 0 then Inr (0, s1)
           else Inr (dst, s1\<lparr>kmem := memcpy (cpu_addr s1) (kmem s1) dst p n\<rparr>)))"

end
