(* ===== verification/Guest_Calls.thy ===== *)
theory Guest_Calls
  imports Hypercall_Host Uaccess
begin

unbundle bit_operations_syntax

text \<open>
  The guest side: \<^verbatim>\<open>kernel/hypercalls\<close> (the port protocol and its wrappers) and \<^verbatim>\<open>kernel/syscalls\<close>.
  A hypercall is an \<^verbatim>\<open>out\<close> followed by an \<^verbatim>\<open>in\<close> on the same port; each leaves the guest and enters the
  loop of the hypervisor, which calls the handler of the port and stops when it fails.
\<close>

section \<open>Hypercalls\<close>

definition port_io :: "'w host_os \<Rightarrow> u16 \<Rightarrow> bool \<Rightarrow> u32 \<Rightarrow> 'w machine \<Rightarrow> stop + (u32 \<times> 'w machine)" where
  "port_io os port out data vm =
     (if port AND HP_NR_MARK = 0 then Inl (Host_error ''Unhandled I/O port'')
      else bindE (hp_handler os port out data vm) (\<lambda>(r, data, vm).
             if r < 0 then Inl (Host_error ''Hypercall failed'') else Inr (data, vm)))"

definition hypercall :: "'w host_os \<Rightarrow> u16 \<Rightarrow> u32 \<Rightarrow> 'w machine \<Rightarrow> stop + (int \<times> 'w machine)" where
  "hypercall os port data vm =
     bindE (port_io os port True data vm) (\<lambda>(eax, vm).
     bindE (port_io os port False eax vm) (\<lambda>(eax, vm). Inr (sint eax, vm)))"

definition hp_open :: "'w host_os \<Rightarrow> u64 \<Rightarrow> 'w machine \<Rightarrow> stop + (int \<times> 'w machine)" where
  "hp_open os paddr vm = hypercall os NR_HP_open (ucast paddr) vm"

definition hp_close :: "'w host_os \<Rightarrow> int \<Rightarrow> 'w machine \<Rightarrow> stop + (int \<times> 'w machine)" where
  "hp_close os fildes vm = hypercall os NR_HP_close (word_of_int fildes) vm"

text \<open>
  The wrappers that pass a buffer do not check the result of \<^verbatim>\<open>kmalloc\<close>, which with no memory left has
  already cleared memory from address 0 on (\<open>null_write\<close>).
\<close>

definition store_kbuf64 :: "memory \<Rightarrow> u64 \<Rightarrow> u64 \<Rightarrow> u64 \<Rightarrow> u64 \<Rightarrow> memory" where
  "store_kbuf64 m kbuf a b c = kstore64 (kstore64 (kstore64 m kbuf a) (kbuf + 8) b) (kbuf + 16) c"

definition store_kbuf32 :: "memory \<Rightarrow> u64 \<Rightarrow> u32 \<Rightarrow> u32 \<Rightarrow> u32 \<Rightarrow> memory" where
  "store_kbuf32 m kbuf a b c = store32 (store32 (store32 m (dm kbuf) a) (dm (kbuf + 4)) b) (dm (kbuf + 8)) c"

definition hp_lseek :: "'w host_os \<Rightarrow> int \<Rightarrow> u32 \<Rightarrow> int \<Rightarrow> 'w machine \<Rightarrow> stop + (int \<times> 'w machine)" where
  "hp_lseek os fildes offset whence vm =
     bindE (kmalloc vm 12 MALLOC_NO_ALIGN) (\<lambda>(kbuf, vm).
     let vm = vm\<lparr>kmem := store_kbuf32 (kmem vm) kbuf (word_of_int fildes) offset (word_of_int whence)\<rparr> in
     bindE (physical kbuf) (\<lambda>pa.
     bindE (hypercall os NR_HP_lseek (ucast pa) vm) (\<lambda>(ret, vm).
     bindE (kfree vm kbuf) (\<lambda>vm. Inr (ret, vm)))))"

definition hp_rw :: "u16 \<Rightarrow> 'w host_os \<Rightarrow> int \<Rightarrow> u64 \<Rightarrow> u64 \<Rightarrow> 'w machine \<Rightarrow> stop + (int \<times> 'w machine)" where
  "hp_rw nr os fildes phy_addr nbyte vm =
     bindE (kmalloc vm 24 MALLOC_NO_ALIGN) (\<lambda>(kbuf, vm).
     let vm = vm\<lparr>kmem := store_kbuf64 (kmem vm) kbuf (word_of_int fildes) phy_addr nbyte\<rparr> in
     bindE (physical kbuf) (\<lambda>pa.
     bindE (hypercall os nr (ucast pa) vm) (\<lambda>(ret, vm).
     bindE (kfree vm kbuf) (\<lambda>vm. Inr (ret, vm)))))"

definition hp_read :: "'w host_os \<Rightarrow> int \<Rightarrow> u64 \<Rightarrow> u64 \<Rightarrow> 'w machine \<Rightarrow> stop + (int \<times> 'w machine)" where
  "hp_read = hp_rw NR_HP_read"

definition hp_write :: "'w host_os \<Rightarrow> int \<Rightarrow> u64 \<Rightarrow> u64 \<Rightarrow> 'w machine \<Rightarrow> stop + (int \<times> 'w machine)" where
  "hp_write = hp_rw NR_HP_write"

section \<open>System calls\<close>

definition sys_open :: "'w host_os \<Rightarrow> u64 \<Rightarrow> 'w machine \<Rightarrow> stop + (int \<times> 'w machine)" where
  "sys_open os path vm =
     (if \<not> access_string_ok vm path then Inr (- EFAULT, vm)
      else bindE (copy_str_from_user vm path) (\<lambda>(dst, vm).
        if dst = 0 then Inr (- ENOMEM, vm)
        else bindE (physical dst) (\<lambda>pa.
             bindE (hp_open os pa vm) (\<lambda>(fd, vm).
             bindE (kfree vm dst) (\<lambda>vm. Inr (fd, vm))))))"

definition sys_read :: "'w host_os \<Rightarrow> int \<Rightarrow> u64 \<Rightarrow> u64 \<Rightarrow> 'w machine \<Rightarrow> stop + (int \<times> 'w machine)" where
  "sys_read os fildes buf nbyte vm =
     (if fildes < 0 then Inr (- EBADF, vm)
      else if \<not> access_ok vm VERIFY_WRITE buf nbyte then Inr (- EFAULT, vm)
      else bindE (kmalloc vm nbyte MALLOC_NO_ALIGN) (\<lambda>(dst, vm).
           bindE (physical dst) (\<lambda>pa.
           bindE (hp_read os fildes pa nbyte vm) (\<lambda>(ret, vm).
           let vm = (if 0 \<le> ret then vm\<lparr>kmem := memcpy (cpu_addr vm) (kmem vm) buf dst (word_of_int ret)\<rparr> else vm)
           in bindE (kfree vm dst) (\<lambda>vm. Inr (ret, vm))))))"

definition sys_write :: "'w host_os \<Rightarrow> int \<Rightarrow> u64 \<Rightarrow> u64 \<Rightarrow> 'w machine \<Rightarrow> stop + (int \<times> 'w machine)" where
  "sys_write os fildes buf nbyte vm =
     (if fildes < 0 then Inr (- EBADF, vm)
      else if \<not> access_ok vm VERIFY_READ buf nbyte then Inr (- EFAULT, vm)
      else bindE (kmalloc vm nbyte MALLOC_NO_ALIGN) (\<lambda>(dst, vm).
           let vm = vm\<lparr>kmem := memcpy (cpu_addr vm) (kmem vm) dst buf nbyte\<rparr> in
           bindE (physical dst) (\<lambda>pa.
           bindE (hp_write os fildes pa nbyte vm) (\<lambda>(ret, vm).
           bindE (kfree vm dst) (\<lambda>vm. Inr (ret, vm))))))"

definition sys_exit :: "'w host_os \<Rightarrow> int \<Rightarrow> 'w machine \<Rightarrow> stop + (int \<times> 'w machine)" where
  "sys_exit os status vm = hypercall os NR_HP_exit (word_of_int status) vm"

definition MAP_FIXED :: u32 where "MAP_FIXED = 0x10"
definition SEEK_SET :: int where "SEEK_SET = 0"

text \<open>The result is a pointer; errors are small negative numbers cast to one.\<close>

definition sys_mmap ::
    "'w host_os \<Rightarrow> u64 \<Rightarrow> u64 \<Rightarrow> u32 \<Rightarrow> u32 \<Rightarrow> int \<Rightarrow> u64 \<Rightarrow> 'w machine \<Rightarrow> stop + (u64 \<times> 'w machine)" where
  "sys_mmap os addr len prot flags fd offset vm =
     (if \<not> alignok addr then Inr (word_of_int (- EINVAL), vm)
      else if len = 0 then Inr (word_of_int (- EINVAL), vm)
      else if flags AND MAP_FIXED \<noteq> 0 \<and> addr \<noteq> 0 \<and> \<not> USER_MEM_RANGE_OK addr
        then Inr (word_of_int (- EINVAL), vm)
      else
        let addr = (if flags AND MAP_FIXED = 0 then 0 else addr); aligned_len = alignup_page len in
        bindE (mmap vm addr aligned_len (prot OR PROT_RW)) (\<lambda>(addr, vm).
        if addr = 0 then Inr (word_of_int (- ENOMEM), vm)
        else
          bindE (if 0 \<le> fd then
                   bindE (hp_lseek os fd (ucast offset) SEEK_SET vm) (\<lambda>(ret, vm).
                   if ret < 0 then Inr (Some ret, vm)
                   else bindE (hp_read os fd (translate vm addr True True) len vm) (\<lambda>(r, vm). Inr (None, vm)))
                 else Inr (None, vm))
            (\<lambda>(err, vm). case err of
               Some ret \<Rightarrow> Inr (word_of_int ret, vm)
             | None \<Rightarrow> let (r, vm) = mprotect vm addr aligned_len prot in Inr (addr, vm))))"

definition SYS_read :: u32 where "SYS_read = 0"
definition SYS_write :: u32 where "SYS_write = 1"
definition SYS_open :: u32 where "SYS_open = 2"
definition SYS_close :: u32 where "SYS_close = 3"
definition SYS_exit :: u32 where "SYS_exit = 60"

lemmas sys_nr_defs = SYS_read_def SYS_write_def SYS_open_def SYS_close_def SYS_exit_def

text \<open>
  The table has entries for five calls; any other number gives \<^verbatim>\<open>-ENOSYS\<close>.  The arguments are passed
  in 64-bit registers; an \<^verbatim>\<open>int\<close> parameter takes the low half.  A call that returns an \<^verbatim>\<open>int\<close> sets only
  \<^verbatim>\<open>eax\<close>, whose upper half is zero, where \<^verbatim>\<open>sys_read\<close> and \<^verbatim>\<open>sys_write\<close> return 64 bits.
\<close>

definition syscall_handler ::
    "'w host_os \<Rightarrow> u32 \<Rightarrow> u64 \<Rightarrow> u64 \<Rightarrow> u64 \<Rightarrow> 'w machine \<Rightarrow> stop + (u64 \<times> 'w machine)" where
  "syscall_handler os nr arg0 arg1 arg2 vm =
     (let int_arg = \<lambda>a. sint (ucast a :: u32);
          int64 = \<lambda>r. bindE r (\<lambda>(v, vm). Inr (word_of_int v, vm));
          int32 = \<lambda>r. bindE r (\<lambda>(v, vm). Inr (ucast (word_of_int v :: u32), vm))
      in if nr = SYS_read then int64 (sys_read os (int_arg arg0) arg1 arg2 vm)
         else if nr = SYS_write then int64 (sys_write os (int_arg arg0) arg1 arg2 vm)
         else if nr = SYS_open then int32 (sys_open os arg0 vm)
         else if nr = SYS_close then int32 (hp_close os (int_arg arg0) vm)
         else if nr = SYS_exit then int32 (sys_exit os (int_arg arg0) vm)
         else Inr (word_of_int (- ENOSYS), vm))"

end
