(* ===== verification/Execve.thy ===== *)
theory Execve
  imports Guest_Calls
begin

unbundle bit_operations_syntax

text \<open>
  \<^verbatim>\<open>kernel/syscalls/sys_execve.c\<close>, \<^verbatim>\<open>kernel/elf/elf.h\<close> and \<^verbatim>\<open>kernel/kernel_main.c\<close>: loading an ELF file,
  building the initial stack of the program, and the entry of the kernel.  The switch to user mode is
  a result value with the entry point and the stack pointer.
\<close>

section \<open>ELF headers\<close>

record Elf64_Ehdr =
  e_ident :: "u8 list"
  e_type :: u16
  e_entry :: u64
  e_phoff :: u64
  e_phentsize :: u16
  e_phnum :: u16

record Elf64_Phdr =
  p_type :: u32
  p_flags :: u32
  p_offset :: u64
  p_vaddr :: u64
  p_filesz :: u64
  p_memsz :: u64

definition ET_EXEC :: u16 where "ET_EXEC = 2"
definition ET_DYN :: u16 where "ET_DYN = 3"
definition PT_LOAD :: u32 where "PT_LOAD = 1"

text \<open>The fields the loader uses, at their offsets in the 64-byte and 56-byte headers.\<close>

definition ehdr_at :: "memory \<Rightarrow> u64 \<Rightarrow> Elf64_Ehdr" where
  "ehdr_at m p =
     \<lparr>e_ident = load_bytes m (dm p) 16, e_type = load16 m (dm (p + 16)), e_entry = kload64 m (p + 24),
      e_phoff = kload64 m (p + 32), e_phentsize = load16 m (dm (p + 54)), e_phnum = load16 m (dm (p + 56))\<rparr>"

definition phdr_at :: "memory \<Rightarrow> u64 \<Rightarrow> Elf64_Phdr" where
  "phdr_at m p =
     \<lparr>p_type = load32 m (dm p), p_flags = load32 m (dm (p + 4)), p_offset = kload64 m (p + 8),
      p_vaddr = kload64 m (p + 16), p_filesz = kload64 m (p + 32), p_memsz = kload64 m (p + 40)\<rparr>"

definition ELF_MAGIC :: "u8 list" where
  "ELF_MAGIC = [0x7f, 0x45, 0x4c, 0x46, 2, 1, 1, 0, 0, 0, 0, 0, 0, 0, 0, 0]"

record process =
  load_addr :: u64
  proc_entry :: u64
  stack_base :: u64
  stack_size :: u64
  proc_rsp :: u64

section \<open>Loading the binary\<close>

text \<open>The checks on the file header; \<open>Inl\<close> is the error the loader returns.\<close>

definition check_ehdr :: "Elf64_Ehdr \<Rightarrow> int + unit" where
  "check_ehdr e =
     (if e_ident e \<noteq> ELF_MAGIC then Inl (- ENOEXEC)
      else if e_type e \<noteq> ET_EXEC \<and> e_type e \<noteq> ET_DYN then Inl (- ENOEXEC)
      else if e_phoff e \<noteq> 64 then Inl (- EINVAL)
      else if e_phentsize e \<noteq> 56 then Inl (- EINVAL)
      else if 0x1000 < e_phoff e + ucast (e_phentsize e) * ucast (e_phnum e) then Inl (- EINVAL)
      else Inr ())"

text \<open>
  One loadable segment; \<open>Some e\<close> is an early \<^verbatim>\<open>return e\<close> of the loader.  The pointer of a failed
  \<^verbatim>\<open>sys_mmap\<close> is returned as an \<^verbatim>\<open>int\<close>, and the caller takes a result that is not negative for success.
\<close>

definition load_segment ::
    "'w host_os \<Rightarrow> int \<Rightarrow> u64 \<Rightarrow> Elf64_Phdr \<Rightarrow> 'w machine \<Rightarrow> stop + (int option \<times> 'w machine)" where
  "load_segment os fd base ph vm =
     (let sz = p_filesz ph;
          st = base + aligndown (p_vaddr ph);
          ed = base + alignup_page (p_vaddr ph + sz);
          prot = pf_to_prot (p_flags ph)
      in bindE (sys_mmap os st (sz + (p_offset ph AND 0xfff)) prot MAP_FIXED fd
                  (p_offset ph AND (- 0x1000)) vm) (\<lambda>(r, vm).
         if r \<noteq> st then Inr (Some (sint (ucast r :: u32)), vm)
         else if sz < p_memsz ph then
           let bss_ed = base + alignup_page (p_vaddr ph + p_memsz ph)
           in if bss_ed \<noteq> ed
              then bindE (mmap vm ed (bss_ed - ed) prot) (\<lambda>(r, vm).
                     if r \<noteq> ed then Inr (Some (- ENOMEM), vm) else Inr (None, vm))
              else Inr (None, vm)
         else Inr (None, vm)))"

text \<open>The loop over the program headers.\<close>

primrec load_segments ::
    "'w host_os \<Rightarrow> int \<Rightarrow> u64 \<Rightarrow> u64 \<Rightarrow> nat \<Rightarrow> 'w machine \<Rightarrow> stop + (int option \<times> 'w machine)" where
  "load_segments os fd base phdr 0 vm = Inr (None, vm)"
| "load_segments os fd base phdr (Suc n) vm =
     (let ph = phdr_at (kmem vm) phdr in
      if p_type ph = PT_LOAD then
        bindE (load_segment os fd base ph vm) (\<lambda>(r, vm). case r of
          Some e \<Rightarrow> Inr (Some e, vm)
        | None \<Rightarrow> load_segments os fd base (phdr + 56) n vm)
      else load_segments os fd base (phdr + 56) n vm)"

definition load_binary ::
    "'w host_os \<Rightarrow> int \<Rightarrow> process \<Rightarrow> 'w machine \<Rightarrow> stop + ((int \<times> process) \<times> 'w machine)" where
  "load_binary os fd p vm =
     bindE (kmalloc vm 0x1000 MALLOC_NO_ALIGN) (\<lambda>(buf, vm).
     bindE (physical buf) (\<lambda>pa.
     bindE (hp_read os fd pa 0x1000 vm) (\<lambda>(r, vm).
     let e = ehdr_at (kmem vm) buf in
     case check_ehdr e of
       Inl err \<Rightarrow> Inr ((err, p), vm)
     | Inr _ \<Rightarrow>
       let base = (if e_type e = ET_DYN then 0x0000555555554000 else 0);
           p = p\<lparr>proc_entry := e_entry e, load_addr := base\<rparr>
       in bindE (load_segments os fd base (buf + e_phoff e) (unat (e_phnum e)) vm) (\<lambda>(res, vm).
          case res of
            Some err \<Rightarrow> Inr ((err, p), vm)
          | None \<Rightarrow>
              let p = p\<lparr>stack_base := 0x00007ffffffff000, stack_size := 0x40000,
                        proc_rsp := 0x00007ffffffff000 - 0x1000\<rparr>;
                  st = stack_base p - stack_size p
              in bindE (mmap vm st (stack_size p) PROT_RW) (\<lambda>(r, vm).
                   if r \<noteq> st then Inr ((- ENOMEM, p), vm) else Inr ((0, p), vm))))))"

section \<open>The initial stack\<close>

text \<open>Words of user memory, as the kernel reads and writes them through the page tables.\<close>

definition user_load64 :: "'z kpaging_scheme \<Rightarrow> u64 \<Rightarrow> u64" where
  "user_load64 s a = le_word (vbytes (cpu_addr s) (kmem s) a 8)"

primrec user_store :: "(u64 \<Rightarrow> u64) \<Rightarrow> memory \<Rightarrow> u64 \<Rightarrow> u8 list \<Rightarrow> memory" where
  "user_store tr m a [] = m"
| "user_store tr m a (b # bs) = user_store tr (m(tr a := b)) (a + 1) bs"

definition user_store64 :: "'z kpaging_scheme \<Rightarrow> u64 \<Rightarrow> u64 \<Rightarrow> 'z kpaging_scheme" where
  "user_store64 s a v = s\<lparr>kmem := user_store (cpu_addr s) (kmem s) a (le_bytes 8 v)\<rparr>"

function get_count :: "'z kpaging_scheme \<Rightarrow> u64 \<Rightarrow> int \<Rightarrow> int" where
  "get_count s ary i =
     (if \<not> access_ok s VERIFY_READ ary 8 then - EFAULT
      else if user_load64 s ary = 0 then i
      else if \<not> access_string_ok s (user_load64 s ary) then - EFAULT
      else get_count s (ary + 8) (i + 1))"
  by pat_completeness auto

termination
proof (relation "measure (\<lambda>(s, ary, i). 2 ^ 48 - unat ary)", goal_cases)
  case (2 s ary i)
  have a: "unat ary < 2 ^ 48" using 2(1) access_ok_less by blast
  then have "unat (ary + 8) = unat ary + 8" by (simp add: unat_add_64)
  then show ?case using a by simp
qed simp

declare get_count.simps [simp del]

definition check_and_get_count :: "'z kpaging_scheme \<Rightarrow> u64 \<Rightarrow> int" where
  "check_and_get_count s ary = get_count s ary 0"

text \<open>
  The two loops that copy the strings onto the stack, for the indices \<open>n - 1\<close> down to 0 of the
  pointer array \<open>ary\<close>; slot \<open>base + i\<close> of \<open>copy\<close> receives the new address.
\<close>

primrec push_strings :: "u64 \<Rightarrow> u64 \<Rightarrow> nat \<Rightarrow> nat \<Rightarrow> u64 \<Rightarrow> 'z kpaging_scheme \<Rightarrow> u64 \<times> 'z kpaging_scheme" where
  "push_strings copy ary base 0 rsp s = (rsp, s)"
| "push_strings copy ary base (Suc i) rsp s =
     (let src = user_load64 s (ary + 8 * of_nat i);
          len = strlen (cpu_addr s) (kmem s) src + 1;
          rsp = rsp - len;
          s = s\<lparr>kmem := kstore64 (kmem s) (copy + 8 * of_nat (base + i)) rsp\<rparr>;
          s = s\<lparr>kmem := memcpy (cpu_addr s) (kmem s) rsp src len\<rparr>
      in push_strings copy ary base i rsp s)"

primrec push_pointers :: "u64 \<Rightarrow> nat \<Rightarrow> u64 \<Rightarrow> 'z kpaging_scheme \<Rightarrow> u64 \<times> 'z kpaging_scheme" where
  "push_pointers copy 0 rsp s = (rsp, s)"
| "push_pointers copy (Suc i) rsp s =
     push_pointers copy i (rsp - 8) (user_store64 s (rsp - 8) (kload64 (kmem s) (copy + 8 * of_nat i)))"

definition create_elf_info ::
    "process \<Rightarrow> u64 \<Rightarrow> u64 \<Rightarrow> 'z kpaging_scheme \<Rightarrow> stop + ((int \<times> process) \<times> 'z kpaging_scheme)" where
  "create_elf_info p argv envp s =
     (let argc = check_and_get_count s argv in
      if argc < 0 then Inr ((argc, p), s)
      else let envc = check_and_get_count s envp in
      if envc < 0 then Inr ((envc, p), s)
      else
        bindE (kmalloc s (word_of_int (argc + envc + 2) * 8) MALLOC_NO_ALIGN) (\<lambda>(copy, s).
        let (rsp, s) = push_strings copy envp (nat argc + 1) (nat envc) (proc_rsp p) s;
            (rsp, s) = push_strings copy argv 0 (nat argc) rsp s;
            rsp = rsp AND (- 0x10);
            rsp = (if odd (argc + 1 + envc + 1 + 1) then rsp - 8 else rsp);
            (rsp, s) = push_pointers copy (nat (argc + envc + 2)) rsp s
        in bindE (kfree s copy) (\<lambda>s.
           let rsp = rsp - 8
           in Inr ((0, p\<lparr>proc_rsp := rsp\<rparr>), user_store64 s rsp (word_of_int argc)))))"

section \<open>Starting the program\<close>

datatype exec_result = Exec_error int | Enter_user u64 u64

definition sys_execve ::
    "'w host_os \<Rightarrow> process \<Rightarrow> u64 \<Rightarrow> u64 \<Rightarrow> u64 \<Rightarrow> 'w machine \<Rightarrow> stop + (exec_result \<times> 'w machine)" where
  "sys_execve os p0 path argv envp vm =
     bindE (sys_open os path vm) (\<lambda>(fd, vm).
     if fd < 0 then Inr (Exec_error fd, vm)
     else bindE (load_binary os fd p0 vm) (\<lambda>((ret, p), vm).
     if ret < 0 then Inr (Exec_error ret, vm)
     else bindE (hp_close os fd vm) (\<lambda>(r, vm).
     bindE (create_elf_info p argv envp vm) (\<lambda>((err, p), vm).
     if err \<noteq> 0 then Inr (Exec_error (- EFAULT), vm)
     else Inr (Enter_user (proc_entry p + load_addr p) (proc_rsp p), vm)))))"

text \<open>
  \<^verbatim>\<open>switch_user\<close> runs on the stack the hypervisor prepared, below two megabytes, where virtual and
  physical addresses agree.
\<close>

primrec relocate_argv :: "memory \<Rightarrow> u64 \<Rightarrow> u64 \<Rightarrow> nat \<Rightarrow> memory" where
  "relocate_argv m argv sp 0 = m"
| "relocate_argv m argv sp (Suc i) =
     (let m = relocate_argv m argv sp i; a = argv + 8 * of_nat i
      in kstore64 m a (kload64 m a - argv + sp))"

definition switch_user ::
    "'w host_os \<Rightarrow> process \<Rightarrow> u64 \<Rightarrow> u64 \<Rightarrow> 'w machine \<Rightarrow> stop + (exec_result \<times> 'w machine)" where
  "switch_user os p0 argc argv vm =
     (let last_arg = kload64 (kmem vm) (argv + 8 * (argc - 1));
          total_len = (scast (ucast (last_arg + strlen (cpu_addr vm) (kmem vm) last_arg + 1 - argv) :: u32) :: u64)
      in bindE (kmalloc vm total_len MALLOC_PAGE_ALIGN) (\<lambda>(s, vm).
         bindE (physical s) (\<lambda>sp.
         bindE (add_trans_user vm sp sp PROT_RW) (\<lambda>vm.
         let vm = vm\<lparr>kmem := relocate_argv (kmem vm) argv sp (unat argc)\<rparr>;
             vm = vm\<lparr>kmem := memcpy (cpu_addr vm) (kmem vm) s argv total_len\<rparr>
         in sys_execve os p0 (kload64 (kmem vm) argv) sp (sp + argc * 8) vm))))"

definition kernel_main ::
    "'w host_os \<Rightarrow> process \<Rightarrow> u64 \<Rightarrow> u64 \<Rightarrow> u64 \<Rightarrow> u64 \<Rightarrow> 'w machine \<Rightarrow> stop + (exec_result \<times> 'w machine)" where
  "kernel_main os p0 addr len argc argv vm =
     (let vm = init_pagetable vm in
      bindE (init_allocator vm (addr OR KERNEL_BASE_OFFSET) len) (\<lambda>vm. switch_user os p0 argc argv vm))"

end
