(* ===== verification/Hypervisor.thy ===== *)
theory Hypervisor
  imports Guest_Calls
begin

unbundle bit_operations_syntax

text \<open>
  \<^verbatim>\<open>hypervisor/hypervisor.c\<close>: setting up the virtual machine and running it.  The KVM device, the
  vCPU registers and the C library files are parameters over the world; a call that fails ends the
  run as \<^verbatim>\<open>pexit\<close> does.  Guest memory comes from an anonymous mapping and so starts as zeros.
\<close>

section \<open>Layout\<close>

definition PS_LIMIT :: u64 where "PS_LIMIT = 0x200000"
definition KERNEL_STACK_SIZE :: u64 where "KERNEL_STACK_SIZE = 0x4000"
definition PAGE_TABLE_SIZE :: u64 where "PAGE_TABLE_SIZE = 0x5000"
definition MAX_KERNEL_SIZE :: u64 where "MAX_KERNEL_SIZE = PS_LIMIT - PAGE_TABLE_SIZE - KERNEL_STACK_SIZE"
definition MEM_SIZE :: u64 where "MEM_SIZE = PS_LIMIT * 0x2"

lemmas layout_defs = PS_LIMIT_def KERNEL_STACK_SIZE_def PAGE_TABLE_SIZE_def MAX_KERNEL_SIZE_def MEM_SIZE_def

section \<open>KVM\<close>

record kvm_regs =
  rip :: u64
  rsp :: u64
  rdi :: u64
  rsi :: u64
  rflags :: u64
  other_regs :: "u64 list"

record kvm_segment =
  seg_base :: u64
  seg_limit :: u32
  seg_selector :: u16
  seg_present :: u8
  seg_type :: u8
  seg_dpl :: u8
  seg_db :: u8
  seg_s :: u8
  seg_l :: u8
  seg_g :: u8

record kvm_sregs =
  sr_cs :: kvm_segment
  sr_ds :: kvm_segment
  sr_es :: kvm_segment
  sr_fs :: kvm_segment
  sr_gs :: kvm_segment
  sr_ss :: kvm_segment
  sr_cr0 :: u64
  sr_cr3 :: u64
  sr_cr4 :: u64
  sr_efer :: u64

datatype kvm_exit =
    EXIT_HLT
  | EXIT_IO u16 bool u32
  | EXIT_FAIL_ENTRY
  | EXIT_INTERNAL_ERROR
  | EXIT_SHUTDOWN
  | EXIT_OTHER

text \<open>
  \<open>kvm_run\<close> enters the guest with the 32 bits of the I/O data area and comes back with the reason of
  the exit; for a port access that is the port, whether it is an \<^verbatim>\<open>out\<close>, and the data.
\<close>

record 'w kvm_api =
  get_regs :: "'w \<Rightarrow> (int \<times> kvm_regs) \<times> 'w"
  set_regs :: "kvm_regs \<Rightarrow> 'w \<Rightarrow> int \<times> 'w"
  get_sregs :: "'w \<Rightarrow> (int \<times> kvm_sregs) \<times> 'w"
  set_sregs :: "kvm_sregs \<Rightarrow> 'w \<Rightarrow> int \<times> 'w"
  kvm_run :: "u32 \<Rightarrow> 'w machine \<Rightarrow> kvm_exit \<times> 'w machine"
  open_kvm :: "'w \<Rightarrow> int \<times> 'w"
  api_version :: "'w \<Rightarrow> int \<times> 'w"
  create_vm :: "'w \<Rightarrow> int \<times> 'w"
  mmap_memory :: "u64 \<Rightarrow> 'w \<Rightarrow> u64 \<times> 'w"
  set_memory_region :: "'w \<Rightarrow> int \<times> 'w"
  create_vcpu :: "'w \<Rightarrow> int \<times> 'w"
  vcpu_mmap_size :: "'w \<Rightarrow> int \<times> 'w"
  mmap_run :: "int \<Rightarrow> 'w \<Rightarrow> u64 \<times> 'w"

definition pexit :: "string \<Rightarrow> int \<times> 'w \<Rightarrow> stop + (int \<times> 'w)" where
  "pexit msg r = (if fst r < 0 then Inl (Host_error msg) else Inr r)"

definition fetch_regs :: "'w kvm_api \<Rightarrow> 'w \<Rightarrow> stop + (kvm_regs \<times> 'w)" where
  "fetch_regs kvm w =
     (let ((r, regs), w) = get_regs kvm w
      in if r < 0 then Inl (Host_error ''ioctl(KVM_GET_REGS)'') else Inr (regs, w))"

definition fetch_sregs :: "'w kvm_api \<Rightarrow> 'w \<Rightarrow> stop + (kvm_sregs \<times> 'w)" where
  "fetch_sregs kvm w =
     (let ((r, sregs), w) = get_sregs kvm w
      in if r < 0 then Inl (Host_error ''ioctl(KVM_GET_SREGS)'') else Inr (sregs, w))"

definition store_regs :: "'w kvm_api \<Rightarrow> kvm_regs \<Rightarrow> 'w machine \<Rightarrow> stop + 'w machine" where
  "store_regs kvm regs vm =
     bindE (pexit ''ioctl(KVM_SET_REGS)'' (set_regs kvm regs (world vm))) (\<lambda>(r, w). Inr (vm\<lparr>world := w\<rparr>))"

definition store_sregs :: "'w kvm_api \<Rightarrow> kvm_sregs \<Rightarrow> 'w machine \<Rightarrow> stop + 'w machine" where
  "store_sregs kvm sregs vm =
     bindE (pexit ''ioctl(KVM_SET_SREGS)'' (set_sregs kvm sregs (world vm))) (\<lambda>(r, w). Inr (vm\<lparr>world := w\<rparr>))"

section \<open>Setting up the machine\<close>

definition setup_regs :: "'w kvm_api \<Rightarrow> u64 \<Rightarrow> 'w machine \<Rightarrow> stop + 'w machine" where
  "setup_regs kvm entry vm =
     bindE (fetch_regs kvm (world vm)) (\<lambda>(regs, w).
     store_regs kvm (regs\<lparr>rip := entry, rsp := PS_LIMIT, rdi := PS_LIMIT, rsi := MEM_SIZE - PS_LIMIT,
                          rflags := 0x2\<rparr>) (vm\<lparr>world := w\<rparr>))"

definition CR0_boot :: u64 where
  "CR0_boot = 1 OR push_bit 1 1 OR push_bit 4 1 OR push_bit 5 1 OR push_bit 16 1 OR push_bit 18 1 OR push_bit 31 1"
definition CR4_boot :: u64 where "CR4_boot = push_bit 5 1 OR push_bit 9 1 OR push_bit 10 1"
definition EFER_boot :: u64 where "EFER_boot = push_bit 8 1 OR push_bit 10 1 OR 1"

text \<open>The three tables of the boot mapping; the second page of the pair is where \<^verbatim>\<open>init_pagetable\<close> goes on.\<close>

definition boot_tables :: "memory \<Rightarrow> memory" where
  "boot_tables m =
     (let pml4_addr = MAX_KERNEL_SIZE; pdp_addr = pml4_addr + 0x1000; pd_addr = pdp_addr + 0x1000;
          m = store64 m pml4_addr (PDE64_PRESENT OR PDE64_RW OR PDE64_USER OR pdp_addr);
          m = store64 m pdp_addr (PDE64_PRESENT OR PDE64_RW OR PDE64_USER OR pd_addr)
      in store64 m pd_addr (PDE64_PRESENT OR PDE64_RW OR PDE64_PS))"

definition setup_paging :: "'w kvm_api \<Rightarrow> 'w machine \<Rightarrow> stop + 'w machine" where
  "setup_paging kvm vm =
     bindE (fetch_sregs kvm (world vm)) (\<lambda>(sregs, w).
     store_sregs kvm (sregs\<lparr>sr_cr3 := MAX_KERNEL_SIZE, sr_cr4 := CR4_boot, sr_cr0 := CR0_boot,
                            sr_efer := EFER_boot\<rparr>)
       (vm\<lparr>world := w, kmem := boot_tables (kmem vm), cr3 := MAX_KERNEL_SIZE\<rparr>))"

definition boot_cs :: kvm_segment where
  "boot_cs = \<lparr>seg_base = 0, seg_limit = 0xffffffff, seg_selector = push_bit 3 1, seg_present = 1,
     seg_type = 0xb, seg_dpl = 0, seg_db = 0, seg_s = 1, seg_l = 1, seg_g = 1\<rparr>"

definition setup_seg_regs :: "'w kvm_api \<Rightarrow> 'w machine \<Rightarrow> stop + 'w machine" where
  "setup_seg_regs kvm vm =
     bindE (fetch_sregs kvm (world vm)) (\<lambda>(sregs, w).
     let data = boot_cs\<lparr>seg_type := 0x3, seg_selector := push_bit 3 2\<rparr>
     in store_sregs kvm (sregs\<lparr>sr_cs := boot_cs, sr_ds := data, sr_es := data, sr_fs := data, sr_gs := data,
                               sr_ss := data\<rparr>) (vm\<lparr>world := w\<rparr>))"

definition setup_long_mode :: "'w kvm_api \<Rightarrow> 'w machine \<Rightarrow> stop + 'w machine" where
  "setup_long_mode kvm vm = bindE (setup_paging kvm vm) (setup_seg_regs kvm)"

definition KVM_API_VERSION :: int where "KVM_API_VERSION = 12"

definition fresh_machine :: "u8 list \<Rightarrow> 'w \<Rightarrow> 'w machine" where
  "fresh_machine code w =
     \<lparr>kmem = store_bytes (\<lambda>_. 0) 0 code, arena_top = 0, arena_top_size = 0, arena_min_addr = 0,
      sorted_bin_next = 0, cr3 = 0, last_mmapped = -1, mem_size = MEM_SIZE,
      fd_map = replicate (MAX_FD + 1) \<lparr>real_fd = 0, is_open = False\<rparr>, fd_map_init = False,
      open_ret = UNUSED_VAR, rw_ret = UNUSED_VAR, close_ret = UNUSED_VAR, lseek_ret = UNUSED_VAR, world = w\<rparr>"

text \<open>
  Guest memory is checked against the null pointer, which is not how \<^verbatim>\<open>mmap\<close> reports a failure; copying the
  kernel to \<^verbatim>\<open>MAP_FAILED\<close> then leaves the model.  The size and the address of the run structure are not
  checked; the structure is what \<open>kvm_run\<close> stands for.
\<close>

definition kvm_init :: "'w kvm_api \<Rightarrow> u8 list \<Rightarrow> 'w \<Rightarrow> stop + 'w machine" where
  "kvm_init kvm code w =
     bindE (pexit ''open(/dev/kvm)'' (open_kvm kvm w)) (\<lambda>(_, w).
     bindE (pexit ''KVM_GET_API_VERSION'' (api_version kvm w)) (\<lambda>(ver, w).
     if ver \<noteq> KVM_API_VERSION then Inl (Host_error ''Got KVM api version'')
     else bindE (pexit ''ioctl(KVM_CREATE_VM)'' (create_vm kvm w)) (\<lambda>(_, w).
     let (mem, w) = mmap_memory kvm MEM_SIZE w in
     if mem = 0 then Inl (Host_error ''mmap(MEM_SIZE)'')
     else if mem = -1 \<and> code \<noteq> [] then Inl (Undefined ''hypervisor.c#kvm_init: memcpy to MAP_FAILED'')
     else bindE (pexit ''ioctl(KVM_SET_USER_MEMORY_REGION)'' (set_memory_region kvm w)) (\<lambda>(_, w).
     bindE (pexit ''ioctl(KVM_CREATE_VCPU)'' (create_vcpu kvm w)) (\<lambda>(_, w).
     let (vcpu_size, w) = vcpu_mmap_size kvm w; (run, w) = mmap_run kvm vcpu_size w in
     bindE (setup_regs kvm 0 (fresh_machine code w)) (setup_long_mode kvm))))))"

section \<open>Running the machine\<close>

definition check_iopl :: "'w kvm_api \<Rightarrow> 'w machine \<Rightarrow> stop + (bool \<times> 'w machine)" where
  "check_iopl kvm vm =
     bindE (fetch_regs kvm (world vm)) (\<lambda>(regs, w).
     bindE (fetch_sregs kvm w) (\<lambda>(sregs, w).
     Inr (ucast (seg_dpl (sr_cs sregs)) \<le> ((drop_bit 12 (rflags regs)) AND 3), vm\<lparr>world := w\<rparr>)))"

text \<open>One exit of the guest: \<open>None\<close> leaves the loop, \<open>Some\<close> goes on with the new I/O data.\<close>

definition handle_exit ::
    "'w host_os \<Rightarrow> 'w kvm_api \<Rightarrow> kvm_exit \<Rightarrow> 'w machine \<Rightarrow> stop + (u32 option \<times> 'w machine)" where
  "handle_exit os kvm reason vm =
     (case reason of
        EXIT_HLT \<Rightarrow> Inr (None, vm)
      | EXIT_IO port out data \<Rightarrow>
          bindE (check_iopl kvm vm) (\<lambda>(allowed, vm).
          if \<not> allowed then Inl (Host_error ''KVM_EXIT_SHUTDOWN'')
          else if port AND HP_NR_MARK \<noteq> 0 then
            bindE (hp_handler os port out data vm) (\<lambda>(r, data, vm).
            if r < 0 then Inl (Host_error ''Hypercall failed'') else Inr (Some data, vm))
          else Inl (Host_error ''Unhandled I/O port''))
      | EXIT_FAIL_ENTRY \<Rightarrow> Inl (Host_error ''KVM_EXIT_FAIL_ENTRY'')
      | EXIT_INTERNAL_ERROR \<Rightarrow> Inl (Host_error ''KVM_EXIT_INTERNAL_ERROR'')
      | EXIT_SHUTDOWN \<Rightarrow> Inl (Host_error ''KVM_EXIT_SHUTDOWN'')
      | EXIT_OTHER \<Rightarrow> Inl (Host_error ''Unhandled reason''))"

partial_function (option) execute_loop ::
    "'w host_os \<Rightarrow> 'w kvm_api \<Rightarrow> u32 \<Rightarrow> 'w machine \<Rightarrow> (stop + 'w machine) option" where
  "execute_loop os kvm data vm =
     (let (reason, vm) = kvm_run kvm data vm in
      case handle_exit os kvm reason vm of
        Inl e \<Rightarrow> Some (Inl e)
      | Inr (None, vm) \<Rightarrow> Some (Inr vm)
      | Inr (Some data, vm) \<Rightarrow> execute_loop os kvm data vm)"

definition execute :: "'w host_os \<Rightarrow> 'w kvm_api \<Rightarrow> 'w machine \<Rightarrow> stop + 'w machine" where
  "execute os kvm vm = (case execute_loop os kvm 0 vm of None \<Rightarrow> Inl Diverge | Some r \<Rightarrow> r)"

section \<open>Arguments of the kernel\<close>

text \<open>
  The strings go below the stack pointer, the last one highest, then the stack is aligned and the
  null-terminated array of pointers and the count follow.
\<close>

fun push_args :: "memory \<Rightarrow> u64 \<Rightarrow> u8 list list \<Rightarrow> u64 list \<times> u64 \<times> memory" where
  "push_args m sp [] = ([], sp, m)"
| "push_args m sp (a # as) =
     (let (ptrs, sp, m) = push_args m sp as;
          sp = sp - of_nat (length a + 1)
      in (sp # ptrs, sp, store_bytes m sp (a @ [0])))"

fun push_words :: "memory \<Rightarrow> u64 \<Rightarrow> u64 list \<Rightarrow> u64 \<times> memory" where
  "push_words m sp [] = (sp, m)"
| "push_words m sp (v # vs) =
     (let (sp, m) = push_words m sp vs; sp = sp - 8 in (sp, store64 m sp v))"

definition args_layout :: "memory \<Rightarrow> u64 \<Rightarrow> u8 list list \<Rightarrow> u64 \<times> memory" where
  "args_layout m sp args =
     (let (ptrs, sp, m) = push_args m sp args;
          sp = sp AND (- 0x10)
      in push_words m sp (of_nat (length args) # ptrs @ [0]))"

definition copy_argv :: "'w kvm_api \<Rightarrow> u8 list list \<Rightarrow> 'w machine \<Rightarrow> stop + 'w machine" where
  "copy_argv kvm args vm =
     bindE (fetch_regs kvm (world vm)) (\<lambda>(regs, w).
     let (sp, m) = args_layout (kmem vm) (rsp regs) args
     in store_regs kvm (regs\<lparr>rsp := sp\<rparr>) (vm\<lparr>world := w, kmem := m\<rparr>))"

section \<open>Reading the kernel and starting\<close>

record 'w stdio =
  f_open :: "u8 list \<Rightarrow> 'w \<Rightarrow> bool \<times> 'w"
  f_seek_end :: "'w \<Rightarrow> int \<times> 'w"
  f_tell :: "'w \<Rightarrow> u64 \<times> 'w"
  f_seek_set :: "'w \<Rightarrow> int \<times> 'w"
  malloc_ok :: "u64 \<Rightarrow> 'w \<Rightarrow> bool \<times> 'w"
  f_read :: "u64 \<Rightarrow> 'w \<Rightarrow> u8 list \<times> 'w"

definition read_file :: "'w stdio \<Rightarrow> u8 list \<Rightarrow> 'w \<Rightarrow> stop + (u8 list \<times> 'w)" where
  "read_file io filename w =
     (let (ok, w) = f_open io filename w in
      if \<not> ok then Inl (Host_error ''Open file failed'')
      else bindE (pexit ''fseek(SEEK_END)'' (f_seek_end io w)) (\<lambda>(_, w).
        let (size, w) = f_tell io w in
        if size = 0 then Inl (Host_error ''Empty file'')
        else bindE (pexit ''fseek(SEEK_SET)'' (f_seek_set io w)) (\<lambda>(_, w).
          let (ok, w) = malloc_ok io size w in
          if \<not> ok then Inl (Host_error ''read_file: Cannot allocate memory'')
          else let (content, w) = f_read io size w in
            if length content \<noteq> unat size then Inl (Host_error ''read_file: Unexpected EOF'')
            else Inr (content, w))))"

definition main ::
    "'w stdio \<Rightarrow> 'w host_os \<Rightarrow> 'w kvm_api \<Rightarrow> u8 list list \<Rightarrow> 'w \<Rightarrow> stop + 'w machine" where
  "main io os kvm argv w =
     (if length argv < 3 then Inl (Exited 1)
      else bindE (read_file io (argv ! 1) w) (\<lambda>(code, w).
        if unat MAX_KERNEL_SIZE < length code then Inl (Host_error ''Kernel size exceeded'')
        else bindE (kvm_init kvm code w) (\<lambda>vm.
             bindE (copy_argv kvm (drop 2 argv) vm) (execute os kvm))))"

end
