(* ===== verification/Boot.thy ===== *)
theory Boot
  imports Translate_Inv Execve Hypervisor
begin

unbundle bit_operations_syntax

text \<open>
  From \<^verbatim>\<open>kvm_init\<close> of \<^verbatim>\<open>hypervisor/hypervisor.c\<close> to the first steps of \<^verbatim>\<open>kernel_main\<close>: the tables the
  hypervisor prepares and those \<^verbatim>\<open>init_pagetable\<close> adds establish the invariants of the page tables
  and of the allocator, and map the kernel window linearly.
\<close>

section \<open>Words of low memory\<close>

lemma sep_nat:
  assumes "a + 8 \<le> b \<or> b + 8 \<le> a" "a < 2 ^ 40" "b < 2 ^ 40"
  shows "sep (of_nat a) 8 (of_nat b) 8"
  using assms by (auto intro: sep_intros)

lemma load64_store64_nat:
  "a + 8 \<le> b \<or> b + 8 \<le> a \<Longrightarrow> a < 2 ^ 40 \<Longrightarrow> b < 2 ^ 40 \<Longrightarrow>
    load64 (store64 m (of_nat a) v) (of_nat b) = load64 m (of_nat b)"
  by (rule load64_store64_sep) (rule sep_nat)

text \<open>Entry \<open>i\<close> of the table at \<open>t\<close>, by its physical address.\<close>

definition word_at :: "memory \<Rightarrow> nat \<Rightarrow> nat \<Rightarrow> u64" where
  "word_at m t i = load64 m (of_nat (t + 8 * i))"

definition set_word :: "memory \<Rightarrow> nat \<Rightarrow> nat \<Rightarrow> u64 \<Rightarrow> memory" where
  "set_word m t i v = store64 m (of_nat (t + 8 * i)) v"

lemma word_at_set_word:
  assumes "t mod 0x1000 = 0" "t' mod 0x1000 = 0" "i < 512" "j < 512" "t < 2 ^ 39" "t' < 2 ^ 39"
  shows "word_at (set_word m t i v) t' j = (if t = t' \<and> i = j then v else word_at m t' j)"
proof (cases "t = t' \<and> i = j")
  case False
  have "t + 8 * i + 8 \<le> t' + 8 * j \<or> t' + 8 * j + 8 \<le> t + 8 * i"
  proof (cases "t = t'")
    case True
    with False show ?thesis by auto
  next
    case neq: False
    obtain q q' where q: "t = 0x1000 * q" "t' = 0x1000 * q'" using assms(1,2) by (auto elim!: dvdE simp: mod_eq_0_iff_dvd)
    then have "q < q' \<or> q' < q" using neq by auto
    then have "t + 0x1000 \<le> t' \<or> t' + 0x1000 \<le> t" using q by auto
    then show ?thesis using assms(3,4) by auto
  qed
  then have "word_at (set_word m t i v) t' j = word_at m t' j"
    unfolding word_at_def set_word_def using assms by (intro load64_store64_nat) simp_all
  then show ?thesis using False by auto
qed (simp add: word_at_def set_word_def)

lemma word_at_fill_pd:
  assumes "t mod 0x1000 = 0" "pd mod 0x1000 = 0" "n \<le> 512" "j < 512" "t < 2 ^ 39" "pd < 2 ^ 39"
  shows "word_at (fill_pd m (of_nat pd) n) t j =
    (if t = pd \<and> j < n then PDE64_PRESENT OR PDE64_RW OR PDE64_PS OR (of_nat j * KERNEL_PAGING_SIZE) else word_at m t j)"
  using assms(3)
proof (induction n)
  case (Suc n)
  have "fill_pd m (of_nat pd) (Suc n) = set_word (fill_pd m (of_nat pd) n) pd n
      (PDE64_PRESENT OR PDE64_RW OR PDE64_PS OR (of_nat n * KERNEL_PAGING_SIZE))"
    by (simp add: set_word_def)
  then show ?case using Suc assms by (auto simp: word_at_set_word)
qed simp

section \<open>The tables at the start\<close>

text \<open>
  What the hypervisor leaves in the five pages of the tables: the first entries of the first three,
  zeros everywhere else.
\<close>

definition boot_words :: "memory \<Rightarrow> bool" where
  "boot_words m \<longleftrightarrow>
     (\<forall>i < 512. word_at m 0x1f7000 i = (if i = 0 then user_entry 0x1f8000 else 0)) \<and>
     (\<forall>i < 512. word_at m 0x1f8000 i = (if i = 0 then user_entry 0x1f9000 else 0)) \<and>
     (\<forall>i < 512. word_at m 0x1f9000 i = (if i = 0 then PDE64_PRESENT OR PDE64_RW OR PDE64_PS else 0))"

lemma layout_values:
  "MAX_KERNEL_SIZE = 0x1f7000" "PS_LIMIT = 0x200000" "MEM_SIZE - PS_LIMIT = 0x200000" "MEM_SIZE = 0x400000"
  by (simp_all add: layout_defs)

lemma boot_tables_words:
  assumes "\<And>t i. t \<in> {0x1f7000, 0x1f8000, 0x1f9000} \<Longrightarrow> i < 512 \<Longrightarrow> word_at m t i = 0"
  shows "boot_words (boot_tables m)"
proof -
  have "boot_tables m = set_word (set_word (set_word m 0x1f7000 0 (user_entry 0x1f8000)) 0x1f8000 0 (user_entry 0x1f9000))
      0x1f9000 0 (PDE64_PRESENT OR PDE64_RW OR PDE64_PS)"
    by (simp add: boot_tables_def set_word_def layout_values user_entry_def)
  then show ?thesis using assms by (auto simp: boot_words_def word_at_set_word)
qed

lemma word_at_low_code:
  assumes "length code \<le> t" "t + 8 * i < 2 ^ 39"
  shows "word_at (store_bytes (\<lambda>_. 0) 0 code) t i = 0"
proof -
  have "store_bytes (\<lambda>_. 0) 0 code (of_nat (t + 8 * i) + of_nat k) = 0" if "k < 8" for k
  proof -
    have "unat (of_nat (t + 8 * i + k) :: u64) = t + 8 * i + k"
      using assms(2) that by (intro unat_of_nat_64) simp
    then have "length code \<le> unat (of_nat (t + 8 * i) + of_nat k - 0 :: u64)" using assms(1) by simp
    then show ?thesis using assms unfolding diff_0_right
      by (subst store_bytes_apply) (simp_all del: of_nat_add of_nat_mult)
  qed
  then have "load_bytes (store_bytes (\<lambda>_. 0) 0 code) (of_nat (t + 8 * i)) 8 = replicate 8 0"
    by (intro nth_equalityI) (simp_all add: nth_load_bytes)
  then show ?thesis by (simp add: word_at_def load64_def le_word_replicate_0 del: load_bytes.simps replicate.simps)
qed

lemma bit_low_nat: "t < 2 ^ 39 \<Longrightarrow> \<not> bit (of_nat t :: u64) 39"
  by (simp add: bit_of_nat_iff bit_iff_odd [of t])

lemma window_or: "t < 2 ^ 39 \<Longrightarrow> of_nat t OR KERNEL_BASE_OFFSET = of_nat t + KERNEL_BASE_OFFSET"
proof -
  assume t: "t < 2 ^ 39"
  have "of_nat t AND KERNEL_BASE_OFFSET = 0"
    using bit_low_nat [OF t] by (intro bit_eqI) (auto simp: bit_and_iff bit_window)
  then show ?thesis using word_plus_and_or [of "of_nat t" KERNEL_BASE_OFFSET] by simp
qed

lemma kptr_window: "t < 2 ^ 39 \<Longrightarrow> kptr (of_nat t + KERNEL_BASE_OFFSET)"
  and unat_window: "t < 2 ^ 39 \<Longrightarrow> unat (of_nat t + KERNEL_BASE_OFFSET) = t + 2 ^ 39"
proof -
  assume t: "t < 2 ^ 39"
  have "unat (of_nat t + KERNEL_BASE_OFFSET) = unat (of_nat t :: u64) + unat KERNEL_BASE_OFFSET"
    using t by (intro unat_add_64) (simp add: KERNEL_BASE_OFFSET_def)
  then show "unat (of_nat t + KERNEL_BASE_OFFSET) = t + 2 ^ 39" using t by (simp add: KERNEL_BASE_OFFSET_def)
  then show "kptr (of_nat t + KERNEL_BASE_OFFSET)" using t by (simp add: kptr_def)
qed

lemma dm_window: "t < 2 ^ 39 \<Longrightarrow> dm (of_nat t + KERNEL_BASE_OFFSET) = of_nat t"
  by (simp add: dm_kptr kptr_window) (simp add: KERNEL_BASE_OFFSET_def)

lemma kload64_window: "t + 8 * i < 2 ^ 39 \<Longrightarrow> kload64 m ((of_nat t OR KERNEL_BASE_OFFSET) + 8 * of_nat i) = word_at m t i"
proof -
  assume a: "t + 8 * i < 2 ^ 39"
  have "(of_nat t OR KERNEL_BASE_OFFSET) + 8 * of_nat i = of_nat (t + 8 * i) + KERNEL_BASE_OFFSET"
    using a by (simp add: window_or)
  then show ?thesis unfolding kload64_def word_at_def using dm_window [OF a] by (simp only:)
qed

lemma entry_word: "t + 8 * i < 2 ^ 39 \<Longrightarrow> entry m (of_nat t) (of_nat i) = word_at m t i"
  by (simp add: entry_def kload64_window)

lemma tbl_window: "t < 2 ^ 39 \<Longrightarrow> unat (fst (tbl (of_nat t))) = t + 2 ^ 39" "snd (tbl u) = 0x1000"
  by (simp_all add: tbl_def window_or unat_window)

text \<open>The tree of tables for user addresses that the kernel starts with.\<close>

definition boot_tab :: tables where
  "boot_tab = [[] \<mapsto> 0x1f7000, [0] \<mapsto> 0x1f8000, [0, 0] \<mapsto> 0x1f9000]"

lemma boot_tab_Some:
  "boot_tab p = Some t \<longleftrightarrow> p = [] \<and> t = 0x1f7000 \<or> p = [0] \<and> t = 0x1f8000 \<or> p = [0, 0] \<and> t = 0x1f9000"
  by (auto simp: boot_tab_def)

lemma init_pagetable_words:
  assumes "cr3 s = 0x1f7000"
  shows "kmem (init_pagetable s) =
      fill_pd (set_word (set_word (kmem s) 0x1f7000 1 (PDE64_PRESENT OR PDE64_RW OR 0x1fa000)) 0x1fa000 0
        (PDE64_PRESENT OR PDE64_RW OR 0x1fb000)) (of_nat 0x1fb000) 0x200"
  using assms by (simp add: init_pagetable_def set_word_def Let_def)

lemma init_pagetable_word_at:
  assumes "cr3 s = 0x1f7000" "t \<in> {0x1f7000, 0x1f8000, 0x1f9000, 0x1fa000, 0x1fb000}" "i < 512"
  shows "word_at (kmem (init_pagetable s)) t i =
    (if t = 0x1fb000 then PDE64_PRESENT OR PDE64_RW OR PDE64_PS OR (of_nat i * KERNEL_PAGING_SIZE)
     else if t = 0x1fa000 \<and> i = 0 then PDE64_PRESENT OR PDE64_RW OR 0x1fb000
     else if t = 0x1f7000 \<and> i = 1 then PDE64_PRESENT OR PDE64_RW OR 0x1fa000
     else word_at (kmem s) t i)"
  unfolding init_pagetable_words [OF assms(1)]
  using assms(2,3) by (subst word_at_fill_pd) (auto simp: word_at_set_word)

lemma boot_pt_ok:
  assumes "boot_words (kmem s)" "cr3 s = 0x1f7000"
  shows "pt_ok (kmem (init_pagetable s)) boot_tab"
proof -
  let ?m = "kmem (init_pagetable s)"
  have e: "entry ?m (of_nat t) i = word_at ?m t (unat i)" if "t < 2 ^ 38" "unat i < 512" for t i
    using entry_word [of t "unat i" ?m] that by simp
  have w: "word_at ?m t i = (if t = 0x1f7000 \<and> i = 1 then PDE64_PRESENT OR PDE64_RW OR 0x1fa000 else word_at (kmem s) t i)"
    if "t \<in> {0x1f7000, 0x1f8000, 0x1f9000}" "i < 512" for t i
    using init_pagetable_word_at [OF assms(2), of t i] that by auto
  have entries: "case boot_tab (p @ [i]) of None \<Rightarrow> entry ?m t i AND PDE64_PRESENT = 0 | Some u \<Rightarrow> entry ?m t i = user_entry u"
    if pt: "boot_tab p = Some t" "unat i < 512" "\<not> reserved p i" for p t i
  proof -
    have z: "unat i = 0 \<longleftrightarrow> i = 0" "unat i = 1 \<longleftrightarrow> i = 1" by (auto simp: word_unat_eq_iff [of i])
    consider "p = []" "t = 0x1f7000" | "p = [0]" "t = 0x1f8000" | "p = [0, 0]" "t = 0x1f9000"
      using pt(1) by (auto simp: boot_tab_Some)
    then show ?thesis
    proof cases
      case 1
      then show ?thesis using e [where t = "0x1f7000" and i = i] w [where t = "0x1f7000" and i = "unat i"] that assms(1) z
        by (auto simp: boot_words_def boot_tab_def reserved_def)
    next
      case 2
      then show ?thesis using e [where t = "0x1f8000" and i = i] w [where t = "0x1f8000" and i = "unat i"] that assms(1) z
        by (auto simp: boot_words_def boot_tab_def reserved_def)
    next
      case 3
      then show ?thesis using e [where t = "0x1f9000" and i = i] w [where t = "0x1f9000" and i = "unat i"] that assms(1) z
        by (auto simp: boot_words_def boot_tab_def reserved_def)
    qed
  qed
  have "entry ?m 0x1f7000 1 AND PDE64_USER = 0"
    using e [of "0x1f7000" 1] w [of "0x1f7000" 1] by (simp add: pde_defs)
  moreover have "length p \<le> 3 \<and> page_aligned t \<and> kreg (tbl t)" if "boot_tab p = Some t" for p t
    using that by (auto simp: boot_tab_Some kreg_def tbl_def KERNEL_BASE_OFFSET_def)
  moreover have "disjr (tbl t) (tbl u)" if "boot_tab p = Some t" "boot_tab q = Some u" "p \<noteq> q" for p q t u
    using that by (auto simp: boot_tab_Some disjr_def tbl_def KERNEL_BASE_OFFSET_def)
  moreover have "boot_tab p \<noteq> None" if "boot_tab (p @ [i]) \<noteq> None" for p i
    using that by (auto simp: boot_tab_Some append_eq_Cons_conv)
  ultimately show ?thesis unfolding pt_ok_def using entries by (auto simp: boot_tab_def)
qed

section \<open>The linear map of the kernel window\<close>

lemma bit_low: "unat (p :: u64) < 2 ^ k \<Longrightarrow> k \<le> n \<Longrightarrow> \<not> bit p n"
proof -
  assume p: "unat p < 2 ^ k" and n: "k \<le> n"
  have "unat p < 2 ^ n" using p n by (meson one_le_numeral order_less_le_trans power_increasing)
  then have "\<not> bit (unat p) n" by (simp add: bit_iff_odd)
  then show ?thesis by (auto simp: bit_unsigned_iff dest: bit_imp_le_length)
qed

lemma window_index:
  assumes "unat p < 2 ^ 30"
  shows "PML4OFF (p OR KERNEL_BASE_OFFSET) = 1" "PDPOFF (p OR KERNEL_BASE_OFFSET) = 0"
    "PDOFF (p OR KERNEL_BASE_OFFSET) = drop_bit 21 p" "unat (drop_bit 21 p) < 512"
    "(p OR KERNEL_BASE_OFFSET) AND mask 21 = p AND mask 21"
proof -
  have b: "bit (p OR KERNEL_BASE_OFFSET) n \<longleftrightarrow> n = 39 \<or> n < 30 \<and> bit p n" for n
    using bit_low [OF assms, of n] by (cases "n < 30") (auto simp: bit_or_iff bit_window)
  show "PML4OFF (p OR KERNEL_BASE_OFFSET) = 1"
    by (rule bit_eqI) (auto simp: offset_defs bit_pte_index b bit_1_iff)
  show "PDPOFF (p OR KERNEL_BASE_OFFSET) = 0"
    by (rule bit_eqI) (auto simp: offset_defs bit_pte_index b)
  show "PDOFF (p OR KERNEL_BASE_OFFSET) = drop_bit 21 p"
  proof (rule bit_eqI)
    fix n
    show "bit (PDOFF (p OR KERNEL_BASE_OFFSET)) n \<longleftrightarrow> bit (drop_bit 21 p) n"
      using bit_low [OF assms, of "21 + n"] by (cases "n < 9") (auto simp: offset_defs bit_pte_index b bit_drop_bit_eq)
  qed
  show "unat (drop_bit 21 p) < 512" using assms unfolding unat_drop_bit by (simp add: div_less_iff_less_mult)
  show "(p OR KERNEL_BASE_OFFSET) AND mask 21 = p AND mask 21"
    by (intro bit_eqI) (auto simp: bit_or_iff bit_and_iff bit_window bit_mask_iff)
qed

lemma large_page_entry:
  fixes p :: u64
  defines "e \<equiv> PDE64_PRESENT OR PDE64_RW OR PDE64_PS OR (p AND NOT (mask 21))"
  shows "e AND PDE64_PRESENT \<noteq> 0" "e AND PDE64_RW \<noteq> 0" "e AND PDE64_PS \<noteq> 0" "e AND (- 0x200000) = p AND NOT (mask 21)"
proof -
  have m: "(- 0x200000 :: u64) = NOT (mask 21)" by (simp add: mask_eq_exp_minus_1)
  have "(0x83 :: u64) AND NOT (mask 21) = 0" unfolding m [symmetric] by simp
  moreover have "(p AND NOT (mask 21)) AND NOT (mask 21) = p AND NOT (mask 21)" by (simp only: and.assoc and.idem)
  moreover have "e = 0x83 OR (p AND NOT (mask 21))" by (simp add: e_def pde_defs flip: or.assoc)
  ultimately show "e AND (- 0x200000) = p AND NOT (mask 21)"
    unfolding m by (simp only: bit.conj_disj_distrib2) simp
  show "e AND PDE64_PRESENT \<noteq> 0" "e AND PDE64_RW \<noteq> 0" "e AND PDE64_PS \<noteq> 0"
    by (simp_all add: e_def pde_defs bit.conj_disj_distrib2 or_eq_0_iff)
qed

lemma page_base: "drop_bit 21 p * KERNEL_PAGING_SIZE = p AND NOT (mask 21)" for p :: u64
proof -
  have "drop_bit 21 p * KERNEL_PAGING_SIZE = push_bit 21 (drop_bit 21 p)"
    by (simp add: push_bit_eq_mult KERNEL_PAGING_SIZE_def)
  also have "\<dots> = p AND NOT (mask 21)"
    by (rule bit_eqI) (auto simp: bit_push_bit_iff bit_drop_bit_eq bit_and_iff bit_not_iff bit_mask_iff)
  finally show ?thesis .
qed

lemma window_translate:
  assumes "cr3 s = 0x1f7000" "unat p < 2 ^ 30"
  shows "translate (init_pagetable s) (p OR KERNEL_BASE_OFFSET) um wr = (if um then -1 else p)"
proof -
  let ?m = "kmem (init_pagetable s)"
  note ix = window_index [OF assms(2)] and w = init_pagetable_word_at [OF assms(1)]
  have m21: "(0x1fffff :: u64) = mask 21" by (simp add: mask_eq_exp_minus_1)
  define e where "e = PDE64_PRESENT OR PDE64_RW OR PDE64_PS OR (p AND NOT (mask 21))"
  note eb = large_page_entry [of p, folded e_def]
  have l1: "kload64 ?m ((0x1f7000 OR KERNEL_BASE_OFFSET) + 8 * 1) = PDE64_PRESENT OR PDE64_RW OR 0x1fa000"
    using kload64_window [of "0x1f7000" 1 ?m] w [of "0x1f7000" 1] by simp
  have l2: "kload64 ?m ((0x1fa000 OR KERNEL_BASE_OFFSET) + 8 * 0) = PDE64_PRESENT OR PDE64_RW OR 0x1fb000"
    using kload64_window [of "0x1fa000" 0 ?m] w [of "0x1fa000" 0] by simp
  have l3: "kload64 ?m ((0x1fb000 OR KERNEL_BASE_OFFSET) + 8 * drop_bit 21 p) = e"
    using kload64_window [of "0x1fb000" "unat (drop_bit 21 p)" ?m] w [of "0x1fb000" "unat (drop_bit 21 p)"] ix(4)
    by (simp add: page_base e_def)
  have n: "next_table (PDE64_PRESENT OR PDE64_RW OR 0x1fa000) = 0x1fa000 OR KERNEL_BASE_OFFSET"
    "next_table (PDE64_PRESENT OR PDE64_RW OR 0x1fb000) = 0x1fb000 OR KERNEL_BASE_OFFSET"
    by (simp_all add: next_table_def pde_defs)
  have c3: "cr3 (init_pagetable s) = 0x1f7000" using assms(1) by (simp add: init_pagetable_def Let_def)
  have "(p AND NOT (mask 21)) + (p AND mask 21) = p" by (rule and_not_plus_and)
  moreover have "paging_check ?m um wr ((0x1f7000 OR KERNEL_BASE_OFFSET) + 8 * 1) = (if um then None else Some (0x1fa000 OR KERNEL_BASE_OFFSET))"
    unfolding paging_check_def l1 n by (simp add: pde_defs)
  moreover have "paging_check ?m False wr ((0x1fa000 OR KERNEL_BASE_OFFSET) + 8 * 0) = Some (0x1fb000 OR KERNEL_BASE_OFFSET)"
    unfolding paging_check_def l2 n by (simp add: pde_defs)
  moreover have "paging_check ?m False wr ((0x1fb000 OR KERNEL_BASE_OFFSET) + 8 * drop_bit 21 p) = Some (next_table e)"
    unfolding paging_check_def l3 using eb by simp
  ultimately show ?thesis
    using eb ix(5) l3 unfolding translate_def get_pml4_addr_def c3 ix(1-3) Let_def m21 by (cases um) simp_all
qed

section \<open>The arguments on the stack\<close>

text \<open>The bytes the strings take, and memory that changes only between two addresses.\<close>

definition args_size :: "u8 list list \<Rightarrow> nat" where
  "args_size args = sum_list (map (\<lambda>a. length a + 1) args)"

definition frame :: "memory \<Rightarrow> memory \<Rightarrow> nat \<Rightarrow> nat \<Rightarrow> bool" where
  "frame m m' lo hi \<longleftrightarrow> (\<forall>x. unat x < lo \<or> hi \<le> unat x \<longrightarrow> m' x = m x)"

lemma args_size_simps [simp]: "args_size [] = 0" "args_size (a # as) = length a + 1 + args_size as"
  by (simp_all add: args_size_def)

lemma frame_refl [simp]: "frame m m lo hi"
  by (simp add: frame_def)

lemma frame_trans: "frame m m1 lo hi \<Longrightarrow> frame m1 m2 lo' hi' \<Longrightarrow> lo' \<le> lo \<Longrightarrow> hi \<le> hi' \<Longrightarrow> frame m m2 lo' hi'"
  by (simp add: frame_def)

lemma frame_store_bytes:
  assumes "unat a + length bs < 2 ^ 64"
  shows "frame m (store_bytes m a bs) (unat a) (unat a + length bs)"
  unfolding frame_def
proof (intro allI impI)
  fix x :: u64 assume x: "unat x < unat a \<or> unat a + length bs \<le> unat x"
  have "\<not> unat (x - a) < length bs"
  proof (cases "unat x < unat a")
    case True
    then show ?thesis using assms unat_sub_less [of x a] by (simp add: word_less_nat_alt)
  next
    case False
    then show ?thesis using x by (simp add: unat_sub word_le_nat_alt)
  qed
  then show "store_bytes m a bs x = m x" using assms by (simp add: store_bytes_apply)
qed

lemma load_bytes_frame:
  assumes "frame m m' lo hi" "unat a + n < 2 ^ 64" "unat a + n \<le> lo \<or> hi \<le> unat a"
  shows "load_bytes m' a n = load_bytes m a n"
proof (rule load_bytes_cong)
  fix i assume i: "i < n"
  then have "unat (a + of_nat i) = unat a + i" using assms(2) by (intro unat_add_nat_64) simp
  then show "m' (a + of_nat i) = m (a + of_nat i)" using assms(1,3) i by (auto simp: frame_def)
qed

lemma load64_frame:
  "frame m m' lo hi \<Longrightarrow> unat a + 8 < 2 ^ 64 \<Longrightarrow> unat a + 8 \<le> lo \<or> hi \<le> unat a \<Longrightarrow> load64 m' a = load64 m a"
  by (simp add: load64_def load_bytes_frame)

lemma unat_sub_nat_64: "n \<le> unat (a :: u64) \<Longrightarrow> unat (a - of_nat n) = unat a - n"
  using unat_bound_64 [of a] by (simp add: unat_sub word_le_nat_alt)

text \<open>The string \<open>a\<close> with its end lies at \<open>p\<close>.\<close>

definition string_in :: "memory \<Rightarrow> u64 \<Rightarrow> u8 list \<Rightarrow> bool" where
  "string_in m p a \<longleftrightarrow> load_bytes m p (length a + 1) = a @ [0]"

lemma push_args_spec:
  assumes "push_args m sp args = (ptrs, sp', m')" "args_size args \<le> unat sp" "unat sp < 2 ^ 40"
  shows "unat sp' = unat sp - args_size args \<and> length ptrs = length args \<and> frame m m' (unat sp') (unat sp)
    \<and> (\<forall>i < length args. string_in m' (ptrs ! i) (args ! i) \<and> unat sp' \<le> unat (ptrs ! i)
          \<and> unat (ptrs ! i) + length (args ! i) + 1 \<le> unat sp)"
  using assms
proof (induction args arbitrary: ptrs sp' m')
  case (Cons a as)
  obtain ps sp1 m1 where p: "push_args m sp as = (ps, sp1, m1)" by (metis prod_cases3)
  note ih = Cons.IH [OF p]
  let ?n = "length a + 1"
  have eq: "ptrs = (sp1 - of_nat ?n) # ps" "sp' = sp1 - of_nat ?n" "m' = store_bytes m1 sp' (a @ [0])"
    using Cons.prems(1) p by (auto simp: Let_def)
  have i: "unat sp1 = unat sp - args_size as" "length ps = length as" "frame m m1 (unat sp1) (unat sp)"
    using ih Cons.prems by auto
  have u: "unat sp' = unat sp1 - ?n" "?n \<le> unat sp1"
    using Cons.prems(2) i(1) unfolding eq(2) by (simp_all only: unat_sub_nat_64 args_size_simps)
  have f: "frame m1 m' (unat sp') (unat sp1)"
  proof -
    have "unat sp' + length (a @ [0]) = unat sp1" using u by simp
    moreover have "unat sp1 < 2 ^ 64" using Cons.prems(3) i(1) by simp
    ultimately show ?thesis using frame_store_bytes [of sp' "a @ [0]" m1] by (simp only: eq(3))
  qed
  have "string_in m' sp' a"
    using load_store_bytes_same [of "a @ [0]" m1 sp'] u(2) unat_bound_64 [of sp1]
    by (simp add: string_in_def eq(3) del: load_bytes.simps store_bytes.simps)
  moreover have "string_in m' (ps ! k) (as ! k) \<and> unat sp' \<le> unat (ps ! k) \<and> unat (ps ! k) + length (as ! k) + 1 \<le> unat sp"
    if "k < length as" for k
  proof -
    have k: "string_in m1 (ps ! k) (as ! k)" "unat sp1 \<le> unat (ps ! k)" "unat (ps ! k) + length (as ! k) + 1 \<le> unat sp"
      using ih Cons.prems that by auto
    then have "load_bytes m' (ps ! k) (length (as ! k) + 1) = load_bytes m1 (ps ! k) (length (as ! k) + 1)"
      using Cons.prems(3) by (intro load_bytes_frame [OF f]) auto
    then show ?thesis using k u(1) by (simp add: string_in_def del: load_bytes.simps)
  qed
  moreover have "frame m m' (unat sp') (unat sp)"
    using f i(3) u i(1) unfolding frame_def by auto
  moreover have "unat sp' = unat sp - args_size (a # as)" using u i(1) by simp
  ultimately show ?case using eq(1,2) u i(1,2) Cons.prems(2) by (auto simp: nth_Cons split: nat.split)
qed simp

lemma push_words_spec:
  assumes "push_words m sp vs = (sp', m')" "8 * length vs \<le> unat sp" "unat sp < 2 ^ 40"
  shows "unat sp' = unat sp - 8 * length vs \<and> frame m m' (unat sp') (unat sp)
    \<and> (\<forall>i < length vs. load64 m' (sp' + of_nat (8 * i)) = vs ! i)"
  using assms
proof (induction vs arbitrary: sp' m')
  case (Cons v vs)
  obtain sp1 m1 where p: "push_words m sp vs = (sp1, m1)" by force
  note ih = Cons.IH [OF p]
  have eq: "sp' = sp1 - of_nat 8" "m' = store64 m1 sp' v" using Cons.prems(1) p by (auto simp: Let_def)
  have i: "unat sp1 = unat sp - 8 * length vs" "frame m m1 (unat sp1) (unat sp)" using ih Cons.prems by auto
  have u2: "8 \<le> unat sp1" using Cons.prems(2) i(1) by simp
  have u1: "unat sp' = unat sp1 - 8" unfolding eq(1) by (rule unat_sub_nat_64 [OF u2])
  note u = u1 u2
  have f: "frame m1 m' (unat sp') (unat sp1)"
    using frame_store_bytes [of sp' "le_bytes 8 v" m1] u Cons.prems(3) i(1) by (simp add: eq(2) store64_def)
  have "load64 m' (sp' + of_nat (8 * k)) = (v # vs) ! k" if k: "k < length (v # vs)" for k
  proof (cases k)
    case 0
    then show ?thesis by (simp add: eq(2))
  next
    case (Suc j)
    have a: "sp' + of_nat (8 * k) = sp1 + of_nat (8 * j)" unfolding eq(1) Suc by simp
    have b: "unat (sp1 + of_nat (8 * j)) = unat sp1 + 8 * j"
      using k Suc Cons.prems(2,3) i(1) by (intro unat_add_nat_64) simp
    then have "load64 m' (sp1 + of_nat (8 * j)) = load64 m1 (sp1 + of_nat (8 * j))"
      using k Suc Cons.prems(2,3) i(1) by (intro load64_frame [OF f]) (auto simp: b)
    then show ?thesis unfolding a using ih Cons.prems k Suc by simp
  qed
  moreover have "frame m m' (unat sp') (unat sp)" using f i(2) u i(1) unfolding frame_def by auto
  ultimately show ?case using u i(1) by simp
qed simp

lemma unat_align_16: "unat (x AND (- 0x10)) = unat x - unat x mod 0x10" for x :: u64
proof -
  have "(- 0x10 :: u64) = NOT 0xf" "(0xf :: u64) = mask 4" by (simp_all add: mask_eq_exp_minus_1)
  then have "x AND (- 0x10) = x - (x AND mask 4)"
    using and_not_plus_and [of x "mask 4"] by (simp only:) (metis add_diff_cancel_right')
  moreover have m: "unat (x AND mask 4) = unat x mod 0x10" using and_mask_64 [of x 4] by simp
  ultimately show ?thesis using mod_less_eq_dividend [of "unat x" 16] by (simp add: unat_sub word_le_nat_alt m)
qed

text \<open>The block of arguments at \<open>sp\<close>: the count, the pointers to the strings and a null pointer.\<close>

definition args_at :: "memory \<Rightarrow> u64 \<Rightarrow> nat \<Rightarrow> u8 list list \<Rightarrow> bool" where
  "args_at m sp hi args \<longleftrightarrow>
     load64 m sp = of_nat (length args) \<and>
     (\<forall>i < length args. let p = load64 m (sp + of_nat (8 * (i + 1))) in
        string_in m p (args ! i) \<and> unat sp \<le> unat p \<and> unat p + length (args ! i) + 1 \<le> hi) \<and>
     load64 m (sp + of_nat (8 * (length args + 1))) = 0"

lemma args_layout_spec:
  assumes "args_layout m sp args = (sp', m')" "args_size args + 8 * length args + 31 \<le> unat sp" "unat sp < 2 ^ 40"
  shows "args_at m' sp' (unat sp) args \<and> frame m m' (unat sp') (unat sp) \<and> unat sp' mod 8 = 0
    \<and> unat sp \<le> unat sp' + args_size args + 8 * length args + 31 \<and> unat sp' + 8 * length args + 16 \<le> unat sp"
proof -
  obtain ptrs sp1 m1 where pa: "push_args m sp args = (ptrs, sp1, m1)" by (metis prod_cases3)
  have p: "unat sp1 = unat sp - args_size args" "length ptrs = length args" "frame m m1 (unat sp1) (unat sp)"
    "\<And>i. i < length args \<Longrightarrow> string_in m1 (ptrs ! i) (args ! i) \<and> unat sp1 \<le> unat (ptrs ! i)
          \<and> unat (ptrs ! i) + length (args ! i) + 1 \<le> unat sp"
    using push_args_spec [OF pa] assms(2,3) by auto
  define sp2 where "sp2 = sp1 AND (- 0x10)"
  define vs where "vs = of_nat (length args) # ptrs @ [0]"
  have u2: "unat sp2 = unat sp1 - unat sp1 mod 0x10" "unat sp1 \<le> unat sp2 + 15" "unat sp2 mod 8 = 0"
  proof -
    show 1: "unat sp2 = unat sp1 - unat sp1 mod 0x10" by (simp add: sp2_def unat_align_16)
    then have "unat sp2 = 16 * (unat sp1 div 16)" by (simp add: minus_mod_eq_mult_div)
    then show "unat sp2 mod 8 = 0" by (simp add: mod_mult_left_eq)
    show "unat sp1 \<le> unat sp2 + 15" unfolding 1 using mod_less_divisor [of 16 "unat sp1"] by simp
  qed
  have w: "push_words m1 sp2 vs = (sp', m')" using assms(1) pa by (simp add: args_layout_def sp2_def vs_def)
  have lv: "length vs = length args + 2" using p(2) by (simp add: vs_def)
  have l3: "unat sp2 \<le> unat sp1" using u2(1) by simp
  have l1: "8 * length vs \<le> unat sp2" using assms(2) p(1) u2(2) lv by linarith
  have l2: "unat sp2 < 2 ^ 40" using assms(3) p(1) l3 by linarith
  note l = l1 l2 l3
  note q = push_words_spec [OF w l(1,2)]
  have words: "load64 m' (sp' + of_nat (8 * k)) = vs ! k" if "k < length args + 2" for k using q that lv by simp
  have "load64 m' (sp' + of_nat (8 * (i + 1))) = ptrs ! i" if "i < length args" for i
    using words [of "i + 1"] that p(2) by (simp add: vs_def nth_append)
  moreover have "string_in m' (ptrs ! i) (args ! i)" if "i < length args" for i
  proof -
    have "load_bytes m' (ptrs ! i) (length (args ! i) + 1) = load_bytes m1 (ptrs ! i) (length (args ! i) + 1)"
      using p(4) [OF that] l(3) assms(3) q by (intro load_bytes_frame) auto
    then show ?thesis using p(4) [OF that] by (simp add: string_in_def del: load_bytes.simps)
  qed
  moreover have "unat sp' \<le> unat (ptrs ! i)" if "i < length args" for i
    using p(4) [OF that] q l(3) by linarith
  moreover have "load64 m' (sp' + of_nat (8 * (length args + 1))) = 0"
    using words [of "length args + 1"] p(2) by (simp add: vs_def nth_append)
  moreover have "load64 m' sp' = of_nat (length args)" using words [of 0] by (simp add: vs_def)
  ultimately have "args_at m' sp' (unat sp) args" using p(4) by (simp add: args_at_def Let_def)
  moreover have "frame m m' (unat sp') (unat sp)" using q p(1,3) l(3) unfolding frame_def by auto
  moreover have "unat sp' mod 8 = 0" using q u2(3) l(1) by (simp add: mod_diff_eq mod_eq_0_iff_dvd dvd_diff_nat)
  moreover have "unat sp \<le> unat sp' + args_size args + 8 * length args + 31" using q lv u2(2) p(1) assms(2) l(1) by linarith
  moreover have "unat sp' + 8 * length args + 16 \<le> unat sp" using q lv l(1,3) p(1) by linarith
  ultimately show ?thesis by blast
qed

section \<open>From the hypervisor to the kernel\<close>

lemma store_regs_machine: "store_regs kvm r vm = Inr vm' \<Longrightarrow> \<exists>w. vm' = vm\<lparr>world := w\<rparr>"
  by (auto simp: store_regs_def bindE_eq_Inr)

lemma store_sregs_machine: "store_sregs kvm r vm = Inr vm' \<Longrightarrow> \<exists>w. vm' = vm\<lparr>world := w\<rparr>"
  by (auto simp: store_sregs_def bindE_eq_Inr)

lemma kvm_init_steps:
  assumes "kvm_init kvm code w = Inr vm"
  obtains w1 vm1 vm2 where "setup_regs kvm 0 (fresh_machine code w1) = Inr vm1" "setup_paging kvm vm1 = Inr vm2"
    "setup_seg_regs kvm vm2 = Inr vm"
  using assms by (auto simp: kvm_init_def setup_long_mode_def bindE_eq_Inr case_prod_beta Let_def split: if_splits)

lemma kvm_init_machine:
  assumes "kvm_init kvm code w = Inr vm"
  shows "\<exists>w'. vm = (fresh_machine code w')\<lparr>kmem := boot_tables (store_bytes (\<lambda>_. 0) 0 code), cr3 := MAX_KERNEL_SIZE\<rparr>"
proof -
  obtain w1 vm1 vm2 where 1: "setup_regs kvm 0 (fresh_machine code w1) = Inr vm1"
    and 2: "setup_paging kvm vm1 = Inr vm2" and 3: "setup_seg_regs kvm vm2 = Inr vm"
    by (rule kvm_init_steps [OF assms])
  obtain w2 where v1: "vm1 = (fresh_machine code w1)\<lparr>world := w2\<rparr>"
    using 1 by (auto simp: setup_regs_def bindE_eq_Inr dest!: store_regs_machine)
  obtain w3 where v2: "vm2 = vm1\<lparr>kmem := boot_tables (kmem vm1), cr3 := MAX_KERNEL_SIZE, world := w3\<rparr>"
    using 2 by (auto simp: setup_paging_def bindE_eq_Inr dest!: store_sregs_machine)
  obtain w4 where "vm = vm2\<lparr>world := w4\<rparr>"
    using 3 by (auto simp: setup_seg_regs_def bindE_eq_Inr Let_def dest!: store_sregs_machine)
  then show ?thesis unfolding v2 v1 by (intro exI [of _ w4]) (simp add: fresh_machine_def)
qed

lemma kvm_init_words:
  assumes "kvm_init kvm code w = Inr vm" "length code \<le> unat MAX_KERNEL_SIZE"
  shows "boot_words (kmem vm)" "cr3 vm = 0x1f7000"
proof -
  obtain w' where vm: "vm = (fresh_machine code w')\<lparr>kmem := boot_tables (store_bytes (\<lambda>_. 0) 0 code), cr3 := MAX_KERNEL_SIZE\<rparr>"
    using kvm_init_machine [OF assms(1)] by blast
  show "cr3 vm = 0x1f7000" by (simp add: vm layout_values)
  show "boot_words (kmem vm)"
    unfolding vm using assms(2) by (auto simp: layout_values intro!: boot_tables_words word_at_low_code)
qed

lemma word_at_frame:
  "frame m m' lo hi \<Longrightarrow> t + 8 * i + 8 \<le> lo \<Longrightarrow> t + 8 * i < 2 ^ 40 \<Longrightarrow> word_at m' t i = word_at m t i"
  unfolding word_at_def by (rule load64_frame [of m m' lo hi]) (simp_all del: of_nat_add of_nat_mult)

lemma boot_words_frame: "frame m m' lo hi \<Longrightarrow> 0x1fa000 \<le> lo \<Longrightarrow> boot_words m \<Longrightarrow> boot_words m'"
  unfolding boot_words_def by (auto simp: word_at_frame)

lemma frame_set_word: "lo \<le> t + 8 * i \<Longrightarrow> t + 8 * i + 8 \<le> hi \<Longrightarrow> t + 8 * i < 2 ^ 40 \<Longrightarrow> frame m (set_word m t i v) lo hi"
  unfolding set_word_def store64_def
  using frame_store_bytes [of "of_nat (t + 8 * i)" "le_bytes 8 v" m] by (auto simp: frame_def simp del: of_nat_add of_nat_mult)

lemma frame_fill_pd: "lo \<le> pd \<Longrightarrow> pd + 8 * n \<le> hi \<Longrightarrow> hi < 2 ^ 40 \<Longrightarrow> frame m (fill_pd m (of_nat pd) n) lo hi"
proof (induction n)
  case (Suc n)
  have "fill_pd m (of_nat pd) (Suc n) = set_word (fill_pd m (of_nat pd) n) pd n
      (PDE64_PRESENT OR PDE64_RW OR PDE64_PS OR (of_nat n * KERNEL_PAGING_SIZE))"
    by (simp add: set_word_def)
  then show ?case using Suc by (auto intro!: frame_trans [OF Suc.IH frame_set_word])
qed simp

lemma init_pagetable_frame: "cr3 s = 0x1f7000 \<Longrightarrow> frame (kmem s) (kmem (init_pagetable s)) 0x1f7000 0x1fc000"
  unfolding init_pagetable_words
  by (rule frame_trans [where lo = "0x1f7000" and hi = "0x1fc000", OF
        frame_trans [where lo = "0x1f7000" and hi = "0x1fc000", OF frame_set_word frame_set_word] frame_fill_pd]) simp_all

lemma args_at_frame:
  assumes "args_at m sp hi args" "frame m m' lo h" "h \<le> unat sp" "unat sp + 8 * length args + 16 < 2 ^ 64" "hi < 2 ^ 64"
  shows "args_at m' sp hi args"
proof -
  have w: "load64 m' (sp + of_nat (8 * k)) = load64 m (sp + of_nat (8 * k))" if "k \<le> length args + 1" for k
  proof -
    have u: "unat (sp + of_nat (8 * k)) = unat sp + 8 * k" using assms(4) that by (intro unat_add_nat_64) simp
    show ?thesis using assms(3,4) that by (intro load64_frame [OF assms(2)]) (simp_all only: u, simp_all)
  qed
  have "string_in m' p (args ! i)" if "string_in m p (args ! i)" "unat sp \<le> unat p" "unat p + length (args ! i) + 1 \<le> hi" for p i
    using that assms(3,5) load_bytes_frame [OF assms(2), of p "length (args ! i) + 1"] by (simp add: string_in_def)
  then show ?thesis
    using assms(1) w [of "length args + 1"] w [of 0] w [of "i + 1" for i] by (auto simp: args_at_def Let_def)
qed

lemma boot_state:
  assumes "boot_words (kmem vm)" "cr3 vm = 0x1f7000"
  obtains s where "init_allocator (init_pagetable vm) (PS_LIMIT OR KERNEL_BASE_OFFSET) (MEM_SIZE - PS_LIMIT) = Inr s"
    "heap_inv s {} []" "pt_inv s {} boot_tab" "kmem s = kmem (init_pagetable vm)" "cr3 s = cr3 (init_pagetable vm)"
    "arena_top_size s = 0x200000"
proof -
  let ?vm = "init_pagetable vm"
  let ?s = "?vm\<lparr>arena_top := 0x8000200000, arena_top_size := 0x200000, arena_min_addr := 0x8000200000, sorted_bin_next := 0\<rparr>"
  have i: "init_allocator ?vm (PS_LIMIT OR KERNEL_BASE_OFFSET) (MEM_SIZE - PS_LIMIT) = Inr ?s"
    unfolding layout_values by (simp add: init_allocator_def KERNEL_BASE_OFFSET_def)
  have h: "heap_inv ?s {} []" by (simp add: heap_inv_def arena_ok_def apart_def)
  have c: "cr3 ?vm = 0x1f7000" using assms(2) by (simp add: init_pagetable_def Let_def)
  have "held ?s {} (tbl t)" if "boot_tab p = Some t" for p t
    using that by (auto simp: boot_tab_Some held_def kreg_def disjr_def tbl_def KERNEL_BASE_OFFSET_def arena_def arena_end_def)
  moreover have "pt_ok (kmem ?vm) boot_tab" by (rule boot_pt_ok [OF assms])
  ultimately have "pt_inv ?s {} boot_tab" using c by (simp add: pt_inv_def boot_tab_def)
  then show thesis using that [OF i h] by simp
qed

lemma boot_leaf: "leaf m boot_tab v = 0" if "USER_MEM_RANGE_OK v"
  by (simp add: leaf_def upath_def boot_tab_def)

lemma translate_same: "kmem s = kmem t \<Longrightarrow> cr3 s = cr3 t \<Longrightarrow> translate s v um wr = translate t v um wr"
  by (simp add: translate_def get_pml4_addr_def)

text \<open>
  What the KVM interface documents of the general registers: \<^verbatim>\<open>KVM_GET_REGS\<close> returns what \<^verbatim>\<open>KVM_SET_REGS\<close>
  stored, and no other call of the set-up changes them.
\<close>

definition regs_of :: "'w kvm_api \<Rightarrow> 'w \<Rightarrow> kvm_regs" where
  "regs_of kvm w = snd (fst (get_regs kvm w))"

definition keeps_regs :: "'w kvm_api \<Rightarrow> bool" where
  "keeps_regs kvm \<longleftrightarrow>
     (\<forall>r w v w'. set_regs kvm r w = (v, w') \<and> 0 \<le> v \<longrightarrow> regs_of kvm w' = r) \<and>
     (\<forall>w. regs_of kvm (snd (get_regs kvm w)) = regs_of kvm w) \<and>
     (\<forall>w. regs_of kvm (snd (get_sregs kvm w)) = regs_of kvm w) \<and>
     (\<forall>r w. regs_of kvm (snd (set_sregs kvm r w)) = regs_of kvm w)"

lemma keeps_regsD:
  assumes "keeps_regs kvm"
  shows "store_regs kvm r vm = Inr vm' \<Longrightarrow> regs_of kvm (world vm') = r"
    "store_sregs kvm q vm = Inr vm' \<Longrightarrow> regs_of kvm (world vm') = regs_of kvm (world vm)"
    "fetch_regs kvm w = Inr (x, w') \<Longrightarrow> x = regs_of kvm w \<and> regs_of kvm w' = regs_of kvm w"
    "fetch_sregs kvm w = Inr (y, w') \<Longrightarrow> regs_of kvm w' = regs_of kvm w"
proof -
  show "store_regs kvm r vm = Inr vm' \<Longrightarrow> regs_of kvm (world vm') = r"
    using assms unfolding keeps_regs_def
    by (auto simp: store_regs_def pexit_def bindE_eq_Inr split: if_splits) (metis not_less)
  show "store_sregs kvm q vm = Inr vm' \<Longrightarrow> regs_of kvm (world vm') = regs_of kvm (world vm)"
    using assms unfolding keeps_regs_def by (auto simp: store_sregs_def pexit_def bindE_eq_Inr split: if_splits) (metis snd_conv)
  show "fetch_regs kvm w = Inr (x, w') \<Longrightarrow> x = regs_of kvm w \<and> regs_of kvm w' = regs_of kvm w"
    using assms unfolding keeps_regs_def
    by (auto simp: fetch_regs_def regs_of_def Let_def split: if_splits prod.splits) (metis fst_conv snd_conv)
  show "fetch_sregs kvm w = Inr (y, w') \<Longrightarrow> regs_of kvm w' = regs_of kvm w"
    using assms unfolding keeps_regs_def by (auto simp: fetch_sregs_def Let_def split: if_splits prod.splits) (metis snd_conv)
qed

lemma kvm_init_regs:
  assumes k: "keeps_regs kvm" and i: "kvm_init kvm code w = Inr vm"
  shows "\<exists>r. regs_of kvm (world vm) = r\<lparr>rip := 0, rsp := PS_LIMIT, rdi := PS_LIMIT, rsi := MEM_SIZE - PS_LIMIT, rflags := 0x2\<rparr>"
proof -
  obtain w1 vm1 vm2 where 1: "setup_regs kvm 0 (fresh_machine code w1) = Inr vm1"
    and 2: "setup_paging kvm vm1 = Inr vm2" and 3: "setup_seg_regs kvm vm2 = Inr vm"
    by (rule kvm_init_steps [OF i])
  have "regs_of kvm (world vm2) = regs_of kvm (world vm1)"
    using 2 keeps_regsD(2,4) [OF k] by (fastforce simp: setup_paging_def bindE_eq_Inr)
  moreover have "regs_of kvm (world vm) = regs_of kvm (world vm2)"
    using 3 keeps_regsD(2,4) [OF k] by (fastforce simp: setup_seg_regs_def bindE_eq_Inr Let_def)
  ultimately show ?thesis
    using 1 keeps_regsD(1) [OF k] by (fastforce simp: setup_regs_def bindE_eq_Inr)
qed

lemma copy_argv_regs:
  assumes k: "keeps_regs kvm" and c: "copy_argv kvm args vm = Inr vm'"
    and a: "args_layout (kmem vm) (rsp (regs_of kvm (world vm))) args = (sp, m)"
  shows "regs_of kvm (world vm') = (regs_of kvm (world vm))\<lparr>rsp := sp\<rparr>" "\<exists>w'. vm' = vm\<lparr>kmem := m, world := w'\<rparr>"
proof -
  obtain regs w' where f: "fetch_regs kvm (world vm) = Inr (regs, w')"
    and s: "(let (sp, m) = args_layout (kmem vm) (rsp regs) args
      in store_regs kvm (regs\<lparr>rsp := sp\<rparr>) (vm\<lparr>world := w', kmem := m\<rparr>)) = Inr vm'"
    using c by (auto simp: copy_argv_def bindE_eq_Inr)
  have r: "regs = regs_of kvm (world vm)" using keeps_regsD(3) [OF k f] by simp
  then have s: "store_regs kvm (regs\<lparr>rsp := sp\<rparr>) (vm\<lparr>world := w', kmem := m\<rparr>) = Inr vm'" using s a by simp
  show "regs_of kvm (world vm') = (regs_of kvm (world vm))\<lparr>rsp := sp\<rparr>" using keeps_regsD(1) [OF k s] r by simp
  show "\<exists>w'. vm' = vm\<lparr>kmem := m, world := w'\<rparr>" using store_regs_machine [OF s] by auto
qed

text \<open>
  C4: The machine the hypervisor sets up for a kernel image that fits below the tables and for
  arguments that fit the stack starts the kernel in a good state.  The registers hold the entry point,
  and in \<^verbatim>\<open>rdi\<close>, \<^verbatim>\<open>rsi\<close> and \<^verbatim>\<open>rsp\<close> what \<^verbatim>\<open>entry.s\<close> passes to \<^verbatim>\<open>kernel_main\<close>: with these arguments the allocator
  and the page tables satisfy their invariants when \<^verbatim>\<open>switch_user\<close> is called, the arena is the memory
  behind the first two megabytes, the window of one gigabyte is mapped linearly for the kernel and not at
  all for user mode, no user page is mapped, and the stack pointer points to the count of the
  arguments, followed by pointers to their bytes.  The hypotheses are that the calls of KVM succeed and
  that it keeps the registers it is given.
\<close>

theorem kernel_boot:
  assumes "kvm_init kvm code w = Inr vm" "length code \<le> unat MAX_KERNEL_SIZE" "keeps_regs kvm"
    "args_size args + 8 * length args + 31 \<le> unat KERNEL_STACK_SIZE" "copy_argv kvm args vm = Inr vm'"
  defines "r \<equiv> regs_of kvm (world vm')"
  shows "rip r = 0 \<and> rflags r = 2 \<and> args_at (kmem vm') (rsp r) (unat PS_LIMIT) args \<and>
    (\<exists>s. (\<forall>os p0. kernel_main os p0 (rdi r) (rsi r) (load64 (kmem vm') (rsp r)) (rsp r + 8) vm'
        = switch_user os p0 (of_nat (length args)) (rsp r + 8) s)
      \<and> heap_inv s {} [] \<and> pt_inv s {} boot_tab \<and> arena s = (PS_LIMIT OR KERNEL_BASE_OFFSET, unat (MEM_SIZE - PS_LIMIT))
      \<and> (\<forall>p um wr. unat p < 2 ^ 30 \<longrightarrow> translate s (p OR KERNEL_BASE_OFFSET) um wr = (if um then -1 else p))
      \<and> (\<forall>v um wr. USER_MEM_RANGE_OK v \<longrightarrow> translate s v um wr = -1)
      \<and> args_at (kmem s) (rsp r) (unat PS_LIMIT) args)"
proof -
  obtain r0 where r0: "regs_of kvm (world vm) =
      r0\<lparr>rip := 0, rsp := PS_LIMIT, rdi := PS_LIMIT, rsi := MEM_SIZE - PS_LIMIT, rflags := 0x2\<rparr>"
    using kvm_init_regs [OF assms(3,1)] by blast
  obtain sp m where al: "args_layout (kmem vm) PS_LIMIT args = (sp, m)" by force
  have k: "unat PS_LIMIT = 0x200000" "unat KERNEL_STACK_SIZE = 0x4000" by (simp_all add: layout_defs)
  have l: "args_at m sp 0x200000 args" "frame (kmem vm) m (unat sp) 0x200000" "0x1fc000 \<le> unat sp"
    "unat sp + 8 * length args + 16 \<le> 0x200000"
    using args_layout_spec [OF al] assms(4) k by auto
  have al': "args_layout (kmem vm) (rsp (regs_of kvm (world vm))) args = (sp, m)" using al r0 by simp
  note ca = copy_argv_regs [OF assms(3,5) al']
  obtain w'' where vm': "vm' = vm\<lparr>kmem := m, world := w''\<rparr>" using ca(2) by blast
  have r: "rip r = 0" "rflags r = 2" "rdi r = PS_LIMIT" "rsi r = MEM_SIZE - PS_LIMIT" "rsp r = sp"
    using ca(1) r0 by (simp_all add: r_def)
  have bw: "boot_words (kmem vm')" "cr3 vm' = 0x1f7000"
    using kvm_init_words [OF assms(1,2)] boot_words_frame [OF l(2)] l(3) vm' by simp_all
  obtain s where s: "init_allocator (init_pagetable vm') (PS_LIMIT OR KERNEL_BASE_OFFSET) (MEM_SIZE - PS_LIMIT) = Inr s"
    "heap_inv s {} []" "pt_inv s {} boot_tab" "kmem s = kmem (init_pagetable vm')" "cr3 s = cr3 (init_pagetable vm')"
    by (rule boot_state [OF bw])
  have a: "args_at (kmem vm') sp 0x200000 args" using l(1) vm' by simp
  then have "args_at (kmem s) sp 0x200000 args"
    unfolding s(4) using l k by (intro args_at_frame [OF _ init_pagetable_frame [OF bw(2)]]) simp_all
  moreover have "translate s v um wr = -1" if "USER_MEM_RANGE_OK v" for v um wr
    using translate_leaf [OF s(3) that] boot_leaf [OF that] by (simp add: leaf_translate_def)
  moreover have "load64 (kmem vm') sp = of_nat (length args)" using a by (simp add: args_at_def)
  moreover have "arena s = (PS_LIMIT OR KERNEL_BASE_OFFSET, unat (MEM_SIZE - PS_LIMIT))"
    using s(1) by (auto simp: init_allocator_def arena_def arena_end_def split: if_splits)
  ultimately show ?thesis
    unfolding r kernel_main_def Let_def s(1) bindE_simps
    using s a window_translate [OF bw(2)] translate_same [OF s(4,5)] k by auto
qed

text \<open>A KVM that grants everything and keeps the registers; the kernel image is empty.\<close>

definition demo_kvm :: "kvm_regs kvm_api" where
  "demo_kvm =
     \<lparr>get_regs = (\<lambda>w. ((0, w), w)), set_regs = (\<lambda>r w. (0, r)),
      get_sregs = (\<lambda>w. ((0, \<lparr>sr_cs = boot_cs, sr_ds = boot_cs, sr_es = boot_cs, sr_fs = boot_cs, sr_gs = boot_cs,
         sr_ss = boot_cs, sr_cr0 = 0, sr_cr3 = 0, sr_cr4 = 0, sr_efer = 0\<rparr>), w)),
      set_sregs = (\<lambda>r w. (0, w)), kvm_run = (\<lambda>d vm. (EXIT_HLT, vm)), open_kvm = (\<lambda>w. (3, w)),
      api_version = (\<lambda>w. (KVM_API_VERSION, w)), create_vm = (\<lambda>w. (4, w)),
      mmap_memory = (\<lambda>n w. (0x7f0000000000, w)), set_memory_region = (\<lambda>w. (0, w)), create_vcpu = (\<lambda>w. (5, w)),
      vcpu_mmap_size = (\<lambda>w. (0x3000, w)), mmap_run = (\<lambda>n w. (0x7f0000400000, w))\<rparr>"

definition demo_regs :: kvm_regs where
  "demo_regs = \<lparr>rip = 0, rsp = 0, rdi = 0, rsi = 0, rflags = 0, other_regs = []\<rparr>"

lemma demo_kvm_init:
  "\<exists>vm. kvm_init demo_kvm [] demo_regs = Inr vm"
  by (simp add: kvm_init_def demo_kvm_def pexit_def KVM_API_VERSION_def setup_regs_def fetch_regs_def store_regs_def
      setup_long_mode_def setup_paging_def fetch_sregs_def store_sregs_def setup_seg_regs_def fresh_machine_def Let_def)

lemma demo_keeps_regs: "keeps_regs demo_kvm"
  by (simp add: keeps_regs_def regs_of_def demo_kvm_def)

lemma demo_copy_argv:
  "\<exists>vm'. copy_argv demo_kvm args vm = Inr vm'"
  by (simp add: copy_argv_def fetch_regs_def store_regs_def demo_kvm_def pexit_def case_prod_beta)

theorem kernel_boot_witness:
  "\<exists>vm vm' s. kvm_init demo_kvm [] demo_regs = Inr vm \<and> copy_argv demo_kvm [[0x61], [0x62, 0x63]] vm = Inr vm' \<and>
     (let r = regs_of demo_kvm (world vm')
      in \<forall>os p0. kernel_main os p0 (rdi r) (rsi r) (load64 (kmem vm') (rsp r)) (rsp r + 8) vm' = switch_user os p0 2 (rsp r + 8) s) \<and>
     heap_inv s {} [] \<and> pt_inv s {} boot_tab"
proof -
  obtain vm where vm: "kvm_init demo_kvm [] demo_regs = Inr vm" using demo_kvm_init by blast
  obtain vm' where vm': "copy_argv demo_kvm [[0x61], [0x62, 0x63]] vm = Inr vm'" using demo_copy_argv by blast
  have "args_size [[0x61], [0x62, 0x63]] + 8 * length [[0x61], [0x62, 0x63 :: u8]] + 31 \<le> unat KERNEL_STACK_SIZE"
    by (simp add: KERNEL_STACK_SIZE_def)
  note kb = kernel_boot [OF vm _ demo_keeps_regs this vm']
  show ?thesis using kb vm vm' by (auto simp: Let_def)
qed

end
