(* ===== verification/Paging_Spec.thy ===== *)
theory Paging_Spec
  imports Boot
begin

unbundle bit_operations_syntax

text \<open>
  The user address space as the page tables of \<^verbatim>\<open>kernel/mm/translate.c\<close> implement it, and what
  \<^verbatim>\<open>mmap\<close>, \<^verbatim>\<open>mprotect\<close> (\<^verbatim>\<open>kernel/mm/mmap.c\<close>) and \<^verbatim>\<open>access_ok\<close> (\<^verbatim>\<open>kernel/mm/uaccess.c\<close>) do with it.  The
  abstract state is a function from addresses and kinds of access to physical addresses; the operations on
  the tables refine updates of that function on a range of pages.
\<close>

section \<open>Pages and offsets\<close>

lemma mask_12: "(0xfff :: u64) = mask 12"
  by (simp add: mask_eq_exp_minus_1)

lemma unat_and_fff: "unat (x AND 0xfff) = unat x mod 0x1000" for x :: u64
  using and_mask_64 [of x 12] by (simp add: mask_12)

lemma page_aligned_iff: "page_aligned x \<longleftrightarrow> unat x mod 0x1000 = 0"
  using unat_and_fff [of x] by (simp add: unat_eq_zero [symmetric])

lemma same_page_offset:
  assumes "page_aligned a"
  shows "drop_bit 12 w = drop_bit 12 a \<longleftrightarrow> unat (w - a) < 0x1000"
    and "unat (w - a) < 0x1000 \<Longrightarrow> w AND 0xfff = w - a"
proof -
  obtain q where q: "unat a = 0x1000 * q" using assms by (auto simp: page_aligned_iff elim!: dvdE simp: mod_eq_0_iff_dvd)
  have d: "drop_bit 12 w = drop_bit 12 a \<longleftrightarrow> unat w div 0x1000 = q"
    using unat_drop_bit [of 12 w] unat_drop_bit [of 12 a] q by (simp add: word_unat_eq_iff)
  have s: "unat (w - a) = (if a \<le> w then unat w - unat a else 2 ^ 64 - (unat a - unat w))"
    using unat_sub_less [of w a] by (auto simp: unat_sub not_le)
  have "unat w div 0x1000 = q \<longleftrightarrow> a \<le> w \<and> unat w - unat a < 0x1000"
    using q by (auto simp: word_le_nat_alt div_nat_eqI)
  moreover have far: "2 ^ 64 - (unat a - unat w) \<ge> 0x1000" if "\<not> a \<le> w"
    using q unat_bound_64 [of a] that by (simp add: word_le_nat_alt)
  ultimately show iff: "drop_bit 12 w = drop_bit 12 a \<longleftrightarrow> unat (w - a) < 0x1000"
    unfolding d s by auto
  assume l: "unat (w - a) < 0x1000"
  then have "a \<le> w" "unat w - unat a < 0x1000" using s far by (auto split: if_splits)
  then have "unat w mod 0x1000 = unat w - unat a" using q
    by (metis le_add_diff_inverse mod_less mod_mult_self4 word_le_nat_alt)
  then show "w AND 0xfff = w - a"
    using \<open>a \<le> w\<close> by (simp add: word_unat_eq_iff unat_and_fff unat_sub)
qed

section \<open>The user address space as a function\<close>

text \<open>
  The abstract state of the page tables: for every user address and kind of access the physical
  address, or -1.
\<close>

type_synonym address_space = "u64 \<Rightarrow> bool \<Rightarrow> bool \<Rightarrow> u64"

definition user_space :: "'z kpaging_scheme \<Rightarrow> address_space" where
  "user_space s v um wr = (if USER_MEM_RANGE_OK v then translate s v um wr else -1)"

definition permits :: "u32 \<Rightarrow> bool \<Rightarrow> bool \<Rightarrow> bool" where
  "permits prot um wr \<longleftrightarrow> (um \<longrightarrow> prot AND PROT_R \<noteq> 0) \<and> (wr \<longrightarrow> prot AND PROT_W \<noteq> 0)"

text \<open>Mapping \<open>n\<close> pages from \<open>addr\<close> to the kernel block at \<open>ret\<close>, and changing the protection of \<open>n\<close> pages.\<close>

definition map_range :: "address_space \<Rightarrow> u64 \<Rightarrow> nat \<Rightarrow> u64 \<Rightarrow> u32 \<Rightarrow> address_space" where
  "map_range a addr n ret prot = (\<lambda>v um wr.
     if USER_MEM_RANGE_OK v \<and> unat (v - addr) < n * 0x1000
     then if permits prot um wr then dm (ret + (v - addr)) else -1
     else a v um wr)"

definition protect_range :: "address_space \<Rightarrow> u64 \<Rightarrow> nat \<Rightarrow> u32 \<Rightarrow> address_space" where
  "protect_range a addr n prot = (\<lambda>v um wr.
     if USER_MEM_RANGE_OK v \<and> unat (v - addr) < n * 0x1000
     then if permits prot um wr then a v False False else -1
     else a v um wr)"

text \<open>What operations on the tables keep of everything that is not a table.\<close>

definition extends ::
    "'z kpaging_scheme \<Rightarrow> region set \<Rightarrow> tables \<Rightarrow> 'z kpaging_scheme \<Rightarrow> region set \<Rightarrow> tables \<Rightarrow> bool" where
  "extends s A tab s' A' tab' \<longleftrightarrow>
     A \<subseteq> A' \<and> ran tab \<subseteq> ran tab' \<and> cr3 s' = cr3 s \<and> arena s' = arena s \<and>
     (\<forall>r. held s A r \<and> (\<forall>t\<in>ran tab. disjr (tbl t) r) \<longrightarrow>
        same_on (kmem s) (kmem s') r \<and> (\<forall>t\<in>ran tab'. disjr (tbl t) r))"

lemma extends_refl [simp]: "extends s A tab s A tab"
  by (simp add: extends_def)

lemma extendsD:
  assumes "extends s A tab s' A' tab'"
  shows "A \<subseteq> A'" "ran tab \<subseteq> ran tab'" "cr3 s' = cr3 s" "arena s' = arena s"
  using assms by (simp_all add: extends_def)

lemma extends_trans:
  assumes "extends s A tab s1 A1 tab1" "extends s1 A1 tab1 s2 A2 tab2"
  shows "extends s A tab s2 A2 tab2"
proof -
  have "same_on (kmem s) (kmem s2) r \<and> (\<forall>t\<in>ran tab2. disjr (tbl t) r)"
    if r: "held s A r \<and> (\<forall>t\<in>ran tab. disjr (tbl t) r)" for r
  proof -
    have 1: "same_on (kmem s) (kmem s1) r" "\<forall>t\<in>ran tab1. disjr (tbl t) r" "held s1 A1 r"
      using assms(1) r held_mono [of s A r A1 s1] unfolding extends_def by blast+
    then show ?thesis using assms(2) same_on_trans unfolding extends_def by blast
  qed
  moreover note 1 = extendsD [OF assms(1)] and 2 = extendsD [OF assms(2)]
  ultimately show ?thesis
    using order_trans [OF 1(1) 2(1)] order_trans [OF 1(2) 2(2)] 1(3,4) 2(3,4) unfolding extends_def by simp
qed

lemma add_trans_user_page:
  assumes "heap_inv s A F" "pt_inv s A tab" "USER_MEM_RANGE_OK v" "page_aligned v" "page_aligned pa" "kreg (pa, 0x1000)"
  shows "(add_trans_user s v pa prot = Inl null_write \<and> unat (arena_top_size s) < 0x6180) \<or>
    (\<exists>s' A' F' tab'. add_trans_user s v pa prot = Inr s' \<and> heap_inv s' A' F' \<and> pt_inv s' A' tab' \<and>
      extends s A tab s' A' tab' \<and> user_space s' = map_range (user_space s) v 1 pa prot \<and>
      unat (arena_top_size s) \<le> unat (arena_top_size s') + 0x6180)"
  using add_trans_user_step [OF assms(1-3,5), of prot]
proof (elim disjE exE conjE)
  fix s' A' F' tab'
  assume h: "add_trans_user s v pa prot = Inr s'" "heap_inv s' A' F'" "pt_inv s' A' tab'" "A \<subseteq> A'"
    "cr3 s' = cr3 s" "arena s' = arena s" "unat (arena_top_size s) \<le> unat (arena_top_size s') + 0x6180" "ran tab \<subseteq> ran tab'"
    "\<forall>r. held s A r \<and> (\<forall>t\<in>ran tab. disjr (tbl t) r) \<longrightarrow> same_on (kmem s) (kmem s') r \<and> (\<forall>t\<in>ran tab'. disjr (tbl t) r)"
    and tr: "\<forall>w um wr. USER_MEM_RANGE_OK w \<longrightarrow> translate s' w um wr = (if drop_bit 12 w = drop_bit 12 v
      then if (um \<longrightarrow> prot AND PROT_R \<noteq> 0) \<and> (wr \<longrightarrow> prot AND PROT_W \<noteq> 0)
           then (pa AND NOT KERNEL_BASE_OFFSET) + (w AND 0xfff) else -1
      else translate s w um wr)"
  have "dm (pa + (w - v)) = (pa AND NOT KERNEL_BASE_OFFSET) + (w AND 0xfff)" if "unat (w - v) < 0x1000" for w
  proof -
    have "kptr pa" "unat pa + unat (w - v) < 2 ^ 40" using assms(6) that by (auto simp: kreg_def kptr_def)
    from dm_add [OF this] show ?thesis using same_page_offset(2) [OF assms(4) that] by (simp add: dm_def)
  qed
  then have "user_space s' = map_range (user_space s) v 1 pa prot"
    using tr same_page_offset(1) [OF assms(4)]
    by (intro ext) (auto simp: user_space_def map_range_def permits_def)
  then show ?thesis using h unfolding extends_def by blast
qed blast

lemma page_aligned_add: "page_aligned a \<Longrightarrow> page_aligned (a + 0x1000)"
proof -
  assume "page_aligned a"
  then have "unat a mod 0x1000 = 0" by (simp add: page_aligned_iff)
  moreover have "unat (a + 0x1000) mod 0x1000 = (unat a + 0x1000) mod 0x1000"
    unfolding unat_word_ariths by (simp add: mod_mod_cancel)
  ultimately show ?thesis by (simp add: page_aligned_iff mod_add_eq [symmetric])
qed

lemma map_range_split:
  "map_range (map_range a addr 1 ret prot) (addr + 0x1000) n (ret + 0x1000) prot = map_range a addr (Suc n) ret prot"
proof (intro ext)
  fix v um wr
  let ?d = "v - addr"
  have d: "v - (addr + 0x1000) = ?d - 0x1000" by simp
  have "unat ?d < Suc n * 0x1000 \<longleftrightarrow> unat ?d < 0x1000 \<or> unat (?d - 0x1000) < n * 0x1000"
  proof (cases "unat ?d < 0x1000")
    case True
    then show ?thesis by simp
  next
    case False
    then have "unat (?d - 0x1000) = unat ?d - 0x1000" by (simp add: unat_sub word_le_nat_alt)
    then show ?thesis using False by auto
  qed
  moreover have "ret + 0x1000 + (?d - 0x1000) = ret + ?d" by simp
  ultimately show "map_range (map_range a addr 1 ret prot) (addr + 0x1000) n (ret + 0x1000) prot v um wr
      = map_range a addr (Suc n) ret prot v um wr"
    unfolding map_range_def d by auto
qed

lemma map_pages_step:
  assumes "heap_inv s A F" "pt_inv s A tab" "\<forall>i < n. USER_MEM_RANGE_OK (addr + of_nat (i * 0x1000))"
    "page_aligned addr" "page_aligned ret" "n = 0 \<or> kreg (ret, n * 0x1000)"
  shows "(map_pages s addr ret prot n = Inl null_write \<and> unat (arena_top_size s) < n * 0x6180) \<or>
    (\<exists>s' A' F' tab'. map_pages s addr ret prot n = Inr s' \<and> heap_inv s' A' F' \<and> pt_inv s' A' tab' \<and>
      extends s A tab s' A' tab' \<and> user_space s' = map_range (user_space s) addr n ret prot \<and>
      unat (arena_top_size s) \<le> unat (arena_top_size s') + n * 0x6180)"
  using assms
proof (induction n arbitrary: s A F tab addr ret)
  case 0
  have "user_space s = map_range (user_space s) addr 0 ret prot" by (simp add: map_range_def)
  then show ?case using 0(1,2) extends_refl by fastforce
next
  case (Suc n)
  have k: "kreg (ret, Suc n * 0x1000)" using Suc.prems(6) by simp
  have k1: "kreg (ret, 0x1000)" using k by (auto simp: kreg_def)
  have k2: "n = 0 \<or> kreg (ret + 0x1000, n * 0x1000)"
    using kreg_sub [OF k, of "0x1000" "n * 0x1000"] by auto
  have al: "page_aligned (addr + 0x1000)" "page_aligned (ret + 0x1000)"
    using page_aligned_add [OF Suc.prems(4)] page_aligned_add [OF Suc.prems(5)] by simp_all
  have "USER_MEM_RANGE_OK (addr + 0x1000 + of_nat (i * 0x1000))" if "i < n" for i
    using spec [OF Suc.prems(3), of "Suc i"] that by (simp add: algebra_simps)
  then have u: "USER_MEM_RANGE_OK addr" "\<forall>i < n. USER_MEM_RANGE_OK (addr + 0x1000 + of_nat (i * 0x1000))"
    using spec [OF Suc.prems(3), of 0] by simp_all
  show ?case
    using add_trans_user_page [OF Suc.prems(1,2) u(1) Suc.prems(4,5) k1, of prot]
  proof (elim disjE exE conjE)
    fix s1 A1 F1 tab1
    assume 1: "add_trans_user s addr ret prot = Inr s1" "heap_inv s1 A1 F1" "pt_inv s1 A1 tab1"
      "extends s A tab s1 A1 tab1" "user_space s1 = map_range (user_space s) addr 1 ret prot"
      "unat (arena_top_size s) \<le> unat (arena_top_size s1) + 0x6180"
    show ?thesis
      using Suc.IH [OF 1(2,3) u(2) al k2]
    proof (elim disjE exE conjE)
      fix s' A' F' tab'
      assume 2: "map_pages s1 (addr + 0x1000) (ret + 0x1000) prot n = Inr s'" "heap_inv s' A' F'" "pt_inv s' A' tab'"
        "extends s1 A1 tab1 s' A' tab'" "user_space s' = map_range (user_space s1) (addr + 0x1000) n (ret + 0x1000) prot"
        "unat (arena_top_size s1) \<le> unat (arena_top_size s') + n * 0x6180"
      have "user_space s' = map_range (user_space s) addr (Suc n) ret prot"
        unfolding 2(5) 1(5) by (rule map_range_split)
      then show ?thesis using 1 2 extends_trans [OF 1(4) 2(4)] by (intro disjI2 exI [of _ s'] exI [of _ A'] exI [of _ F'] exI [of _ tab']) simp
    qed (use 1 in auto)
  qed auto
qed

lemma pt_inv_served:
  assumes inv: "heap_inv s A F" and pt: "pt_inv s A tab" and c: "served s s1 A c F1" and more: "cr3 s1 = cr3 s"
  shows "pt_inv s1 (insert c A) tab" "extends s A tab s1 (insert c A) tab" "user_space s1 = user_space s"
    "\<forall>t\<in>ran tab. disjr (tbl t) (block c)"
proof -
  have ok: "pt_ok (kmem s) tab" and root: "tab [] = Some (cr3 s)"
    and held: "\<And>q w. tab q = Some w \<Longrightarrow> held s A (tbl w)" using pt by (auto simp: pt_inv_def)
  have kept: "kept s s1 A" using c by (simp add: served_def)
  note ar = arena_kept [OF kept]
  have same: "same_on (kmem s) (kmem s1) r" if "held s A r" for r by (rule held_same_on [OF inv kept that])
  note ok1 = pt_ok_same_on [OF ok same [OF held]]
  have "held s1 (insert c A) (tbl w)" if "tab q = Some w" for q w
    by (rule held_mono [OF held [OF that] subset_insertI ar])
  then show pt1: "pt_inv s1 (insert c A) tab" using ok1(1) root more by (simp add: pt_inv_def)
  show "user_space s1 = user_space s"
    using translate_leaf [OF pt1] translate_leaf [OF pt] ok1(2) by (intro ext) (simp add: user_space_def)
  show "\<forall>t\<in>ran tab. disjr (tbl t) (block c)"
    using served_disjr [OF c inv held] by (auto simp: ran_def disjr_sym)
  show "extends s A tab s1 (insert c A) tab" using same more ar by (auto simp: extends_def)
qed

lemma held_block: "heap_inv s A F \<Longrightarrow> c \<in> A \<Longrightarrow> subr r (block c) \<Longrightarrow> kreg r \<Longrightarrow> held s A r"
  by (auto simp: held_def)

text \<open>The address \<^verbatim>\<open>mmap\<close> chooses.\<close>

definition mmap_base :: "'z kmm_scheme \<Rightarrow> u64 \<Rightarrow> u64 \<Rightarrow> u64" where
  "mmap_base s addr len =
     (if addr = 0 then (if last_mmapped s = -1 then 0x00007ffff7fff000 else last_mmapped s) - len else addr)"

lemma last_mmapped_update [simp]:
  "heap_inv (s\<lparr>last_mmapped := x\<rparr>) A F \<longleftrightarrow> heap_inv s A F" "pt_inv (s\<lparr>last_mmapped := x\<rparr>) A tab \<longleftrightarrow> pt_inv s A tab"
  "user_space (s\<lparr>last_mmapped := x\<rparr>) = user_space s" "extends s0 A0 tab0 (s\<lparr>last_mmapped := x\<rparr>) A tab \<longleftrightarrow> extends s0 A0 tab0 s A tab"
  "extends (s\<lparr>last_mmapped := x\<rparr>) A tab s0 A0 tab0 \<longleftrightarrow> extends s A tab s0 A0 tab0"
proof -
  show "heap_inv (s\<lparr>last_mmapped := x\<rparr>) A F \<longleftrightarrow> heap_inv s A F" by (simp add: heap_inv_def arena_ok_def)
  have h: "held (s\<lparr>last_mmapped := x\<rparr>) A r \<longleftrightarrow> held s A r" for r by (simp add: held_def arena_def arena_end_def)
  then show "pt_inv (s\<lparr>last_mmapped := x\<rparr>) A tab \<longleftrightarrow> pt_inv s A tab" by (simp add: pt_inv_def)
  show "user_space (s\<lparr>last_mmapped := x\<rparr>) = user_space s"
    by (intro ext) (simp add: user_space_def translate_def get_pml4_addr_def)
  show "extends s0 A0 tab0 (s\<lparr>last_mmapped := x\<rparr>) A tab \<longleftrightarrow> extends s0 A0 tab0 s A tab"
    by (simp add: extends_def arena_def arena_end_def)
  show "extends (s\<lparr>last_mmapped := x\<rparr>) A tab s0 A0 tab0 \<longleftrightarrow> extends s A tab s0 A0 tab0"
    by (simp add: extends_def arena_def arena_end_def h)
qed

lemma kmalloc_room:
  assumes inv: "heap_inv s A F" and len: "unat len < 2 ^ 31" and k: "kmalloc s len MALLOC_PAGE_ALIGN = Inr (p, s')"
    and ends: "arena_end s' = arena_end s"
  shows "unat (arena_top_size s) < unat (arena_top_size s') + rounded (unat len) + 0x1000"
proof -
  obtain s1 where i: "int_kmalloc s (of_nat (rounded (unat len))) MALLOC_PAGE_ALIGN = Inr (p, s1)" "arena_top s' = arena_top s1"
    using k len by (auto simp: kmalloc_eq bindE_eq_Inr split: if_splits)
  have "unat (of_nat (rounded (unat len)) :: u64) = rounded (unat len)"
    using rounded_bounds(2) [of "unat len"] len by simp
  moreover have "page_gap s < 0x1000"
    using heap_inv_arena [OF inv] by (intro page_gap_mod(4)) (auto simp: arena_ok_def)
  ultimately have "unat (arena_top s') < unat (arena_top s) + rounded (unat len) + 0x1000"
    using int_kmalloc_page_top [OF i(1)] i(2) by simp
  then show ?thesis using ends by (simp add: arena_end_def)
qed

lemma kptr_block: "kreg (block c) \<Longrightarrow> kptr (chunk2mem (fst c))"
  by (auto simp: kreg_def kptr_def block_def)

lemma cr3_kmalloc: "kmalloc s len al = Inr (p, s') \<Longrightarrow> cr3 s' = cr3 s" for s :: "'z kpaging_scheme"
  by (rule cr3_more [OF kmalloc_more])

lemma last_mmapped_more: "kheap.more s' = kheap.more s \<Longrightarrow> last_mmapped s' = last_mmapped s"
  by (cases s, cases s') simp

lemma set_prot_more: "kheap.more (s\<lparr>kmem := m\<rparr>) = kheap.more s"
  by simp

lemma paging_user_more: "paging_user s p = Inr (q, s') \<Longrightarrow> kheap.more s' = kheap.more s"
  by (auto simp: paging_user_def bindE_eq_Inr dest!: kmalloc_more split: if_splits)

lemma add_trans_user_more: "add_trans_user s v pa prot = Inr s' \<Longrightarrow> kheap.more s' = kheap.more s"
  by (auto simp: add_trans_user_def bindE_eq_Inr Let_def dest!: paging_user_more split: if_splits)

lemma map_pages_more: "map_pages s addr ret prot n = Inr s' \<Longrightarrow> kheap.more s' = kheap.more s"
  by (induction n arbitrary: s addr ret) (auto simp: bindE_eq_Inr dest!: add_trans_user_more)

lemma kmalloc_pages:
  assumes inv: "heap_inv s A F" and len: "unat len < 2 ^ 31" "len AND 0xfff = 0" "len \<noteq> 0"
    and room: "\<not> no_room s F (rounded (unat len)) MALLOC_PAGE_ALIGN"
  obtains c s1 F1 where "kmalloc s len MALLOC_PAGE_ALIGN = Inr (chunk2mem (fst c), s1)" "served s s1 A c F1"
    "snd c = rounded (unat len)" "page_aligned (chunk2mem (fst c))" "kreg (chunk2mem (fst c), unat len)"
    "subr (chunk2mem (fst c), unat len) (block c)" "chunk2mem (fst c) \<noteq> 0"
    "load_bytes (kmem s1) (dm (chunk2mem (fst c))) (unat len) = replicate (unat len) 0"
    "unat (arena_top_size s) < unat (arena_top_size s1) + rounded (unat len) + 0x1000"
proof (cases rule: kmalloc_cases [OF inv less_trans [OF len(1)] disjI2 [OF refl]])
  case (5 s1 c F1)
  have c: "heap_inv s1 (insert c A) F1" "kept s s1 A" using 5(3) by (simp_all add: served_def)
  note b = block_facts [OF c(1), of c, simplified]
  have "unat len + 16 \<le> snd c" using 5(4) rounded_bounds(1) by simp
  then have s: "subr (chunk2mem (fst c), unat len) (block c)" by (simp add: subr_def block_def)
  have k: "kreg (chunk2mem (fst c), unat len)"
    using b(4) s len(3) by (auto simp: kreg_def block_def subr_def unat_gt_0)
  have "page_aligned (chunk2mem (fst c))" using 5(7) by (simp add: page_aligned_iff MALLOC_NO_ALIGN_def MALLOC_PAGE_ALIGN_def)
  moreover have "unat (arena_top_size s) < unat (arena_top_size s1) + rounded (unat len) + 0x1000"
    using c(2) by (intro kmalloc_room [OF inv len(1) 5(1)]) (simp add: kept_def)
  moreover have "chunk2mem (fst c) \<noteq> 0" using b(1,2) by (intro chunk2mem_nz) auto
  ultimately show thesis using that [OF 5(1,3,4)] 5(6) s k by blast
qed (use room len in auto)

section \<open>Mapping fresh memory\<close>

lemma mmap_eq:
  assumes "len \<noteq> 0" "len AND 0xfff = 0" "kmalloc s len MALLOC_PAGE_ALIGN = Inr (ret, s1)" "ret \<noteq> 0"
    "last_mmapped s1 = last_mmapped s"
  shows "\<exists>x. mmap s addr len prot =
    bindE (map_pages (s1\<lparr>last_mmapped := x\<rparr>) (mmap_base s addr len) ret prot (unat len div 0x1000))
      (\<lambda>s'. Inr (mmap_base s addr len, s'))"
proof -
  have "s1\<lparr>last_mmapped := last_mmapped s\<rparr> = s1" using assms(5) by (metis kmm.surjective kmm.update_convs(1))
  note same = this
  let ?lm = "if last_mmapped s1 = -1 then 0x00007ffff7fff000 else last_mmapped s1"
  let ?x = "if addr = 0 then mmap_base s addr len else ?lm"
  have "mmap s addr len prot = bindE (map_pages (s1\<lparr>last_mmapped := ?x\<rparr>) (mmap_base s addr len) ret prot (unat len div 0x1000))
      (\<lambda>s'. Inr (mmap_base s addr len, s'))"
    using assms by (cases "last_mmapped s1 = -1"; cases "addr = 0") (simp_all add: mmap_def mmap_base_def same)
  then show ?thesis by blast
qed

lemma mmap_step:
  assumes inv: "heap_inv s A F" and pt: "pt_inv s A tab" and len: "unat len < 2 ^ 31" "len AND 0xfff = 0" "len \<noteq> 0"
    and base: "page_aligned (mmap_base s addr len)"
      "\<forall>i < unat len div 0x1000. USER_MEM_RANGE_OK (mmap_base s addr len + of_nat (i * 0x1000))"
    and room: "\<not> no_room s F (rounded (unat len)) MALLOC_PAGE_ALIGN"
  shows "(mmap s addr len prot = Inl null_write \<and>
        unat (arena_top_size s) < rounded (unat len) + 0x1000 + unat len div 0x1000 * 0x6180) \<or>
    (\<exists>s' A' F' tab' ret. mmap s addr len prot = Inr (mmap_base s addr len, s') \<and>
        heap_inv s' A' F' \<and> pt_inv s' A' tab' \<and> extends s A tab s' A' tab' \<and>
        user_space s' = map_range (user_space s) (mmap_base s addr len) (unat len div 0x1000) ret prot \<and>
        (mem2chunk ret, rounded (unat len)) \<in> A' - A \<and>
        load_bytes (kmem s') (dm ret) (unat len) = replicate (unat len) 0)"
proof -
  obtain c s1 F1 where k: "kmalloc s len MALLOC_PAGE_ALIGN = Inr (chunk2mem (fst c), s1)" "served s s1 A c F1"
    "snd c = rounded (unat len)" "page_aligned (chunk2mem (fst c))" "kreg (chunk2mem (fst c), unat len)"
    "subr (chunk2mem (fst c), unat len) (block c)" "chunk2mem (fst c) \<noteq> 0"
    "load_bytes (kmem s1) (dm (chunk2mem (fst c))) (unat len) = replicate (unat len) 0"
    "unat (arena_top_size s) < unat (arena_top_size s1) + rounded (unat len) + 0x1000"
    by (rule kmalloc_pages [OF inv len room])
  let ?ret = "chunk2mem (fst c)" and ?b = "mmap_base s addr len" and ?n = "unat len div 0x1000"
  have more: "kheap.more s1 = kheap.more s" by (rule kmalloc_more [OF k(1)])
  have lm: "last_mmapped s1 = last_mmapped s" by (rule last_mmapped_more [OF more])
  note sv = pt_inv_served [OF inv pt k(2) cr3_more [OF more]]
  have c: "heap_inv s1 (insert c A) F1" "c \<notin> A" using k(2) by (simp_all add: served_def)
  have "unat len mod 0x1000 = 0" using len(2) by (simp add: page_aligned_iff)
  then have n: "?n * 0x1000 = unat len" by (metis div_mult_mod_eq add_0_right)
  obtain x where mm: "mmap s addr len prot =
      bindE (map_pages (s1\<lparr>last_mmapped := x\<rparr>) ?b ?ret prot ?n) (\<lambda>s. Inr (?b, s))"
    using mmap_eq [OF len(3,2) k(1,7) lm] by blast
  define s2 where "s2 = s1\<lparr>last_mmapped := x\<rparr>"
  have s2: "heap_inv s2 (insert c A) F1" "pt_inv s2 (insert c A) tab" "?n = 0 \<or> kreg (?ret, ?n * 0x1000)"
    using c(1) sv(1) k(5) n by (simp_all add: s2_def)
  show ?thesis
    using map_pages_step [OF s2(1,2) base(2,1) k(4) s2(3), of prot]
  proof (elim disjE exE conjE)
    assume "map_pages s2 ?b ?ret prot ?n = Inl null_write" "unat (arena_top_size s2) < ?n * 0x6180"
    then show ?thesis using mm k(9) by (simp add: s2_def)
  next
    fix s' A' F' tab'
    assume h: "map_pages s2 ?b ?ret prot ?n = Inr s'" "heap_inv s' A' F'" "pt_inv s' A' tab'"
      "extends s2 (insert c A) tab s' A' tab'" "user_space s' = map_range (user_space s2) ?b ?n ?ret prot"
    have ext: "extends s1 (insert c A) tab s' A' tab'" using h(4) by (simp add: s2_def)
    have "disjr (tbl t) (?ret, unat len)" if "t \<in> ran tab" for t
      using sv(4) that k(6) by (auto simp: disjr_def subr_def)
    then have "same_on (kmem s1) (kmem s') (?ret, unat len)"
      using ext held_block [OF c(1) _ k(6,5)] unfolding extends_def by blast
    then have "load_bytes (kmem s') (dm ?ret) (unat len) = replicate (unat len) 0" using k(8) by (simp add: same_on_def)
    moreover have "(mem2chunk ?ret, rounded (unat len)) = c" using k(3) by (simp add: prod_eq_iff)
    moreover have "c \<in> A'" using extendsD(1) [OF ext] by simp
    ultimately show ?thesis
      using h mm extends_trans [OF sv(2) ext] sv(3) c(2)
      by (intro disjI2 exI [of _ s'] exI [of _ A'] exI [of _ F'] exI [of _ tab'] exI [of _ ?ret]) (simp add: s2_def)
  qed
qed

section \<open>Changing protections\<close>

lemma modify_permission_page:
  assumes "heap_inv s A F" "pt_inv s A tab" "page_aligned v" "user_space s v False False \<noteq> -1"
  obtains s' where "modify_permission s v prot = (0, s')" "heap_inv s' A F" "pt_inv s' A tab"
    "user_space s' = protect_range (user_space s) v 1 prot"
proof -
  have v: "USER_MEM_RANGE_OK v" "translate s v False False \<noteq> -1"
    using assms(4) by (auto simp: user_space_def split: if_splits)
  obtain s' where h: "modify_permission s v prot = (0, s')" "heap_inv s' A F" "pt_inv s' A tab"
    and tr: "\<forall>w um wr. USER_MEM_RANGE_OK w \<longrightarrow> translate s' w um wr =
         (if drop_bit 12 w = drop_bit 12 v
          then if (um \<longrightarrow> prot AND PROT_R \<noteq> 0) \<and> (wr \<longrightarrow> prot AND PROT_W \<noteq> 0)
               then translate s w False False else -1
          else translate s w um wr)"
    using modify_permission_step [OF assms(1,2) v(1), of prot] v(2) by auto
  have "user_space s' = protect_range (user_space s) v 1 prot"
    using tr same_page_offset(1) [OF assms(3)]
    by (intro ext) (auto simp: user_space_def protect_range_def permits_def)
  then show thesis using that h by blast
qed

lemma protect_range_split:
  "protect_range (protect_range a addr 1 prot) (addr + 0x1000) n prot = protect_range a addr (Suc n) prot"
proof (intro ext)
  fix v um wr
  let ?d = "v - addr"
  have d: "v - (addr + 0x1000) = ?d - 0x1000" by simp
  have "unat ?d < Suc n * 0x1000 \<longleftrightarrow> unat ?d < 0x1000 \<or> unat (?d - 0x1000) < n * 0x1000"
  proof (cases "unat ?d < 0x1000")
    case False
    then have "unat (?d - 0x1000) = unat ?d - 0x1000" by (simp add: unat_sub word_le_nat_alt)
    then show ?thesis using False by auto
  qed simp
  then show "protect_range (protect_range a addr 1 prot) (addr + 0x1000) n prot v um wr
      = protect_range a addr (Suc n) prot v um wr"
    unfolding protect_range_def d by (auto simp: permits_def)
qed

lemma protect_range_mapped: "protect_range a addr n prot v False False = a v False False"
  by (simp add: protect_range_def permits_def)

lemma protect_pages_step:
  assumes "heap_inv s A F" "pt_inv s A tab" "page_aligned addr"
  shows "\<exists>k s'. k \<le> n \<and> protect_pages s addr prot n = (if k = n then 0 else - EACCES, s') \<and>
    heap_inv s' A F \<and> pt_inv s' A tab \<and> user_space s' = protect_range (user_space s) addr k prot \<and>
    (\<forall>i < k. user_space s (addr + of_nat (i * 0x1000)) False False \<noteq> -1) \<and>
    (k < n \<longrightarrow> user_space s (addr + of_nat (k * 0x1000)) False False = -1)"
  using assms
proof (induction n arbitrary: s addr)
  case 0
  then show ?case by (intro exI [of _ 0] exI [of _ s]) (simp add: protect_range_def)
next
  case (Suc n)
  have zero: "user_space s = protect_range (user_space s) addr 0 prot" by (simp add: protect_range_def)
  show ?case
  proof (cases "user_space s addr False False = -1")
    case True
    then have "protect_pages s addr prot (Suc n) = (- EACCES, s)"
      using modify_permission_step [OF Suc.prems(1,2), of addr prot]
      by (auto simp: user_space_def Let_def split: if_splits)
    then show ?thesis using True Suc.prems(1,2) zero by (intro exI [of _ 0] exI [of _ s]) simp
  next
    case False
    obtain s1 where 1: "modify_permission s addr prot = (0, s1)" "heap_inv s1 A F" "pt_inv s1 A tab"
      "user_space s1 = protect_range (user_space s) addr 1 prot"
      by (rule modify_permission_page [OF Suc.prems False])
    obtain k s' where 2: "k \<le> n" "protect_pages s1 (addr + 0x1000) prot n = (if k = n then 0 else - EACCES, s')"
      "heap_inv s' A F" "pt_inv s' A tab" "user_space s' = protect_range (user_space s1) (addr + 0x1000) k prot"
      "\<forall>i < k. user_space s1 (addr + 0x1000 + of_nat (i * 0x1000)) False False \<noteq> -1"
      "k < n \<longrightarrow> user_space s1 (addr + 0x1000 + of_nat (k * 0x1000)) False False = -1"
      using Suc.IH [OF 1(2,3) page_aligned_add [OF Suc.prems(3)]] by blast
    have ad: "addr + 0x1000 + of_nat (i * 0x1000) = addr + of_nat (Suc i * 0x1000)" for i by (simp add: algebra_simps)
    note m = 2(6,7) [unfolded ad 1(4) protect_range_mapped]
    have "user_space s (addr + of_nat (i * 0x1000)) False False \<noteq> -1" if "i < Suc k" for i
      using m(1) False that by (cases i) simp_all
    moreover have "user_space s' = protect_range (user_space s) addr (Suc k) prot"
      unfolding 2(5) 1(4) by (rule protect_range_split)
    moreover have "protect_pages s addr prot (Suc n) = (if Suc k = Suc n then 0 else - EACCES, s')"
      using 1(1) 2(2) False by (auto simp: user_space_def split: if_splits)
    ultimately show ?thesis using 2(1,3,4) m(2) by (intro exI [of _ "Suc k"] exI [of _ s']) simp
  qed
qed

section \<open>Access checks\<close>

lemma window_user:
  assumes "pt_inv s A tab" "PML4OFF v = 1" shows "translate s v True wr = -1"
proof -
  have "entry (kmem s) (cr3 s) 1 AND PDE64_USER = 0" using assms(1) by (auto simp: pt_inv_def intro: pt_ok_window)
  then have "paging_check (kmem s) True wr ((cr3 s OR KERNEL_BASE_OFFSET) + 8 * 1) = None"
    by (simp add: entry_def paging_check_def)
  then show ?thesis unfolding translate_def get_pml4_addr_def assms(2) Let_def by simp
qed

lemma pml4_index_39: "drop_bit 48 v = 0 \<Longrightarrow> PML4OFF v = drop_bit 39 v" for v :: u64
proof (rule bit_eqI)
  fix n assume "drop_bit 48 v = 0"
  then show "bit (PML4OFF v) n \<longleftrightarrow> bit (drop_bit 39 v) n"
    using high_bits_zero [of v "39 + n"] by (cases "n < 9") (auto simp: offset_defs bit_pte_index bit_drop_bit_eq)
qed

lemma drop_bit_48: "drop_bit 48 v = 0 \<longleftrightarrow> unat v < 2 ^ 48" for v :: u64
proof -
  have "drop_bit 48 v = 0 \<longleftrightarrow> unat v div 2 ^ 48 = 0" unfolding unat_drop_bit [symmetric] by (simp add: unat_eq_zero)
  then show ?thesis using div_eq_0_iff [of "unat v" "2 ^ 48"] by simp
qed

lemma user_range_iff:
  "USER_MEM_RANGE_OK v \<longleftrightarrow> 0x200000 \<le> unat v \<and> unat v < 2 ^ 48 \<and> unat v div 2 ^ 39 \<noteq> 1"
proof -
  have "drop_bit 39 v = 1 \<longleftrightarrow> unat v div 2 ^ 39 = 1"
    using unat_drop_bit [of 39 v] by (simp add: word_unat_eq_iff)
  then show ?thesis
    by (simp add: USER_MEM_RANGE_OK_def MIN_USER_MEM_def KERNEL_PAGING_SIZE_def word_le_nat_alt drop_bit_48)
qed

text \<open>Whether a user access is possible is the same for all addresses of a page.\<close>

lemma user_range_page: "drop_bit 12 v = drop_bit 12 w \<Longrightarrow> USER_MEM_RANGE_OK v \<longleftrightarrow> USER_MEM_RANGE_OK w"
proof -
  assume "drop_bit 12 v = drop_bit 12 w"
  then have q: "unat v div 0x1000 = unat w div 0x1000" using unat_drop_bit [of 12 v] unat_drop_bit [of 12 w] by simp
  have "unat x div 2 ^ 39 = unat x div 0x1000 div 2 ^ 27" for x :: u64 by (simp add: div_mult2_eq [symmetric])
  moreover have "0x200000 \<le> unat x \<longleftrightarrow> 0x200 \<le> unat x div 0x1000" for x :: u64 by (simp add: less_eq_div_iff_mult_less_eq)
  moreover have "unat x < 2 ^ 48 \<longleftrightarrow> unat x div 0x1000 < 2 ^ 36" for x :: u64 by (simp add: div_less_iff_less_mult)
  ultimately show ?thesis unfolding user_range_iff using q by simp
qed

lemma translate_page:
  assumes "pt_inv s A tab" "USER_MEM_RANGE_OK v" "drop_bit 12 w = drop_bit 12 v"
  shows "translate s v um wr = -1 \<longleftrightarrow> translate s w um wr = -1"
proof -
  have w: "USER_MEM_RANGE_OK w" using assms(2,3) user_range_page by blast
  have "upath w = upath v" "PTOFF w = PTOFF v"
    using same_page_iff [of w v] user_range_index(1) [OF assms(2)] user_range_index(1) [OF w] assms(3)
    by (auto simp: upath_def)
  then have "leaf (kmem s) tab w = leaf (kmem s) tab v" by (simp add: leaf_def cong: option.case_cong)
  moreover have "leaf_translate e x um wr = -1 \<longleftrightarrow>
      e AND PDE64_PRESENT = 0 \<or> um \<and> e AND PDE64_USER = 0 \<or> wr \<and> e AND PDE64_RW = 0" for e x
    using leaf_translate_mapped [of e x] by (auto simp: leaf_translate_def)
  ultimately show ?thesis using translate_leaf [OF assms(1)] assms(2) w by simp
qed

lemma access_pages_iff: "access_pages s type v n \<longleftrightarrow> (\<forall>i < n. translate s (v + of_nat (i * 0x1000)) True type \<noteq> -1)"
proof (induction n arbitrary: v)
  case (Suc n)
  have "v + 0x1000 + of_nat (i * 0x1000) = v + of_nat (Suc i * 0x1000)" for i by (simp add: algebra_simps)
  then show ?case unfolding All_less_Suc2 using Suc [of "v + 0x1000"] by (simp add: add.assoc)
qed simp

lemma unat_aligndown: "unat (aligndown x) = unat x div 0x1000 * 0x1000"
proof -
  have "(- 0x1000 :: u64) = NOT 0xfff" by simp
  then have "aligndown x + (x AND 0xfff) = x" using and_not_plus_and [of x "0xfff"] by (simp add: aligndown_def)
  then have "aligndown x = x - (x AND 0xfff)" by (metis add_diff_cancel_right')
  moreover have "x AND 0xfff \<le> x" by (simp add: word_le_nat_alt unat_and_fff)
  ultimately have "unat (aligndown x) = unat x - unat x mod 0x1000" by (simp add: unat_sub unat_and_fff)
  then show ?thesis by (simp add: minus_mod_eq_div_mult)
qed

lemma unat_alignup_page: "unat x < 2 ^ 63 \<Longrightarrow> unat (alignup_page x) = (unat x + 0xfff) div 0x1000 * 0x1000"
proof -
  assume x: "unat x < 2 ^ 63"
  define q r where "q = unat x div 0x1000" and "r = unat x mod 0x1000"
  have e: "unat x = q * 0x1000 + r" "r < 0x1000" by (simp_all add: q_def r_def)
  show ?thesis
  proof (cases "r = 0")
    case True
    then have "x AND 0xfff = 0" using page_aligned_iff [of x] unfolding r_def by simp
    moreover have "(unat x + 0xfff) div 0x1000 = q" using e True by (intro div_nat_eqI) auto
    ultimately show ?thesis using e True by (simp add: alignup_page_def)
  next
    case False
    have "unat (aligndown x + 0x1000) = q * 0x1000 + 0x1000"
      using x unfolding q_def by (subst unat_add_64) (simp_all add: unat_aligndown)
    moreover have "(unat x + 0xfff) div 0x1000 = q + 1" using e False by (intro div_nat_eqI) auto
    moreover have "x AND 0xfff \<noteq> 0" using False page_aligned_iff [of x] unfolding r_def by simp
    ultimately show ?thesis by (simp add: alignup_page_def)
  qed
qed

lemma page_of_nat: "x < 2 ^ 64 \<Longrightarrow> y < 2 ^ 64 \<Longrightarrow> x div 0x1000 = y div 0x1000 \<Longrightarrow>
    drop_bit 12 (of_nat x :: u64) = drop_bit 12 (of_nat y)"
  using unat_drop_bit [of 12 "of_nat x"] unat_drop_bit [of 12 "of_nat y"] by (simp add: word_unat_eq_iff)

lemma user_range_nat:
  "x < 2 ^ 64 \<Longrightarrow> USER_MEM_RANGE_OK (of_nat x) \<longleftrightarrow> 0x200000 \<le> x \<and> x < 2 ^ 48 \<and> x div 2 ^ 39 \<noteq> 1"
  by (simp add: user_range_iff)

text \<open>The check of \<^const>\<open>access_ok\<close> in terms of page numbers: both ends of the range are user
  addresses and every page from the first to the last is mapped.\<close>

lemma access_ok_pages:
  fixes a z :: nat
  assumes nw: "a + z < 2 ^ 64" and z: "0 < z"
  shows "access_ok s type (of_nat a) (of_nat z) \<longleftrightarrow>
    USER_MEM_RANGE_OK (of_nat a) \<and> USER_MEM_RANGE_OK (of_nat (a + (z - 1))) \<and>
    (\<forall>i < (a + z + 0xfff) div 0x1000 - a div 0x1000. translate s (of_nat ((a div 0x1000 + i) * 0x1000)) True type \<noteq> -1)"
    (is "_ \<longleftrightarrow> ?A \<and> ?B \<and> ?P")
proof -
  define q E where "q = a div 0x1000" and "E = (a + z + 0xfff) div 0x1000"
  have "Suc (a + (z - 1)) = a + z" using z by simp
  from arg_cong [OF this, of "of_nat :: nat \<Rightarrow> u64"]
  have last: "(of_nat a + of_nat z - 1 :: u64) = of_nat (a + (z - 1))" by (simp add: algebra_simps)
  show ?thesis
  proof (cases "?A \<and> ?B")
    case True
    have "a + (z - 1) < 2 ^ 48" using True user_range_nat [of "a + (z - 1)"] nw by simp
    then have l: "a + z \<le> 2 ^ 48" using z by linarith
    have e: "unat (alignup_page (of_nat a + of_nat z)) = E * 0x1000"
      using l by (subst unat_alignup_page) (simp_all add: unat_add_64 E_def)
    have v: "unat (aligndown (of_nat a)) = q * 0x1000" using l by (simp add: unat_aligndown q_def)
    have nn: "(E * 0x1000 - q * 0x1000 + 0xfff) div 0x1000 = E - q" by (simp flip: diff_mult_distrib)
    have ad: "aligndown (of_nat a) + of_nat (i * 0x1000) = of_nat ((q + i) * 0x1000)" for i
    proof -
      have "aligndown (of_nat a) = of_nat (q * 0x1000)" using arg_cong [OF v, of "of_nat :: nat \<Rightarrow> u64"] by simp
      then show ?thesis by (simp add: algebra_simps)
    qed
    have "access_ok s type (of_nat a) (of_nat z) \<longleftrightarrow> access_pages s type (aligndown (of_nat a)) (E - q)"
      unfolding access_ok_def last e v Let_def nn using True by (simp only: if_False not_not if_True) simp
    then show ?thesis using True unfolding access_pages_iff ad q_def E_def by simp
  next
    case False
    then show ?thesis unfolding access_ok_def last by auto
  qed
qed

text \<open>A mapped page above the kernel window is a user page: the window of the linear map is never
  accessible to the user.\<close>

lemma mapped_page_in_range:
  assumes pt: "pt_inv s A tab" and "0x200 \<le> p" "p * 0x1000 < 2 ^ 48"
    "translate s (of_nat (p * 0x1000)) True type \<noteq> -1"
  shows "USER_MEM_RANGE_OK (of_nat (p * 0x1000))"
proof -
  have w: "drop_bit 48 (of_nat (p * 0x1000) :: u64) = 0" using assms(3) by (simp add: drop_bit_48 del: of_nat_mult)
  have "p * 0x1000 div 2 ^ 39 \<noteq> 1"
  proof
    assume "p * 0x1000 div 2 ^ 39 = 1"
    then have "unat (drop_bit 39 (of_nat (p * 0x1000) :: u64)) = 1" using assms(3) by (simp add: unat_drop_bit del: of_nat_mult)
    then have "PML4OFF (of_nat (p * 0x1000)) = 1" unfolding pml4_index_39 [OF w] by (simp add: word_unat_eq_iff)
    then show False using window_user [OF pt] assms(4) by blast
  qed
  then show ?thesis using assms(2,3) user_range_nat [of "p * 0x1000"] by simp
qed

text \<open>Every page of a range holds one of its bytes.\<close>

lemma page_has_byte:
  fixes a z i :: nat
  assumes z: "0 < z" and i: "i < (a + z + 0xfff) div 0x1000 - a div 0x1000"
  obtains k where "k < z" "(a + k) div 0x1000 = a div 0x1000 + i" "(a div 0x1000 + i) * 0x1000 < a + z"
proof -
  define q E where "q = a div 0x1000" and "E = (a + z + 0xfff) div 0x1000"
  have E: "E * 0x1000 \<le> a + z + 0xfff" unfolding E_def by (rule div_times_less_eq_dividend)
  have "Suc (q + i) * 0x1000 \<le> E * 0x1000" using i by (intro mult_le_mono1) (simp add: q_def E_def)
  then have l: "(q + i) * 0x1000 < a + z" using E by simp
  show thesis
  proof (cases "i = 0")
    case True
    then show thesis using that [of 0] z l by (simp add: q_def)
  next
    case False
    have "a < Suc q * 0x1000" unfolding q_def by simp
    moreover have "Suc q * 0x1000 \<le> (q + i) * 0x1000" using False by (intro mult_le_mono1) simp
    ultimately have "a + ((q + i) * 0x1000 - a) = (q + i) * 0x1000" by simp
    then show thesis using that [of "(q + i) * 0x1000 - a"] l by (simp add: q_def)
  qed
qed

lemma access_ok_bytes:
  fixes a z k :: nat
  assumes pt: "pt_inv s A tab" and nw: "a + z < 2 ^ 64" and k: "k < z"
    and ok: "access_ok s type (of_nat a) (of_nat z)"
  shows "user_space s (of_nat (a + k)) True type \<noteq> -1"
proof -
  have pages: "i < (a + z + 0xfff) div 0x1000 - a div 0x1000 \<Longrightarrow>
      translate s (of_nat ((a div 0x1000 + i) * 0x1000)) True type \<noteq> -1" for i
    using ok access_ok_pages [OF nw, of s type] k by blast
  have "USER_MEM_RANGE_OK (of_nat a)" "USER_MEM_RANGE_OK (of_nat (a + (z - 1)))"
    using ok access_ok_pages [OF nw, of s type] k by blast+
  then have b: "0x200000 \<le> a" "a + (z - 1) < 2 ^ 48"
    using user_range_nat [of a] user_range_nat [of "a + (z - 1)"] nw by (simp_all del: of_nat_add)
  define p where "p = (a + k) div 0x1000"
  have p: "a div 0x1000 \<le> p" "p < (a + z + 0xfff) div 0x1000" "0x200 \<le> p" "p * 0x1000 \<le> a + k" "a + k < 2 ^ 48"
    using k b by (auto simp: p_def intro: div_le_mono)
  have t: "translate s (of_nat (p * 0x1000)) True type \<noteq> -1"
    using pages p(1,2) by (metis add_diff_inverse_nat diff_less_mono not_le)
  then have "USER_MEM_RANGE_OK (of_nat (p * 0x1000))" using p by (intro mapped_page_in_range [OF pt]) auto
  moreover have "drop_bit 12 (of_nat (a + k) :: u64) = drop_bit 12 (of_nat (p * 0x1000))"
    using p by (intro page_of_nat) (auto simp: p_def)
  ultimately show ?thesis
    using translate_page [OF pt] user_range_page t unfolding user_space_def by metis
qed

lemma access_ok_nat:
  fixes a z :: nat
  assumes pt: "pt_inv s A tab" and nw: "a + z < 2 ^ 64" and z: "0 < z"
  shows "access_ok s type (of_nat a) (of_nat z) \<longleftrightarrow> (\<forall>k < z. user_space s (of_nat (a + k)) True type \<noteq> -1)"
proof
  assume "access_ok s type (of_nat a) (of_nat z)"
  then show "\<forall>k < z. user_space s (of_nat (a + k)) True type \<noteq> -1" using access_ok_bytes [OF pt nw] by blast
next
  assume all: "\<forall>k < z. user_space s (of_nat (a + k)) True type \<noteq> -1"
  have byte: "USER_MEM_RANGE_OK (of_nat (a + k)) \<and> translate s (of_nat (a + k)) True type \<noteq> -1" if "k < z" for k
    using all that unfolding user_space_def by (metis (full_types))
  have "translate s (of_nat ((a div 0x1000 + i) * 0x1000)) True type \<noteq> -1"
    if i: "i < (a + z + 0xfff) div 0x1000 - a div 0x1000" for i
  proof -
    obtain k where k: "k < z" "(a + k) div 0x1000 = a div 0x1000 + i" "(a div 0x1000 + i) * 0x1000 < a + z"
      using page_has_byte [OF z i] .
    have "drop_bit 12 (of_nat ((a div 0x1000 + i) * 0x1000) :: u64) = drop_bit 12 (of_nat (a + k))"
      using k nw by (intro page_of_nat) auto
    then show ?thesis using translate_page [OF pt] byte [OF k(1)] by metis
  qed
  then show "access_ok s type (of_nat a) (of_nat z)"
    using access_ok_pages [OF nw z, of s type] byte [of 0] byte [of "z - 1"] z by (auto simp del: of_nat_add of_nat_mult)
qed

lemma access_ok_iff:
  assumes pt: "pt_inv s A tab" and nw: "unat addr + unat sz < 2 ^ 64" and sz: "sz \<noteq> 0"
  shows "access_ok s type addr sz \<longleftrightarrow> (\<forall>k < unat sz. user_space s (addr + of_nat k) True type \<noteq> -1)"
  using access_ok_nat [OF pt nw] sz by (simp add: unat_gt_0)

text \<open>An empty range is checked as well: its two ends, and its page when it begins inside one.\<close>

lemma access_ok_empty:
  assumes pt: "pt_inv s A tab"
  shows "access_ok s type addr 0 \<longleftrightarrow> USER_MEM_RANGE_OK addr \<and> USER_MEM_RANGE_OK (addr - 1) \<and>
    (page_aligned addr \<or> user_space s addr True type \<noteq> -1)"
proof (cases "USER_MEM_RANGE_OK addr")
  case True
  let ?v = "aligndown addr" and ?q = "unat addr div 0x1000"
  have l: "unat addr < 2 ^ 48" using True by (simp add: user_range_iff)
  have v: "unat ?v = ?q * 0x1000" by (rule unat_aligndown)
  have n: "(unat (alignup_page addr) - unat ?v + 0xfff) div 0x1000 = (if page_aligned addr then 0 else 1)"
  proof (cases "unat addr mod 0x1000 = 0")
    case True
    then have "unat (alignup_page addr) = ?q * 0x1000" using l by (subst unat_alignup_page) auto
    then show ?thesis using True v by (simp add: page_aligned_iff)
  next
    case False
    define q r where "q = ?q" and "r = unat addr mod 0x1000"
    have "unat addr = q * 0x1000 + r" "0 < r" "r < 0x1000" using False by (simp_all add: q_def r_def)
    then have "(unat addr + 0xfff) div 0x1000 = q + 1" by (intro div_nat_eqI) simp_all
    then have "(unat addr + 0xfff) div 0x1000 = ?q + 1" unfolding q_def .
    then have "unat (alignup_page addr) = ?q * 0x1000 + 0x1000" using l by (subst unat_alignup_page) auto
    then show ?thesis using False v by (simp add: page_aligned_iff)
  qed
  have "drop_bit 12 ?v = drop_bit 12 addr"
    using unat_drop_bit [of 12 ?v] unat_drop_bit [of 12 addr] v by (simp add: word_unat_eq_iff)
  then have "translate s ?v True type = -1 \<longleftrightarrow> translate s addr True type = -1" using translate_page [OF pt True] by metis
  then show ?thesis using True unfolding access_ok_def user_space_def Let_def add_0_right n by auto
qed (simp add: access_ok_def)

text \<open>The requests of \<^verbatim>\<open>mmap\<close> that get no block.\<close>

lemma mmap_unserved:
  assumes inv: "heap_inv s A F" and len: "len AND 0xfff = 0" "len \<noteq> 0"
  shows "2 ^ 32 \<le> unat len \<Longrightarrow> mmap s addr len prot = Inr (0, s)"
    and "unat len < 2 ^ 32 \<Longrightarrow> no_room s F (rounded (unat len)) MALLOC_PAGE_ALIGN \<Longrightarrow> mmap s addr len prot = Inl null_write"
    and "unat len < 2 ^ 32 \<Longrightarrow> \<not> no_room s F (rounded (unat len)) MALLOC_PAGE_ALIGN \<Longrightarrow> 2 ^ 31 \<le> unat len \<Longrightarrow>
      mmap s addr len prot = Inl memset_overflow"
proof -
  show "2 ^ 32 \<le> unat len \<Longrightarrow> mmap s addr len prot = Inr (0, s)" using len by (simp add: mmap_def kmalloc_too_big)
  assume l: "unat len < 2 ^ 32"
  note cases = kmalloc_cases [OF inv l disjI2 [OF refl]]
  show "no_room s F (rounded (unat len)) MALLOC_PAGE_ALIGN \<Longrightarrow> mmap s addr len prot = Inl null_write"
    by (rule cases) (use len in \<open>simp_all add: mmap_def\<close>)
  show "\<not> no_room s F (rounded (unat len)) MALLOC_PAGE_ALIGN \<Longrightarrow> 2 ^ 31 \<le> unat len \<Longrightarrow>
      mmap s addr len prot = Inl memset_overflow"
    by (rule cases) (use len in \<open>simp_all add: mmap_def\<close>)
qed

section \<open>The state after boot\<close>

text \<open>A state to apply the properties at: the one \<^verbatim>\<open>kernel_main\<close> has after its first two calls.\<close>

lemma booted:
  obtains vm s :: "kvm_regs machine" where "kvm_init demo_kvm [] demo_regs = Inr vm" "kheap.more s = kheap.more vm"
    "heap_inv s {} []" "pt_inv s {} boot_tab" "arena_top_size s = 0x200000" "arena_top s = 0x8000200000"
proof -
  obtain vm where vm: "kvm_init demo_kvm [] demo_regs = Inr vm" using demo_kvm_init by blast
  have bw: "boot_words (kmem vm)" "cr3 vm = 0x1f7000" using kvm_init_words [OF vm] by simp_all
  obtain s where s: "init_allocator (init_pagetable vm) (PS_LIMIT OR KERNEL_BASE_OFFSET) (MEM_SIZE - PS_LIMIT) = Inr s"
    "heap_inv s {} []" "pt_inv s {} boot_tab" "arena_top_size s = 0x200000"
    by (rule boot_state [OF bw])
  have "arena_top s = 0x8000200000" "kheap.more s = kheap.more vm"
    using s(1) unfolding layout_values
    by (auto simp: init_allocator_def KERNEL_BASE_OFFSET_def init_pagetable_def Let_def split: if_splits)
  then show thesis using vm s that by blast
qed

lemma demo_boot:
  obtains s :: "kvm_regs machine" where "heap_inv s {} []" "pt_inv s {} boot_tab" "arena_top_size s = 0x200000"
    "arena_top s = 0x8000200000" "user_space s = (\<lambda>v um wr. -1)"
proof -
  obtain vm s :: "kvm_regs machine" where s: "heap_inv s {} []" "pt_inv s {} boot_tab" "arena_top_size s = 0x200000"
    "arena_top s = 0x8000200000" by (rule booted)
  have "user_space s = (\<lambda>v um wr. -1)"
    using translate_leaf [OF s(2)] boot_leaf by (intro ext) (simp add: user_space_def leaf_translate_def)
  then show thesis using s that by blast
qed

lemma alignok_page: "alignok v \<longleftrightarrow> page_aligned v"
proof -
  have "alignok v \<longleftrightarrow> unat v = unat v div 0x1000 * 0x1000" by (simp add: alignok_def word_unat_eq_iff unat_aligndown)
  then show ?thesis by (auto simp: page_aligned_iff simp flip: minus_mod_eq_div_mult)
qed

lemma demo_user_page: "USER_MEM_RANGE_OK 0x400000" "page_aligned 0x400000"
  by (simp_all add: USER_MEM_RANGE_OK_def MIN_USER_MEM_def KERNEL_PAGING_SIZE_def page_aligned_iff)

lemma dm_not_minus_one: "dm p \<noteq> -1"
  by (auto simp: dm_unset_bit bit_eq_iff bit_unset_bit_iff intro!: exI [of _ 39])

lemma demo_mapped:
  obtains s :: "kvm_regs machine" and A F tab where "heap_inv s A F" "pt_inv s A tab"
    "\<forall>k < 0x1000. user_space s (0x400000 + of_nat k) True False \<noteq> -1"
proof -
  obtain s :: "kvm_regs machine" where s: "heap_inv s {} []" "pt_inv s {} boot_tab" "arena_top_size s = 0x200000"
    "arena_top s = 0x8000200000" by (rule demo_boot)
  have b: "mmap_base s 0x400000 0x1000 = 0x400000" by (simp add: mmap_base_def)
  have room: "\<not> no_room s [] (rounded 0x1000) MALLOC_PAGE_ALIGN"
    using s(3,4) by (simp add: no_room_def rounded_def page_gap_def MALLOC_PAGE_ALIGN_def MALLOC_NO_ALIGN_def)
  moreover have "\<not> unat (arena_top_size s) < rounded 0x1000 + 0x1000 + 0x6180" using s(3) by (simp add: rounded_def)
  ultimately obtain s' :: "kvm_regs machine" and A' F' tab' ret where s': "heap_inv s' A' F'" "pt_inv s' A' tab'"
    "user_space s' = map_range (user_space s) 0x400000 1 ret PROT_R"
    using mmap_step [OF s(1,2), of "0x1000" "0x400000" PROT_R] demo_user_page unfolding b by auto
  have "user_space s' (0x400000 + of_nat k) True False \<noteq> -1" if k: "k < 0x1000" for k
  proof -
    have "unat (0x400000 + of_nat k :: u64) = 0x400000 + k" using k by (simp add: unat_add_64)
    then have "USER_MEM_RANGE_OK (0x400000 + of_nat k)" using k by (simp add: user_range_iff)
    then show ?thesis using k dm_not_minus_one unfolding s'(3) by (simp add: map_range_def permits_def PROT_R_def)
  qed
  then show thesis using s'(1,2) that by blast
qed

section \<open>Properties\<close>





text \<open>
  C7: \<^verbatim>\<open>mprotect\<close> of an address that is not page aligned changes nothing and fails with \<^verbatim>\<open>EINVAL\<close>.
  Otherwise it changes the protection of the leading mapped pages of the range, and of nothing else:
  it succeeds exactly when all of them are mapped, and the first that is not stops it with \<^verbatim>\<open>EACCES\<close>,
  the pages before it already changed.
\<close>

theorem mprotect_correct:
  assumes "heap_inv s A F" "pt_inv s A tab"
  shows "if alignok addr
    then \<exists>k s'. k \<le> (unat len + 0xfff) div 0x1000 \<and>
      mprotect s addr len prot = (if k = (unat len + 0xfff) div 0x1000 then 0 else - EACCES, s') \<and>
      heap_inv s' A F \<and> pt_inv s' A tab \<and> user_space s' = protect_range (user_space s) addr k prot \<and>
      (\<forall>i < k. user_space s (addr + of_nat (i * 0x1000)) False False \<noteq> -1) \<and>
      (k < (unat len + 0xfff) div 0x1000 \<longrightarrow> user_space s (addr + of_nat (k * 0x1000)) False False = -1)
    else mprotect s addr len prot = (- EINVAL, s)"
proof (cases "alignok addr")
  case True
  then have "page_aligned addr" by (simp add: alignok_page)
  then show ?thesis
    using protect_pages_step [OF assms, of addr "(unat len + 0xfff) div 0x1000" prot] True by (simp add: mprotect_def)
qed (simp add: mprotect_def)

theorem mprotect_correct_witness:
  "\<exists>s :: kvm_regs machine. heap_inv s {} [] \<and> pt_inv s {} boot_tab \<and>
     (\<exists>s'. mprotect s 0x400000 0x1000 PROT_R = (- EACCES, s') \<and> user_space s' = user_space s)"
proof -
  obtain s :: "kvm_regs machine" where s: "heap_inv s {} []" "pt_inv s {} boot_tab" "user_space s = (\<lambda>v um wr. -1)"
    by (rule demo_boot)
  have "alignok 0x400000" by (simp add: alignok_page page_aligned_iff)
  then obtain k s' where k: "k \<le> 1" "mprotect s 0x400000 0x1000 PROT_R = (if k = 1 then 0 else - EACCES, s')"
    "user_space s' = protect_range (user_space s) 0x400000 k PROT_R"
    "\<forall>i < k. user_space s (0x400000 + of_nat (i * 0x1000)) False False \<noteq> -1"
    using mprotect_correct [OF s(1,2), of "0x400000" "0x1000" PROT_R] by auto
  have "k = 0" using k(4) s(3) by auto
  then show ?thesis using k(2,3) s(1,2) by (auto simp: protect_range_def)
qed



text \<open>
  The hypothesis is needed: a size close to two to the power of 64 wraps around, the loop over the pages
  has nothing to check, and the range is accepted whatever is mapped.
\<close>

theorem access_ok_wraps: "access_ok s type 0x400000 (- 0x100000)"
  by (simp add: access_ok_def USER_MEM_RANGE_OK_def MIN_USER_MEM_def KERNEL_PAGING_SIZE_def aligndown_def alignup_page_def Let_def)

end
