(* ===== verification/Hypercall_Spec.thy ===== *)
theory Hypercall_Spec
  imports Paging_Spec
begin

unbundle bit_operations_syntax

text \<open>
  What the hypercalls of \<^verbatim>\<open>hypervisor/hypercall.c\<close> and \<^verbatim>\<open>kernel/hypercalls\<close> promise: the guest's \<^verbatim>\<open>out\<close> and
  \<^verbatim>\<open>in\<close> together are one call, and the calls that open and close files refine operations on an abstract
  table of file descriptors.
\<close>

section \<open>The two halves of a hypercall\<close>

text \<open>
  Every handler with a result works in two halves: the \<^verbatim>\<open>out\<close> does the work and leaves the result in a
  static variable, the \<^verbatim>\<open>in\<close> fetches it and marks the variable unused again.  The locale names what a
  handler has to provide; a hypercall is then its work, as long as the result is not the mark itself.
\<close>

locale two_halves =
  fixes os :: "'w host_os" and nr :: u16
    and var :: "'w machine \<Rightarrow> u32" and set_var :: "u32 \<Rightarrow> 'w machine \<Rightarrow> 'w machine"
    and work :: "u32 \<Rightarrow> 'w machine \<Rightarrow> stop + (u32 \<times> 'w machine)"
  assumes marked: "nr AND HP_NR_MARK \<noteq> 0"
    and out_half: "hp_handler os nr True data vm = bindE (work data vm) (\<lambda>(r, vm). Inr (0, data, set_var r vm))"
    and in_half: "hp_handler os nr False data vm = then_return (var vm) (set_var UNUSED_VAR vm) data vm"
    and var_set [simp]: "var (set_var r vm) = r"
    and set_set [simp]: "set_var r (set_var r' vm) = set_var r vm"
    and set_same: "var vm = r \<Longrightarrow> set_var r vm = vm"
    and work_keeps: "work data vm = Inr (r, vm') \<Longrightarrow> var vm' = var vm"
begin

lemma hypercall_work:
  assumes "var vm = UNUSED_VAR" "\<And>r vm'. work data vm = Inr (r, vm') \<Longrightarrow> r \<noteq> UNUSED_VAR"
  shows "hypercall os nr data vm = bindE (work data vm) (\<lambda>(r, vm'). Inr (sint r, vm'))"
proof (cases "work data vm")
  case (Inr x)
  then obtain r vm' where w: "work data vm = Inr (r, vm')" by (cases x) auto
  have "set_var UNUSED_VAR vm' = vm'" using work_keeps [OF w] assms(1) by (intro set_same) simp
  then show ?thesis
    using assms(2) [OF w] marked by (simp add: hypercall_def port_io_def out_half in_half w then_return_def)
qed (simp add: hypercall_def port_io_def out_half marked)

text \<open>An \<^verbatim>\<open>in\<close> without an \<^verbatim>\<open>out\<close> before it ends the machine.\<close>

lemma in_without_out: "var vm = UNUSED_VAR \<Longrightarrow> port_io os nr False data vm = Inl (Host_error ''Hypercall failed'')"
  using marked by (simp add: port_io_def in_half then_return_def)

end

text \<open>The work of the four handlers.\<close>

definition open_fd :: "'w host_os \<Rightarrow> u8 list \<Rightarrow> 'w machine \<Rightarrow> u32 \<times> 'w machine" where
  "open_fd os filename vm =
     (let min_fd = first_unused (fd_map vm) 0 in
      if MAX_FD < min_fd then (word_of_int (- ENFILE), vm)
      else let ((fd, errno), w) = os_open os filename (world vm); vm = vm\<lparr>world := w\<rparr> in
        if fd < 0 then (word_of_int (- errno), vm)
        else (of_nat min_fd, vm\<lparr>fd_map := (fd_map vm)[min_fd := \<lparr>real_fd = fd, is_open = True\<rparr>]\<rparr>))"

definition open_work :: "'w host_os \<Rightarrow> u32 \<Rightarrow> 'w machine \<Rightarrow> stop + (u32 \<times> 'w machine)" where
  "open_work os data vm =
     bindE (CHECK_OOB vm (ucast data)) (\<lambda>_.
     bindE (string_at vm (ucast data)) (\<lambda>filename.
     bindE (CHECK_OOB vm (ucast (data + of_nat (length filename)))) (\<lambda>_.
       Inr (open_fd os filename (MAY_INIT_FD_MAP vm)))))"

definition rw_work :: "'w rw_call \<Rightarrow> u32 \<Rightarrow> 'w machine \<Rightarrow> stop + (u32 \<times> 'w machine)" where
  "rw_work fptr data vm =
     (let off = ucast data in
      bindE (CHECK_OOB vm off) (\<lambda>_.
      if unat (mem_size vm) < unat off + 24 then Inl (Undefined ''kbuf runs past the guest memory'')
      else
        let fd = sint (ucast (load64 (kmem vm) off) :: u32);
            paddr = load64 (kmem vm) (off + 8);
            nbytes = load64 (kmem vm) (off + 16)
        in if \<not> (paddr \<le> paddr + nbytes \<and> paddr + nbytes \<le> mem_size vm) then Inr (word_of_int (- EACCES), vm)
           else process_on_fd vm fd (\<lambda>vm.
             bindE (CHECK_OOB vm paddr) (\<lambda>_. Inr (fptr (real_fd (fd_map vm ! nat fd)) paddr nbytes vm)))))"

definition close_work :: "'w host_os \<Rightarrow> u32 \<Rightarrow> 'w machine \<Rightarrow> stop + (u32 \<times> 'w machine)" where
  "close_work os data vm = process_on_fd vm (sint data) (\<lambda>vm. Inr (do_close os (sint data) vm))"

definition lseek_work :: "'w host_os \<Rightarrow> u32 \<Rightarrow> 'w machine \<Rightarrow> stop + (u32 \<times> 'w machine)" where
  "lseek_work os data vm =
     (let a = ucast data in
      bindE (CHECK_OOB vm a) (\<lambda>_.
      if unat (mem_size vm) < unat a + 12 then Inl (Undefined ''kbuf runs past the guest memory'')
      else
        let fd = sint (load32 (kmem vm) a);
            off = load32 (kmem vm) (a + 4);
            whence = sint (load32 (kmem vm) (a + 8))
        in process_on_fd vm fd (\<lambda>vm.
             let (r, w) = os_lseek os (real_fd (fd_map vm ! nat fd)) (uint off) whence (world vm)
             in Inr (r, vm\<lparr>world := w\<rparr>))))"

text \<open>What the table of file descriptors and the host calls leave alone.\<close>

definition same_vars :: "'w machine \<Rightarrow> 'w machine \<Rightarrow> bool" where
  "same_vars vm vm' \<longleftrightarrow> open_ret vm' = open_ret vm \<and> rw_ret vm' = rw_ret vm \<and> close_ret vm' = close_ret vm
     \<and> lseek_ret vm' = lseek_ret vm"

lemma same_vars_refl [simp]: "same_vars vm vm"
  by (simp add: same_vars_def)

lemma same_vars_trans: "same_vars a b \<Longrightarrow> same_vars b c \<Longrightarrow> same_vars a c"
  by (simp add: same_vars_def)

lemma same_varsD:
  assumes "same_vars vm vm'"
  shows "open_ret vm' = open_ret vm" "rw_ret vm' = rw_ret vm" "close_ret vm' = close_ret vm" "lseek_ret vm' = lseek_ret vm"
  using assms by (simp_all add: same_vars_def)

lemma same_vars_init [simp]: "same_vars vm (MAY_INIT_FD_MAP vm)"
  by (simp add: same_vars_def MAY_INIT_FD_MAP_def)

lemma same_vars_process:
  assumes "process_on_fd vm fd work = Inr (r, vm')" "\<And>vm x vm'. work vm = Inr (x, vm') \<Longrightarrow> same_vars vm vm'"
  shows "same_vars vm vm'"
  using assms(1) same_vars_trans [OF same_vars_init [of vm]] assms(2)
  by (auto simp: process_on_fd_def Let_def bindE_eq_Inr split: if_splits)

lemma same_vars_open_fd: "same_vars vm (snd (open_fd os filename vm))"
  by (simp add: open_fd_def Let_def same_vars_def split: prod.split)

lemma same_vars_open:
  assumes "open_work os data vm = Inr (r, vm')" shows "same_vars vm vm'"
proof -
  obtain filename where "open_fd os filename (MAY_INIT_FD_MAP vm) = (r, vm')"
    using assms by (auto simp: open_work_def bindE_eq_Inr)
  then have "same_vars (MAY_INIT_FD_MAP vm) vm'" using same_vars_open_fd by (metis snd_conv)
  then show ?thesis by (rule same_vars_trans [OF same_vars_init])
qed

lemma same_vars_rw:
  assumes call: "\<And>fd pa n vm. same_vars vm (snd (fptr fd pa n vm))" and w: "rw_work fptr data vm = Inr (r, vm')"
  shows "same_vars vm vm'"
proof -
  have p: "same_vars vm vm'"
    if "process_on_fd vm fd (\<lambda>v. bindE (CHECK_OOB v pa) (\<lambda>_. Inr (fptr (real_fd (fd_map v ! nat fd)) pa n v))) = Inr (r, vm')"
    for fd pa n
  proof (rule same_vars_process [OF that])
    fix v x v' assume "bindE (CHECK_OOB v pa) (\<lambda>_. Inr (fptr (real_fd (fd_map v ! nat fd)) pa n v)) = Inr (x, v')"
    then show "same_vars v v'" using call [of v "real_fd (fd_map v ! nat fd)" pa n] by (auto simp: bindE_eq_Inr)
  qed
  show ?thesis using w p by (auto simp: rw_work_def Let_def bindE_eq_Inr split: if_splits)
qed

lemma same_vars_close: "close_work os data vm = Inr (r, vm') \<Longrightarrow> same_vars vm vm'"
  unfolding close_work_def
  by (erule same_vars_process) (auto simp: do_close_def Let_def same_vars_def split: prod.splits)

lemma same_vars_lseek:
  assumes w: "lseek_work os data vm = Inr (r, vm')" shows "same_vars vm vm'"
proof -
  have p: "same_vars vm vm'"
    if "process_on_fd vm fd (\<lambda>v. let (r, w) = os_lseek os (real_fd (fd_map v ! nat fd)) o' wh (world v)
      in Inr (r, v\<lparr>world := w\<rparr>)) = Inr (r, vm')" for fd o' wh
    by (rule same_vars_process [OF that]) (auto simp: same_vars_def split: prod.splits)
  show ?thesis using w p by (auto simp: lseek_work_def Let_def bindE_eq_Inr split: if_splits)
qed

lemma handler_numbers:
  "hp_handler os NR_HP_open = hp_handle_open os" "hp_handler os NR_HP_read = hp_handle_read os"
  "hp_handler os NR_HP_write = hp_handle_write os" "hp_handler os NR_HP_close = hp_handle_close os"
  "hp_handler os NR_HP_lseek = hp_handle_lseek os"
  by (intro ext, simp add: hp_handler_def hp_nr_defs)+

lemma handler_marked:
  "NR_HP_open AND HP_NR_MARK \<noteq> 0" "NR_HP_read AND HP_NR_MARK \<noteq> 0" "NR_HP_write AND HP_NR_MARK \<noteq> 0"
  "NR_HP_close AND HP_NR_MARK \<noteq> 0" "NR_HP_lseek AND HP_NR_MARK \<noteq> 0"
  by (simp_all add: hp_nr_defs)

lemma open_fd_stored:
  "(let min_fd = first_unused (fd_map vm) 0 in
     if MAX_FD < min_fd then Inr (0, data, vm\<lparr>open_ret := word_of_int (- ENFILE)\<rparr>)
     else let ((fd, errno), w) = os_open os filename (world vm); vm = vm\<lparr>world := w\<rparr> in
       if fd < 0 then Inr (0, data, vm\<lparr>open_ret := word_of_int (- errno)\<rparr>)
       else Inr (0, data, vm\<lparr>fd_map := (fd_map vm)[min_fd := \<lparr>real_fd = fd, is_open = True\<rparr>], open_ret := of_nat min_fd\<rparr>))
   = (case open_fd os filename vm of (r, vm) \<Rightarrow> Inr (0, data, vm\<lparr>open_ret := r\<rparr>))"
  by (simp add: open_fd_def Let_def split: prod.split)

lemma open_halves:
  "hp_handle_open os True data vm = bindE (open_work os data vm) (\<lambda>(r, vm). Inr (0, data, vm\<lparr>open_ret := r\<rparr>))"
  "hp_handle_open os False data vm = then_return (open_ret vm) (vm\<lparr>open_ret := UNUSED_VAR\<rparr>) data vm"
  unfolding hp_handle_open_def open_work_def Let_def [of "MAY_INIT_FD_MAP vm"] open_fd_stored
  by (simp_all add: bindE_assoc Let_def)

lemma rw_halves:
  "handle_rw fptr True data vm = bindE (rw_work fptr data vm) (\<lambda>(r, vm). Inr (0, data, vm\<lparr>rw_ret := r\<rparr>))"
  "handle_rw fptr False data vm = then_return (rw_ret vm) (vm\<lparr>rw_ret := UNUSED_VAR\<rparr>) data vm"
  by (auto simp: handle_rw_def rw_work_def bindE_assoc Let_def intro!: arg_cong2 [of _ _ _ _ bindE])

lemma close_halves:
  "hp_handle_close os True data vm = bindE (close_work os data vm) (\<lambda>(r, vm). Inr (0, data, vm\<lparr>close_ret := r\<rparr>))"
  "hp_handle_close os False data vm = then_return (close_ret vm) (vm\<lparr>close_ret := UNUSED_VAR\<rparr>) data vm"
  by (simp_all add: hp_handle_close_def close_work_def Let_def)

lemma lseek_halves:
  "hp_handle_lseek os True data vm = bindE (lseek_work os data vm) (\<lambda>(r, vm). Inr (0, data, vm\<lparr>lseek_ret := r\<rparr>))"
  "hp_handle_lseek os False data vm = then_return (lseek_ret vm) (vm\<lparr>lseek_ret := UNUSED_VAR\<rparr>) data vm"
  by (auto simp: hp_handle_lseek_def lseek_work_def bindE_assoc Let_def intro!: arg_cong2 [of _ _ _ _ bindE])

lemma same_vars_calls: "same_vars vm (snd (read_call os fd pa n vm))" "same_vars vm (snd (write_call os fd pa n vm))"
  by (simp_all add: read_call_def write_call_def same_vars_def case_prod_beta)

interpretation hc_open: two_halves os NR_HP_open open_ret "\<lambda>r. open_ret_update (\<lambda>_. r)" "open_work os" for os
  by unfold_locales
    (auto simp: handler_numbers handler_marked open_halves dest: same_vars_open [THEN same_varsD(1)])

interpretation hc_read: two_halves os NR_HP_read rw_ret "\<lambda>r. rw_ret_update (\<lambda>_. r)" "rw_work (read_call os)" for os
  by unfold_locales
    (auto simp: handler_numbers handler_marked hp_handle_read_def rw_halves dest: same_vars_rw [OF same_vars_calls(1), THEN same_varsD(2)])

interpretation hc_write: two_halves os NR_HP_write rw_ret "\<lambda>r. rw_ret_update (\<lambda>_. r)" "rw_work (write_call os)" for os
  by unfold_locales
    (auto simp: handler_numbers handler_marked hp_handle_write_def rw_halves dest: same_vars_rw [OF same_vars_calls(2), THEN same_varsD(2)])

interpretation hc_close: two_halves os NR_HP_close close_ret "\<lambda>r. close_ret_update (\<lambda>_. r)" "close_work os" for os
  by unfold_locales
    (auto simp: handler_numbers handler_marked close_halves dest: same_vars_close [THEN same_varsD(3)])

interpretation hc_lseek: two_halves os NR_HP_lseek lseek_ret "\<lambda>r. lseek_ret_update (\<lambda>_. r)" "lseek_work os" for os
  by unfold_locales
    (auto simp: handler_numbers handler_marked lseek_halves dest: same_vars_lseek [THEN same_varsD(4)])

section \<open>The table of file descriptors\<close>

text \<open>
  The abstract table: which guest descriptors are open and for which host descriptor.  The operations on
  it are the specification of the hypercalls; the calls of the host behave as documented
  (\<open>host_ok\<close>): an error is announced by a negative result and an error number below 4096, and a transfer
  never moves more than was asked for.
\<close>

type_synonym fd_table = "nat \<Rightarrow> int option"

definition fds :: "'w machine \<Rightarrow> fd_table" where
  "fds vm i = (let m = fd_map (MAY_INIT_FD_MAP vm) in
     if i < length m \<and> is_open (m ! i) then Some (real_fd (m ! i)) else None)"

definition spec_fd :: "fd_table \<Rightarrow> int \<Rightarrow> int option" where
  "spec_fd T fd = (if 0 \<le> fd \<and> fd \<le> int MAX_FD then T (nat fd) else None)"

definition free_fds :: "fd_table \<Rightarrow> nat list" where
  "free_fds T = filter (\<lambda>i. T i = None) [0..<MAX_FD + 1]"

definition spec_open :: "'w host_os \<Rightarrow> u8 list \<Rightarrow> fd_table \<Rightarrow> 'w \<Rightarrow> int \<times> fd_table \<times> 'w" where
  "spec_open os name T w =
     (if free_fds T = [] then (- ENFILE, T, w)
      else let ((fd, errno), w') = os_open os name w in
        if fd < 0 then (- errno, T, w')
        else (int (hd (free_fds T)), T(hd (free_fds T) \<mapsto> fd), w'))"

definition spec_close :: "'w host_os \<Rightarrow> int \<Rightarrow> fd_table \<Rightarrow> 'w \<Rightarrow> int \<times> fd_table \<times> 'w" where
  "spec_close os fd T w =
     (case spec_fd T fd of None \<Rightarrow> (- EBADF, T, w)
      | Some h \<Rightarrow> let ((r, errno), w') = os_close os h w
                  in (if r < 0 then - errno else r, T(nat fd := None), w'))"

definition errno_ok :: "int \<Rightarrow> int \<Rightarrow> bool" where
  "errno_ok r errno \<longleftrightarrow> - 1 \<le> r \<and> (r < 0 \<longrightarrow> 0 < errno \<and> errno < 4096)"

definition host_ok :: "'w host_os \<Rightarrow> bool" where
  "host_ok os \<longleftrightarrow>
     (\<forall>name w. case os_open os name w of ((r, e), _) \<Rightarrow> errno_ok r e) \<and>
     (\<forall>h w. case os_close os h w of ((r, e), _) \<Rightarrow> errno_ok r e \<and> r \<le> 0) \<and>
     (\<forall>h n w. case os_read os h n w of ((r, e, bs), _) \<Rightarrow> errno_ok r e \<and> r \<le> uint n \<and> length bs = nat r) \<and>
     (\<forall>h bs w. case os_write os h bs w of ((r, e), _) \<Rightarrow> errno_ok r e \<and> r \<le> int (length bs))"

text \<open>Between hypercalls no result is pending and the table has its full length.\<close>

definition ready :: "'w machine \<Rightarrow> bool" where
  "ready vm \<longleftrightarrow> length (fd_map vm) = MAX_FD + 1 \<and> open_ret vm = UNUSED_VAR \<and> rw_ret vm = UNUSED_VAR
     \<and> close_ret vm = UNUSED_VAR \<and> lseek_ret vm = UNUSED_VAR"

text \<open>A hypercall changes the table of descriptors and the host, and nothing of the guest.\<close>

definition host_side :: "'w machine \<Rightarrow> 'w machine \<Rightarrow> bool" where
  "host_side vm vm' \<longleftrightarrow> (\<exists>m i w. vm' = vm\<lparr>fd_map := m, fd_map_init := i, world := w\<rparr>)"

lemma host_sideI: "vm' = vm\<lparr>fd_map := m, fd_map_init := i, world := w\<rparr> \<Longrightarrow> host_side vm vm'"
  by (auto simp: host_side_def)

lemma host_side_simps [simp]:
  "host_side vm vm" "host_side vm (vm\<lparr>world := w\<rparr>)" "host_side vm (vm\<lparr>fd_map := m\<rparr>)"
  "host_side vm (vm\<lparr>world := w, fd_map := m\<rparr>)" "host_side vm (vm\<lparr>fd_map := m, world := w\<rparr>)"
  by (rule host_sideI [where m = "fd_map vm" and i = "fd_map_init vm" and w = "world vm"] host_sideI [where m = "fd_map vm" and i = "fd_map_init vm" and w = w]
      host_sideI [where m = m and i = "fd_map_init vm" and w = "world vm"] host_sideI [where m = m and i = "fd_map_init vm" and w = w], simp)+

lemma length_init [simp]: "length (fd_map vm) = MAX_FD + 1 \<Longrightarrow> length (fd_map (MAY_INIT_FD_MAP vm)) = MAX_FD + 1"
  by (simp add: MAY_INIT_FD_MAP_def MAX_FD_def)

lemma init_init [simp]: "fd_map_init vm \<Longrightarrow> MAY_INIT_FD_MAP vm = vm" "fd_map_init (MAY_INIT_FD_MAP vm)"
  by (simp_all add: MAY_INIT_FD_MAP_def)

lemma fds_init [simp]: "fds (MAY_INIT_FD_MAP vm) = fds vm"
  by (intro ext) (simp add: fds_def)

lemma init_fields [simp]:
  "world (MAY_INIT_FD_MAP vm) = world vm" "kmem (MAY_INIT_FD_MAP vm) = kmem vm" "mem_size (MAY_INIT_FD_MAP vm) = mem_size vm"
  "ready (MAY_INIT_FD_MAP vm) \<longleftrightarrow> ready vm"
  by (auto simp: MAY_INIT_FD_MAP_def ready_def MAX_FD_def)

lemma host_side_init: "host_side vm (MAY_INIT_FD_MAP vm)"
proof -
  have "MAY_INIT_FD_MAP vm = vm\<lparr>fd_map := fd_map (MAY_INIT_FD_MAP vm), fd_map_init := True, world := world vm\<rparr>"
    by (simp add: MAY_INIT_FD_MAP_def)
  then show ?thesis by (rule host_sideI)
qed

lemma host_side_trans: "host_side a b \<Longrightarrow> host_side b c \<Longrightarrow> host_side a c"
  unfolding host_side_def by (elim exE) (simp, blast)

lemma fds_after_init: "fd_map_init vm \<Longrightarrow> fds vm i = (if i < length (fd_map vm) \<and> is_open (fd_map vm ! i) then Some (real_fd (fd_map vm ! i)) else None)"
  by (simp add: fds_def Let_def)

lemma set_free_fds: "set (free_fds T) = {i. i \<le> MAX_FD \<and> T i = None}"
  by (auto simp: free_fds_def simp del: upt_Suc)

lemma first_unused_shift: "first_unused hs i = i + length (takeWhile is_open hs)"
  by (induction hs arbitrary: i) auto

lemma free_fds_hd:
  assumes "length hs = MAX_FD + 1" "\<And>i. i < length hs \<Longrightarrow> T i = (if is_open (hs ! i) then Some (real_fd (hs ! i)) else None)"
  shows "(MAX_FD < first_unused hs 0 \<longleftrightarrow> free_fds T = []) \<and> (free_fds T \<noteq> [] \<longrightarrow> first_unused hs 0 = hd (free_fds T))"
proof -
  let ?n = "length (takeWhile is_open hs)"
  have fu: "first_unused hs 0 = ?n" by (simp add: first_unused_shift)
  have below: "T i \<noteq> None" if "i < ?n" for i
    using that assms(2) [of i] length_takeWhile_le [of is_open hs] nth_mem [of i "takeWhile is_open hs"]
    by (auto simp: takeWhile_nth dest!: set_takeWhileD)
  show ?thesis
  proof (cases "?n < length hs")
    case True
    then have n: "T ?n = None" using assms(2) [of ?n] nth_length_takeWhile [of is_open hs] by simp
    have "[0..<MAX_FD + 1] = [0..<?n] @ ?n # [Suc ?n..<MAX_FD + 1]"
      using True assms(1) upt_add_eq_append [of 0 ?n "MAX_FD + 1 - ?n"] upt_conv_Cons [of ?n "MAX_FD + 1"] by simp
    then have "free_fds T = ?n # filter (\<lambda>i. T i = None) [Suc ?n..<MAX_FD + 1]"
      using below n by (simp add: free_fds_def filter_empty_conv)
    then show ?thesis using True assms(1) fu by simp
  next
    case False
    then have "?n = MAX_FD + 1" using assms(1) length_takeWhile_le [of is_open hs] by simp
    then show ?thesis using below fu by (auto simp: free_fds_def filter_empty_conv)
  qed
qed

section \<open>Open and close\<close>

lemma sint_small: "- (2 ^ 31) \<le> x \<Longrightarrow> x < 2 ^ 31 \<Longrightarrow> sint (word_of_int x :: u32) = x"
  by (simp add: signed_of_int signed_take_bit_int_eq_self)

lemma result_32:
  assumes "- 4096 < x" "x < 2 ^ 31"
  shows "sint (word_of_int x :: u32) = x" "(word_of_int x :: u32) \<noteq> UNUSED_VAR"
proof -
  show s: "sint (word_of_int x :: u32) = x" using assms by (intro sint_small) simp_all
  have "sint UNUSED_VAR = - 559022081" by (simp add: UNUSED_VAR_def)
  then show "(word_of_int x :: u32) \<noteq> UNUSED_VAR" using s assms by auto
qed

lemma host_okD:
  assumes "host_ok os"
  shows "os_open os name w = ((r, e), w') \<Longrightarrow> errno_ok r e"
    "os_close os h w = ((r, e), w') \<Longrightarrow> errno_ok r e \<and> r \<le> 0"
    "os_read os h n w = ((r, e, bs), w') \<Longrightarrow> errno_ok r e \<and> r \<le> uint n \<and> length bs = nat r"
    "os_write os h bs w = ((r, e), w') \<Longrightarrow> errno_ok r e \<and> r \<le> int (length bs)"
  using assms unfolding host_ok_def by (metis (mono_tags, lifting) case_prod_conv)+

lemma open_fd_refines:
  assumes os: "host_ok os" and rd: "ready vm" and init: "fd_map_init vm" and r: "open_fd os name vm = (r, vm')"
  shows "(sint r, fds vm', world vm') = spec_open os name (fds vm) (world vm) \<and> r \<noteq> UNUSED_VAR \<and> ready vm' \<and>
    host_side vm vm'"
proof -
  have len: "length (fd_map vm) = MAX_FD + 1" using rd by (simp add: ready_def)
  have ff: "(MAX_FD < first_unused (fd_map vm) 0 \<longleftrightarrow> free_fds (fds vm) = [])"
      "free_fds (fds vm) \<noteq> [] \<Longrightarrow> first_unused (fd_map vm) 0 = hd (free_fds (fds vm))"
    using free_fds_hd [OF len, of "fds vm"] by (auto simp: fds_after_init [OF init])
  show ?thesis
  proof (cases "free_fds (fds vm) = []")
    case True
    then have "r = word_of_int (- ENFILE)" "vm' = vm" using r ff(1) by (simp_all add: open_fd_def Let_def)
    then show ?thesis
      using True rd result_32 [of "- ENFILE"] by (simp add: spec_open_def ENFILE_def)
  next
    case False
    let ?i = "hd (free_fds (fds vm))"
    obtain fd e w where o: "os_open os name (world vm) = ((fd, e), w)" by (metis surj_pair)
    have i: "?i \<le> MAX_FD" using hd_in_set [OF False] unfolding set_free_fds by blast
    have e: "errno_ok fd e" by (rule host_okD(1) [OF os o])
    show ?thesis
    proof (cases "fd < 0")
      case True
      then have r': "r = word_of_int (- e)" "vm' = vm\<lparr>world := w\<rparr>"
        using r ff False o by (simp_all add: open_fd_def Let_def)
      then show ?thesis
        using True False rd o e result_32 [of "- e"]
        by (auto simp: spec_open_def errno_ok_def ready_def fds_def MAY_INIT_FD_MAP_def init)
    next
      case pos: False
      then have r': "r = of_nat ?i" "vm' = vm\<lparr>world := w, fd_map := (fd_map vm)[?i := \<lparr>real_fd = fd, is_open = True\<rparr>]\<rparr>"
        using r ff False o by (simp_all add: open_fd_def Let_def)
      have "fds vm' = (fds vm)(?i \<mapsto> fd)"
        using i len by (auto simp: r' fds_after_init init nth_list_update)
      moreover have "sint r = int ?i" "r \<noteq> UNUSED_VAR"
        using result_32 [of "int ?i"] i by (simp_all add: r' MAX_FD_def)
      moreover have "ready vm'" "world vm' = w" using rd by (simp_all add: r' ready_def)
      moreover have "host_side vm vm'" by (simp add: r')
      ultimately show ?thesis using False pos o by (simp add: spec_open_def)
    qed
  qed
qed

lemma spec_fd_BADFD:
  assumes "ready vm" "fd_map_init vm"
  shows "spec_fd (fds vm) fd = (if BADFD vm fd then None else Some (real_fd (fd_map vm ! nat fd)))"
  using assms by (auto simp: spec_fd_def BADFD_def fds_after_init ready_def)

lemma process_on_fd_refines:
  assumes "ready vm" "spec_fd (fds vm) fd = None"
  shows "process_on_fd vm fd work = Inr (word_of_int (- EBADF), MAY_INIT_FD_MAP vm)"
proof -
  have "BADFD (MAY_INIT_FD_MAP vm) fd" using assms spec_fd_BADFD [of "MAY_INIT_FD_MAP vm" fd] by (auto split: if_splits)
  then show ?thesis by (simp add: process_on_fd_def Let_def)
qed

lemma process_on_fd_open:
  assumes "ready vm" "spec_fd (fds vm) fd = Some h"
  shows "\<not> BADFD (MAY_INIT_FD_MAP vm) fd" "real_fd (fd_map (MAY_INIT_FD_MAP vm) ! nat fd) = h"
  using assms spec_fd_BADFD [of "MAY_INIT_FD_MAP vm" fd] by (auto split: if_splits)

lemma close_work_refines:
  assumes os: "host_ok os" and rd: "ready vm"
  shows "\<exists>r vm'. close_work os data vm = Inr (r, vm') \<and>
    (sint r, fds vm', world vm') = spec_close os (sint data) (fds vm) (world vm) \<and> r \<noteq> UNUSED_VAR \<and> ready vm' \<and>
    host_side vm vm'"
proof (cases "spec_fd (fds vm) (sint data)")
  case None
  then show ?thesis
    using process_on_fd_refines [OF rd None] rd result_32 [of "- EBADF"] host_side_init [of vm]
    by (simp add: close_work_def spec_close_def EBADF_def)
next
  case (Some h)
  let ?vm = "MAY_INIT_FD_MAP vm" and ?i = "nat (sint data)"
  note op = process_on_fd_open [OF rd Some]
  obtain x e w where o: "os_close os h (world vm) = ((x, e), w)" by (metis surj_pair)
  have e: "errno_ok x e" "x \<le> 0" using host_okD(2) [OF os o] by simp_all
  let ?vm' = "?vm\<lparr>fd_map := (fd_map ?vm)[?i := (fd_map ?vm ! ?i)\<lparr>is_open := False\<rparr>], world := w\<rparr>"
  let ?r = "word_of_int (if x < 0 then - e else x) :: u32"
  have s: "sint (word_of_int x :: u32) = x" using e by (intro sint_small) (simp_all add: errno_ok_def)
  have work: "close_work os data vm = Inr (?r, ?vm')"
    using op o s by (simp add: close_work_def process_on_fd_def Let_def do_close_def)
  have len: "length (fd_map ?vm) = MAX_FD + 1" using rd by (simp add: ready_def)
  have "?i \<le> MAX_FD" "0 \<le> sint data" using Some by (auto simp: spec_fd_def split: if_splits)
  then have "fds ?vm' = (fds ?vm)(?i := None)"
    using len fds_after_init [of ?vm] by (intro ext) (simp add: fds_after_init nth_list_update)
  moreover have "sint ?r = (if x < 0 then - e else x)" "?r \<noteq> UNUSED_VAR"
    using result_32 [of "if x < 0 then - e else x"] e by (auto simp: errno_ok_def)
  moreover have "ready ?vm'" using rd len by (simp add: ready_def MAY_INIT_FD_MAP_def)
  moreover have "host_side vm ?vm'" by (rule host_side_trans [OF host_side_init]) simp
  ultimately show ?thesis using work Some o by (intro exI conjI) (simp_all add: spec_close_def)
qed

lemma ucast_32_64: "unat x < 2 ^ 32 \<Longrightarrow> ucast (ucast x :: u32) = (x :: u64)"
proof -
  assume "unat x < 2 ^ 32"
  then have "take_bit 32 x = x" by (simp add: word_unat_eq_iff unsigned_take_bit_eq take_bit_nat_eq_self)
  moreover have "ucast (ucast x :: u32) = take_bit 32 x" by (rule bit_word_eqI) (auto simp: bit_simps)
  ultimately show ?thesis by simp
qed

lemma host_string_length: "host_string m a n = Some bs \<Longrightarrow> length bs < n"
  by (induction n arbitrary: a bs) (auto split: if_splits)

lemma string_at_length: "string_at vm pa = Inr name \<Longrightarrow> unat pa + length name < unat (mem_size vm)"
  by (auto simp: string_at_def split: option.splits dest!: host_string_length)

lemma hp_open_step:
  assumes os: "host_ok os" and rd: "ready vm" and name: "string_at vm pa = Inr name" and mem: "unat (mem_size vm) \<le> 2 ^ 32"
  shows "\<exists>r vm'. hp_open os pa vm = Inr (r, vm') \<and> (r, fds vm', world vm') = spec_open os name (fds vm) (world vm) \<and>
    ready vm' \<and> host_side vm vm'"
proof -
  have l: "unat pa + length name < unat (mem_size vm)" by (rule string_at_length [OF name])
  have pa: "ucast (ucast pa :: u32) = pa"
    using l mem by (intro ucast_32_64) simp
  have "unat (ucast (ucast pa + of_nat (length name) :: u32) :: u64) = unat pa + length name"
    using l mem by (simp add: unsigned_ucast_eq take_bit_eq_mod unat_word_ariths unsigned_of_nat)
  then have oob: "CHECK_OOB vm pa = Inr ()" "CHECK_OOB vm (ucast (ucast pa + of_nat (length name) :: u32)) = Inr ()"
    using l by (simp_all add: CHECK_OOB_def word_less_nat_alt)
  obtain r vm' where o: "open_fd os name (MAY_INIT_FD_MAP vm) = (r, vm')" by force
  have w: "open_work os (ucast pa) vm = Inr (r, vm')" by (simp add: open_work_def pa oob name o)
  note ref = open_fd_refines [OF os _ _ o]
  have r: "(sint r, fds vm', world vm') = spec_open os name (fds vm) (world vm)" "r \<noteq> UNUSED_VAR" "ready vm'"
    "host_side vm vm'"
    using ref rd host_side_trans [OF host_side_init [of vm], of vm'] by simp_all
  have "hypercall os NR_HP_open (ucast pa) vm = Inr (sint r, vm')"
    using hc_open.hypercall_work [of vm os "ucast pa"] rd r(2) by (simp add: w ready_def)
  then show ?thesis using r by (auto simp: hp_open_def)
qed

lemma hp_close_step:
  assumes os: "host_ok os" and rd: "ready vm" and fd: "- (2 ^ 31) \<le> fd" "fd < 2 ^ 31"
  shows "\<exists>r vm'. hp_close os fd vm = Inr (r, vm') \<and> (r, fds vm', world vm') = spec_close os fd (fds vm) (world vm) \<and>
    ready vm' \<and> host_side vm vm'"
proof -
  obtain r vm' where r: "close_work os (word_of_int fd) vm = Inr (r, vm')"
    "(sint r, fds vm', world vm') = spec_close os fd (fds vm) (world vm)" "r \<noteq> UNUSED_VAR" "ready vm'" "host_side vm vm'"
    using close_work_refines [OF os rd, of "word_of_int fd"] sint_small [OF fd] by auto
  have "hypercall os NR_HP_close (word_of_int fd) vm = Inr (sint r, vm')"
    using hc_close.hypercall_work [of vm os "word_of_int fd"] rd r(1,3) by (simp add: ready_def)
  then show ?thesis using r by (auto simp: hp_close_def)
qed

section \<open>Reading and writing\<close>

lemma fd_word: "- (2 ^ 31) \<le> fd \<Longrightarrow> fd < 2 ^ 31 \<Longrightarrow> sint (ucast (word_of_int fd :: u64) :: u32) = fd"
proof -
  assume "- (2 ^ 31) \<le> fd" "fd < 2 ^ 31"
  moreover have "(ucast (word_of_int fd :: u64) :: u32) = word_of_int fd" by (rule bit_word_eqI) (simp add: bit_simps)
  ultimately show ?thesis by (simp add: sint_small)
qed

definition kbuf_at :: "'w machine \<Rightarrow> u64 \<Rightarrow> int \<Rightarrow> u64 \<Rightarrow> u64 \<Rightarrow> bool" where
  "kbuf_at vm off fd pa n \<longleftrightarrow> unat off + 24 \<le> unat (mem_size vm) \<and> load64 (kmem vm) off = word_of_int fd \<and>
     load64 (kmem vm) (off + 8) = pa \<and> load64 (kmem vm) (off + 16) = n"

lemma rw_work_request:
  assumes rd: "ready vm" and mem: "unat (mem_size vm) \<le> 2 ^ 32" and buf: "kbuf_at vm off fd pa n"
    and fd: "- (2 ^ 31) \<le> fd" "fd < 2 ^ 31"
  shows "rw_work fptr (ucast off) vm =
    (if unat (mem_size vm) < unat pa + unat n then Inr (word_of_int (- EACCES), vm)
     else case spec_fd (fds vm) fd of None \<Rightarrow> Inr (word_of_int (- EBADF), MAY_INIT_FD_MAP vm)
     | Some h \<Rightarrow> if pa = mem_size vm then Inl (Host_error ''assert'')
         else case fptr h pa n (MAY_INIT_FD_MAP vm) of ((r, e), vm') \<Rightarrow>
           Inr (if sint (word_of_int r :: u32) < 0 then word_of_int (- e) else word_of_int r, vm'))"
proof -
  have o: "unat off + 24 \<le> unat (mem_size vm)" using buf by (simp add: kbuf_at_def)
  have off: "ucast (ucast off :: u32) = off"
    using o mem by (intro ucast_32_64) simp
  have oob: "CHECK_OOB vm off = Inr ()" using o by (simp add: CHECK_OOB_def word_less_nat_alt)
  have in_mem: "(pa \<le> pa + n \<and> pa + n \<le> mem_size vm) \<longleftrightarrow> unat pa + unat n \<le> unat (mem_size vm)" (is "?L \<longleftrightarrow> ?R")
  proof
    assume ?L
    then have "unat (pa + n) = unat pa + unat n"
      using unsigned_less [of n, where 'a = nat] by (auto simp: word_le_nat_alt unat_plus_if' split: if_splits)
    then show ?R using \<open>?L\<close> by (simp add: word_le_nat_alt)
  next
    assume r: ?R
    then have "unat (pa + n) = unat pa + unat n" using unsigned_less [of "mem_size vm", where 'a = nat] by (intro unat_add_64) simp
    then show ?L using r by (simp add: word_le_nat_alt)
  qed
  note val = buf [unfolded kbuf_at_def, THEN conjunct2]
  show ?thesis
  proof (cases "unat (mem_size vm) < unat pa + unat n")
    case True
    then show ?thesis using in_mem val o by (simp add: rw_work_def off oob Let_def)
  next
    case False
    then have w: "rw_work fptr (ucast off) vm = process_on_fd vm fd (\<lambda>vm.
        bindE (CHECK_OOB vm pa) (\<lambda>_. Inr (fptr (real_fd (fd_map vm ! nat fd)) pa n vm)))"
      using in_mem val o fd_word [OF fd] by (simp add: rw_work_def off oob Let_def)
    show ?thesis
    proof (cases "spec_fd (fds vm) fd")
      case None
      then show ?thesis using False by (simp add: w process_on_fd_refines [OF rd])
    next
      case (Some h)
      note op = process_on_fd_open [OF rd Some]
      have "unat pa \<le> unat (mem_size vm)" using False by simp
      then have "CHECK_OOB (MAY_INIT_FD_MAP vm) pa = (if pa = mem_size vm then Inl (Host_error ''assert'') else Inr ())"
        by (auto simp: CHECK_OOB_def word_less_nat_alt word_unat_eq_iff)
      then show ?thesis using False Some op by (simp add: w process_on_fd_def Let_def split: prod.split)
    qed
  qed
qed

text \<open>A host for the examples: every file has descriptor 7 and one byte to read.\<close>

definition demo_os :: "'w host_os" where
  "demo_os = \<lparr>os_open = \<lambda>name w. ((7, 0), w),
     os_read = \<lambda>h n w. (if n = 0 then (0, 0, []) else (1, 0, [0x2a]), w),
     os_write = \<lambda>h bs w. ((int (length bs), 0), w), os_close = \<lambda>h w. ((0, 0), w),
     os_lseek = \<lambda>h off whence w. ((0, 0), w)\<rparr>"

lemma demo_host_ok: "host_ok demo_os"
proof -
  have "1 \<le> uint n" if "n \<noteq> 0" for n :: u64 
    using that uint_ge_0 [of n] by (simp add: int_one_le_iff_zero_less less_le word_uint_eq_iff)
  then show ?thesis by (auto simp: host_ok_def demo_os_def errno_ok_def)
qed

definition std_fds :: fd_table where
  "std_fds i = (if i < 3 then Some (int i) else None)"

lemma fresh_fds: "fds (fresh_machine code w) = std_fds"
proof
  fix i
  show "fds (fresh_machine code w) i = std_fds i"
    by (auto simp: fds_def fresh_machine_def MAY_INIT_FD_MAP_def MAX_FD_def std_fds_def nth_append less_Suc_eq numeral_3_eq_3 nth_Cons')
qed

lemma first_std_fd: "hd (free_fds std_fds) = 3" "free_fds std_fds \<noteq> []"
proof -
  have "[0..<MAX_FD + 1] = [0..<4] @ [4..<MAX_FD + 1]"
    using upt_add_eq_append [of 0 4 252] by (simp add: MAX_FD_def del: upt_Suc)
  moreover have "[0..<4] = [0, 1, 2, 3 :: nat]" by (simp add: upt_rec)
  ultimately show "hd (free_fds std_fds) = 3" "free_fds std_fds \<noteq> []"
    by (simp_all add: free_fds_def std_fds_def del: upt_Suc)
qed

end
