(* ===== verification/Guest_Blocks.thy ===== *)
theory Guest_Blocks
  imports Hypercall_Spec
begin

unbundle bit_operations_syntax

text \<open>
  The memory of a system call: blocks that are allocated, filled and released within the call
  (\<^verbatim>\<open>kernel/mm/kmalloc.c\<close>), the requests \<^verbatim>\<open>hp_read\<close> and \<^verbatim>\<open>hp_write\<close> pass in such a block, and the copies
  between a block and the buffer of the program, which go through the page tables.
\<close>

section \<open>Temporary blocks\<close>

text \<open>
  A system call allocates blocks, fills them and frees them again.  Relative to the regions \<open>A\<close> its
  caller holds, none of these steps is visible: \<open>quiet\<close> says that the arena, the tables and the bytes of
  every held region are what they were.
\<close>

definition quiet :: "'z kpaging_scheme \<Rightarrow> region set \<Rightarrow> 'z kpaging_scheme \<Rightarrow> bool" where
  "quiet s A s' \<longleftrightarrow> cr3 s' = cr3 s \<and> arena s' = arena s \<and> (\<forall>r. held s A r \<longrightarrow> same_on (kmem s) (kmem s') r)"

lemma held_arena: "arena s' = arena s \<Longrightarrow> held s' A r \<longleftrightarrow> held s A r"
  by (simp add: held_def)

lemma quiet_refl [simp]: "quiet s A s"
  by (simp add: quiet_def)

lemma quiet_trans: "quiet s A s1 \<Longrightarrow> quiet s1 A s2 \<Longrightarrow> quiet s A s2"
  unfolding quiet_def using held_arena same_on_trans by metis

lemma quiet_mono: "quiet s A s' \<Longrightarrow> B \<subseteq> A \<Longrightarrow> quiet s B s'"
  unfolding quiet_def using held_mono by metis

lemma quietD: "quiet s A s' \<Longrightarrow> held s A r \<Longrightarrow> same_on (kmem s) (kmem s') r"
  unfolding quiet_def by blast

lemma held_kept:
  assumes inv: "heap_inv s A' F" and sub: "A \<subseteq> A'" and kept: "kept s s' A" and held: "held s A r"
  shows "same_on (kmem s) (kmem s') r"
proof -
  have r: "kreg r" using held by (simp add: held_def)
  consider c where "c \<in> A" "subr r (block c)" | "disjr (arena s) r" using held by (auto simp: held_def)
  then show ?thesis
  proof cases
    case (1 c)
    have "c \<in> A'" using 1(1) sub by blast
    have "same_on (kmem s) (kmem s') c" using kept 1(1) by (simp add: kept_def)
    moreover have "subr r c" using 1(2) block_facts(3) [OF inv \<open>c \<in> A'\<close>] by (auto simp: subr_def)
    ultimately show ?thesis by (rule same_on_subr [OF _ block_facts(1) [OF inv \<open>c \<in> A'\<close>] r])
  next
    case 2
    then show ?thesis using kept r by (auto simp: kept_def intro: changed_withinD)
  qed
qed

lemma quiet_kept:
  assumes "heap_inv s A' F" "A \<subseteq> A'" "kept s s' A" "cr3 s' = cr3 s"
  shows "quiet s A s'"
  using assms held_kept [OF assms(1-3)] arena_kept [OF assms(3)] by (simp add: quiet_def)

lemma quiet_pt:
  assumes pt: "pt_inv s A tab" and q: "quiet s A s'"
  shows "pt_inv s' A tab" "user_space s' = user_space s"
proof -
  have ok: "pt_ok (kmem s) tab" and root: "tab [] = Some (cr3 s)"
    and held: "\<And>q w. tab q = Some w \<Longrightarrow> held s A (tbl w)" using pt by (auto simp: pt_inv_def)
  note ok1 = pt_ok_same_on [OF ok quietD [OF q held]]
  have q': "cr3 s' = cr3 s" "arena s' = arena s" using q by (simp_all add: quiet_def)
  show pt1: "pt_inv s' A tab" using ok1(1) root held q' held_arena [of s' s] by (auto simp: pt_inv_def)
  show "user_space s' = user_space s"
    using translate_leaf [OF pt1] translate_leaf [OF pt] ok1(2) by (intro ext) (simp add: user_space_def)
qed

lemma quiet_write:
  assumes inv: "heap_inv s (insert c A) F" and c: "c \<notin> A" and ch: "changed_within (kmem s) m {block c}"
  shows "heap_inv (s\<lparr>kmem := m\<rparr>) (insert c A) F" "quiet s A (s\<lparr>kmem := m\<rparr>)"
proof -
  note w = heap_inv_write [OF inv insertI1 ch]
  show "heap_inv (s\<lparr>kmem := m\<rparr>) (insert c A) F" by (rule w(1))
  have "kept s (s\<lparr>kmem := m\<rparr>) A" using w(2) c by simp
  then show "quiet s A (s\<lparr>kmem := m\<rparr>)" by (intro quiet_kept [OF inv]) auto
qed

lemma quiet_kfree:
  assumes inv: "heap_inv s (insert c A) F" and c: "c \<notin> A"
  obtains s' F' where "kfree s (chunk2mem (fst c)) = Inr s'" "heap_inv s' A F'" "quiet s A s'" "kheap.more s' = kheap.more s"
proof -
  obtain s' where s': "kfree s (chunk2mem (fst c)) = Inr s'"
    "heap_inv s' (insert c A - {c}) (if free_top s c then F else ins c F)" "kept s s' (insert c A - {c})"
    by (rule kept_kfree [OF inv insertI1])
  have m: "kheap.more s' = kheap.more s" by (rule kfree_more [OF s'(1)])
  have "quiet s A s'" using s'(3) c cr3_more [OF m] by (intro quiet_kept [OF inv]) auto
  with s' m c show thesis by (intro that [of s']) simp_all
qed

text \<open>How much of the top of the arena a plain request may take.\<close>

lemma set_next_top: "arena_top_size (set_next s r v) = arena_top_size s"
  by (cases r) (simp_all add: set_next_def)

lemma insert_sorted_top_size: "insert_sorted s c = Inr s' \<Longrightarrow> arena_top_size s' = arena_top_size s"
  by (auto simp: insert_sorted_def set_next_top split: option.splits)

lemma fetch_sorted_bin_top: "fetch_sorted_bin s nb = Inr (p, s') \<Longrightarrow> arena_top_size s' = arena_top_size s"
  by (auto simp: fetch_sorted_bin_def Let_def bindE_eq_Inr set_next_top
      dest!: insert_sorted_top_size split: option.splits sum.splits prod.splits if_splits)

lemma plain_room:
  assumes len: "unat len < 2 ^ 31" and k: "kmalloc s len MALLOC_NO_ALIGN = Inr (p, s')"
  shows "unat (arena_top_size s) \<le> unat (arena_top_size s') + rounded (unat len)"
proof -
  have r: "unat (of_nat (rounded (unat len)) :: u64) = rounded (unat len)"
    using rounded_bounds(2) [of "unat len"] len by simp
  obtain s1 where i: "int_kmalloc s (of_nat (rounded (unat len))) MALLOC_NO_ALIGN = Inr (p, s1)"
    "arena_top_size s' = arena_top_size s1"
    using k len by (auto simp: kmalloc_eq bindE_eq_Inr split: if_splits)
  then obtain q s2 where f: "fetch_sorted_bin s (of_nat (rounded (unat len))) = Inr (q, s2)"
    "s1 = s2 \<or> (p, s1) = malloc_top s2 (of_nat (rounded (unat len)))"
    by (auto simp: int_kmalloc_def bindE_eq_Inr split: if_splits)
  have "unat (arena_top_size s2) \<le> unat (arena_top_size s1) + rounded (unat len)"
    using f(2) r by (auto simp: malloc_top_def Let_def word_less_nat_alt unat_sub word_le_nat_alt split: if_splits)
  then show ?thesis using i(2) fetch_sorted_bin_top [OF f(1)] by simp
qed

lemma physical_kptr: "kptr p \<Longrightarrow> physical p = Inr (dm p)"
proof -
  assume "kptr p"
  then have b: "bit p 39" by (rule bit_39_if_kptr)
  have e: "KERNEL_BASE_OFFSET = 2 ^ 39" by (simp add: KERNEL_BASE_OFFSET_def)
  have k: "bit KERNEL_BASE_OFFSET n \<longleftrightarrow> n = 39" for n unfolding e bit_exp_iff by auto
  have "bit (p AND KERNEL_BASE_OFFSET) 39" using b k by (simp add: bit_and_iff)
  then have "p AND KERNEL_BASE_OFFSET \<noteq> 0" by auto
  moreover have "p XOR KERNEL_BASE_OFFSET = dm p"
    unfolding dm_unset_bit by (rule bit_word_eqI) (use b k in \<open>auto simp: bit_xor_iff bit_unset_bit_iff\<close>)
  ultimately show ?thesis by (simp add: physical_def)
qed

lemma machine_more:
  fixes s s' :: "'w machine"
  assumes "kheap.more s' = kheap.more s"
  shows "cr3 s' = cr3 s" "last_mmapped s' = last_mmapped s" "world s' = world s" "mem_size s' = mem_size s" "fds s' = fds s"
    "ready s' \<longleftrightarrow> ready s"
proof -
  have "fd_map s' = fd_map s \<and> fd_map_init s' = fd_map_init s \<and> cr3 s' = cr3 s \<and> last_mmapped s' = last_mmapped s
      \<and> world s' = world s \<and> mem_size s' = mem_size s \<and> open_ret s' = open_ret s \<and> rw_ret s' = rw_ret s
      \<and> close_ret s' = close_ret s \<and> lseek_ret s' = lseek_ret s"
    using assms by (cases s, cases s') simp
  then show "cr3 s' = cr3 s" "last_mmapped s' = last_mmapped s" "world s' = world s" "mem_size s' = mem_size s" "fds s' = fds s"
    "ready s' \<longleftrightarrow> ready s"
    by (auto simp: fds_def MAY_INIT_FD_MAP_def ready_def)
qed

text \<open>The arena lies in the memory of the machine, which has at most four gigabytes.\<close>

definition fits :: "'w machine \<Rightarrow> bool" where
  "fits vm \<longleftrightarrow> arena_end vm \<le> 2 ^ 39 + unat (mem_size vm) \<and> unat (mem_size vm) \<le> 2 ^ 32"

lemma heap_inv_fields:
  "kmem s' = kmem s \<Longrightarrow> arena_top s' = arena_top s \<Longrightarrow> arena_top_size s' = arena_top_size s \<Longrightarrow>
   arena_min_addr s' = arena_min_addr s \<Longrightarrow> sorted_bin_next s' = sorted_bin_next s \<Longrightarrow>
   heap_inv s' A F \<longleftrightarrow> heap_inv s A F"
  by (simp add: heap_inv_def arena_ok_def)

lemma host_side_same:
  assumes "host_side vm vm'"
  shows "heap_inv vm' A F \<longleftrightarrow> heap_inv vm A F" "quiet vm A vm'" "mem_size vm' = mem_size vm" "fits vm' \<longleftrightarrow> fits vm"
    "arena_top_size vm' = arena_top_size vm" "last_mmapped vm' = last_mmapped vm" "kmem vm' = kmem vm"
proof -
  obtain m i w where v: "vm' = vm\<lparr>fd_map := m, fd_map_init := i, world := w\<rparr>" using assms by (auto simp: host_side_def)
  show "heap_inv vm' A F \<longleftrightarrow> heap_inv vm A F" by (rule heap_inv_fields) (simp_all add: v)
  show "quiet vm A vm'" by (simp add: quiet_def v arena_def arena_end_def)
  show "mem_size vm' = mem_size vm" "fits vm' \<longleftrightarrow> fits vm" "arena_top_size vm' = arena_top_size vm"
    "last_mmapped vm' = last_mmapped vm" "kmem vm' = kmem vm"
    by (simp_all add: v fits_def arena_end_def)
qed

lemma temp_block:
  fixes vm :: "'w machine"
  assumes inv: "heap_inv vm A F" and len: "unat len < 2 ^ 31" "len \<noteq> 0" and room: "rounded (unat len) \<le> unat (arena_top_size vm)"
  obtains c s1 F1 where "kmalloc vm len MALLOC_NO_ALIGN = Inr (chunk2mem (fst c), s1)" "heap_inv s1 (insert c A) F1" "c \<notin> A"
    "quiet vm A s1" "kheap.more s1 = kheap.more vm" "kreg (chunk2mem (fst c), unat len)"
    "subr (chunk2mem (fst c), unat len) (block c)" "subr (block c) (arena vm)" "arena s1 = arena vm"
    "unat (arena_top_size vm) \<le> unat (arena_top_size s1) + rounded (unat len)" "arena_end s1 = arena_end vm"
proof (cases rule: kmalloc_cases [OF inv less_trans [OF len(1)] disjI1 [OF refl]])
  case (5 s1 c F1)
  have c: "heap_inv s1 (insert c A) F1" "kept vm s1 A" "c \<notin> A" using 5(3) by (simp_all add: served_def)
  note b = block_facts [OF c(1), of c, simplified]
  have more: "kheap.more s1 = kheap.more vm" by (rule kmalloc_more [OF 5(1)])
  have "unat len + 16 \<le> snd c" using 5(4) rounded_bounds(1) by simp
  then have s: "subr (chunk2mem (fst c), unat len) (block c)" by (simp add: subr_def block_def)
  have k: "kreg (chunk2mem (fst c), unat len)"
    using b(4) s len(2) by (auto simp: kreg_def block_def subr_def unat_gt_0)
  have "subr c (arena vm)" using chunk_subr_arena [OF c(1), of c] arena_kept [OF c(2)] by simp
  then have "subr (block c) (arena vm)" using b(3) by (auto simp: subr_def)
  moreover have "quiet vm A s1" using c(2) machine_more(1) [OF more] by (intro quiet_kept [OF inv]) auto
  moreover have "arena_end s1 = arena_end vm" using c(2) by (simp add: kept_def)
  ultimately show thesis using that 5(1) c more k s arena_kept [OF c(2)] plain_room [OF len(1) 5(1)] by blast
qed (use room len in \<open>auto simp: no_room_def\<close>)

lemma store_kbuf:
  assumes k: "kreg (p, 24)"
  shows "changed_within m (store_kbuf64 m p a b c) {(p, 24)}" "load64 (store_kbuf64 m p a b c) (dm p) = a"
    "load64 (store_kbuf64 m p a b c) (dm p + 8) = b" "load64 (store_kbuf64 m p a b c) (dm p + 16) = c"
proof -
  have w: "changed_within m (kstore64 m (p + of_nat i) v) {(p, 24)}" if "i \<le> 16" for m i v
    using kstore64_frame [of "(p, 24)" _ i m v] k that by (simp add: changed_within_def)
  show "changed_within m (store_kbuf64 m p a b c) {(p, 24)}"
    unfolding store_kbuf64_def
    using changed_within_trans [OF changed_within_trans [OF w [of 0 m a] w [of 8 _ b]] w [of 16 _ c]] by simp
  have d: "dm (p + 8) = dm p + 8" "dm (p + 16) = dm p + 16"
    using dm_add [of p 8] dm_add [of p 16] kptr_if_kreg [OF k] k by (simp_all add: kreg_def)
  have f: "kload64 (kstore64 m (p + of_nat i) v) (p + of_nat j) = kload64 m (p + of_nat j)"
    if "i \<le> 16" "j \<le> 16" "i + 8 \<le> j \<or> j + 8 \<le> i" for m i j v
    using kload64_kstore64_fields [of "(p, 24)" i j] k that by simp
  have "kload64 (store_kbuf64 m p a b c) p = a" "kload64 (store_kbuf64 m p a b c) (p + 8) = b"
    "kload64 (store_kbuf64 m p a b c) (p + 16) = c"
    unfolding store_kbuf64_def using f [of 16 0] f [of 8 0] f [of 16 8] by simp_all
  then show "load64 (store_kbuf64 m p a b c) (dm p) = a"
    "load64 (store_kbuf64 m p a b c) (dm p + 8) = b" "load64 (store_kbuf64 m p a b c) (dm p + 16) = c"
    by (simp_all add: kload64_def d)
qed

section \<open>The wrappers of the transfers\<close>

definition spec_write :: "'w host_os \<Rightarrow> int \<Rightarrow> u8 list \<Rightarrow> fd_table \<Rightarrow> 'w \<Rightarrow> int \<times> 'w" where
  "spec_write os fd bs T w =
     (case spec_fd T fd of None \<Rightarrow> (- EBADF, w)
      | Some h \<Rightarrow> let ((r, e), w') = os_write os h bs w in (if r < 0 then - e else r, w'))"

definition spec_read :: "'w host_os \<Rightarrow> int \<Rightarrow> u64 \<Rightarrow> fd_table \<Rightarrow> 'w \<Rightarrow> int \<times> u8 list \<times> 'w" where
  "spec_read os fd n T w =
     (case spec_fd T fd of None \<Rightarrow> (- EBADF, [], w)
      | Some h \<Rightarrow> let ((r, e, bs), w') = os_read os h n w in (if r < 0 then - e else r, bs, w'))"

lemma block_in_memory:
  assumes inv: "heap_inv vm A F" and p: "subr (p, n) (block c)" "subr (block c) (arena vm)" "kptr p" and fits: "fits vm"
  shows "unat (dm p) + n \<le> unat (mem_size vm)"
proof -
  have "unat (arena_min_addr vm) \<le> arena_end vm"
    using heap_inv_arena [OF inv] by (simp add: arena_ok_def arena_end_def)
  then have "unat p + n \<le> arena_end vm" using p(1,2) by (auto simp: subr_def arena_def)
  then show ?thesis using fits p(3) by (auto simp: fits_def unat_dm_kptr kptr_def)
qed

lemma spec_read_length:
  assumes os: "host_ok os" and r: "spec_read os fd n T w = (r, bs, w')"
  shows "length bs = nat r \<and> length bs \<le> unat n \<and> - 4096 < r"
proof (cases "spec_fd T fd")
  case None
  then show ?thesis using r by (auto simp: spec_read_def EBADF_def)
next
  case (Some h)
  obtain x e bs' w'' where o: "os_read os h n w = ((x, e, bs'), w'')" by (metis prod.exhaust)
  have "errno_ok x e \<and> x \<le> uint n \<and> length bs' = nat x" by (rule host_okD(3) [OF os o])
  moreover have "bs = bs'" "r = (if x < 0 then - e else x)" using r Some o by (simp_all add: spec_read_def)
  ultimately show ?thesis by (auto simp: errno_ok_def nat_le_iff)
qed

lemma hp_rw_bracket:
  fixes vm :: "'w machine"
  assumes inv: "heap_inv vm A F" and fits: "fits vm" and room: "rounded 24 \<le> unat (arena_top_size vm)"
  obtains c vm2 F1 where
    "hp_rw nr os fd pa n vm = bindE (hypercall os nr (ucast (dm (chunk2mem (fst c)))) vm2)
       (\<lambda>(ret, v). bindE (kfree v (chunk2mem (fst c))) (\<lambda>v. Inr (ret, v)))"
    "heap_inv vm2 (insert c A) F1" "c \<notin> A" "quiet vm A vm2" "kheap.more vm2 = kheap.more vm"
    "kbuf_at vm2 (dm (chunk2mem (fst c))) fd pa n" "fits vm2"
proof -
  have l: "unat (24 :: u64) < 2 ^ 31" "(24 :: u64) \<noteq> 0" "rounded (unat (24 :: u64)) \<le> unat (arena_top_size vm)"
    using room by simp_all
  obtain c s1 F1 where s1: "kmalloc vm 24 MALLOC_NO_ALIGN = Inr (chunk2mem (fst c), s1)" "heap_inv s1 (insert c A) F1" "c \<notin> A"
    "quiet vm A s1" "kheap.more s1 = kheap.more vm" "kreg (chunk2mem (fst c), 24)" "subr (chunk2mem (fst c), 24) (block c)"
    "subr (block c) (arena vm)" "arena_end s1 = arena_end vm"
    by (rule temp_block [OF inv l, simplified])
  let ?p = "chunk2mem (fst c)"
  let ?m = "store_kbuf64 (kmem s1) ?p (word_of_int fd) pa n"
  let ?vm2 = "s1\<lparr>kmem := ?m\<rparr>"
  note kb = store_kbuf [OF s1(6)]
  have ch: "changed_within (kmem s1) ?m {block c}" by (rule changed_within_subr [OF kb(1)]) (use s1(7) in simp)
  note w = quiet_write [OF s1(2,3) ch]
  have k: "kptr ?p" using kptr_if_kreg [OF s1(6)] by simp
  have mm: "mem_size s1 = mem_size vm" by (rule machine_more(4) [OF s1(5)])
  have "unat (dm ?p) + 24 \<le> unat (mem_size vm)" by (rule block_in_memory [OF inv s1(7,8) k fits])
  then have "kbuf_at ?vm2 (dm ?p) fd pa n" using kb(2-4) mm by (simp add: kbuf_at_def)
  moreover have "fits ?vm2" using fits s1(9) mm by (simp add: fits_def arena_end_def)
  moreover have "quiet vm A ?vm2" by (rule quiet_trans [OF s1(4) w(2)])
  moreover have "hp_rw nr os fd pa n vm = bindE (hypercall os nr (ucast (dm ?p)) ?vm2)
       (\<lambda>(ret, v). bindE (kfree v ?p) (\<lambda>v. Inr (ret, v)))"
    by (simp add: hp_rw_def s1(1) physical_kptr [OF k])
  ultimately show thesis using w(1) s1(3,5) by (intro that [of c ?vm2]) simp_all
qed

lemma insert_swap: "insert c (insert d A) = insert d (insert c A)"
  by blast

lemma write_request:
  fixes vm :: "'w machine"
  assumes rd: "ready vm" and os: "host_ok os" and mem: "unat (mem_size vm) \<le> 2 ^ 32" and buf: "kbuf_at vm off fd pa n"
    and fd: "- (2 ^ 31) \<le> fd" "fd < 2 ^ 31" and n: "n \<noteq> 0" "unat n < 2 ^ 31" "unat pa + unat n \<le> unat (mem_size vm)"
  shows "\<exists>r vm3. hypercall os NR_HP_write (ucast off) vm = Inr (r, vm3) \<and>
    (r, world vm3) = spec_write os fd (load_bytes (kmem vm) pa (unat n)) (fds vm) (world vm) \<and>
    host_side vm vm3 \<and> fds vm3 = fds vm \<and> ready vm3"
proof -
  note req = rw_work_request [OF rd mem buf fd, of "write_call os"]
  let ?bs = "load_bytes (kmem vm) pa (unat n)"
  have pa: "pa \<noteq> mem_size vm" using n(1,3) by (auto simp: unat_gt_0 [symmetric] simp del: unat_gt_0)
  obtain r vm3 where w: "rw_work (write_call os) (ucast off) vm = Inr (r, vm3)"
      "(sint r, world vm3) = spec_write os fd ?bs (fds vm) (world vm)" "r \<noteq> UNUSED_VAR" "host_side vm vm3" "fds vm3 = fds vm" "ready vm3"
  proof (cases "spec_fd (fds vm) fd")
    case None
    then show thesis
      using req n(3) rd host_side_init [of vm] result_32 [of "- EBADF"]
      by (intro that [of "word_of_int (- EBADF)" "MAY_INIT_FD_MAP vm"]) (simp_all add: spec_write_def EBADF_def)
  next
    case (Some h)
    obtain x e w' where o: "os_write os h ?bs (world vm) = ((x, e), w')" by (metis surj_pair)
    have "x \<le> int (unat n)" using host_okD(4) [OF os o] by simp
    moreover have "int (unat n) < 2 ^ 31" using n(2) by (metis of_nat_less_iff of_nat_numeral of_nat_power)
    ultimately have "x < 2 ^ 31" by (rule le_less_trans)
    then have e: "errno_ok x e" "x < 2 ^ 31" using host_okD(4) [OF os o] by simp_all
    have x: "sint (word_of_int x :: u32) = x" using e by (intro sint_small) (simp_all add: errno_ok_def)
    let ?r = "if x < 0 then - e else x" and ?v = "(MAY_INIT_FD_MAP vm)\<lparr>world := w'\<rparr>"
    have "rw_work (write_call os) (ucast off) vm = Inr (word_of_int ?r, ?v)"
      using req n(3) pa Some o x by (auto simp: write_call_def)
    moreover have "sint (word_of_int ?r :: u32) = ?r" "(word_of_int ?r :: u32) \<noteq> UNUSED_VAR"
      using result_32 [of ?r] e by (auto simp: errno_ok_def)
    moreover have "host_side vm ?v" by (rule host_side_trans [OF host_side_init]) simp
    moreover have "fds ?v = fds vm" "ready ?v" using rd by (auto simp: fds_def MAY_INIT_FD_MAP_def ready_def MAX_FD_def)
    ultimately show thesis using Some o by (intro that [of "word_of_int ?r" ?v]) (simp_all add: spec_write_def)
  qed
  have "hypercall os NR_HP_write (ucast off) vm = Inr (sint r, vm3)"
    using hc_write.hypercall_work [of vm os "ucast off"] rd w(1,3) by (simp add: ready_def)
  then show ?thesis using w(2,4-6) by (intro exI [of _ "sint r"] exI [of _ vm3]) simp
qed

lemma hp_write_step:
  fixes vm :: "'w machine"
  assumes inv: "heap_inv vm A F" and fits: "fits vm" and room: "rounded 24 \<le> unat (arena_top_size vm)"
    and os: "host_ok os" and rd: "ready vm" and fd: "- (2 ^ 31) \<le> fd" "fd < 2 ^ 31"
    and src: "held vm A (p, unat n)" "unat (dm p) + unat n \<le> unat (mem_size vm)" "unat n < 2 ^ 31"
  shows "\<exists>r vm' F'. hp_write os fd (dm p) n vm = Inr (r, vm') \<and>
    (r, world vm') = spec_write os fd (load_bytes (kmem vm) (dm p) (unat n)) (fds vm) (world vm) \<and>
    fds vm' = fds vm \<and> heap_inv vm' A F' \<and> quiet vm A vm' \<and> ready vm' \<and> mem_size vm' = mem_size vm"
proof -
  obtain c vm2 F1 where b: "hp_write os fd (dm p) n vm = bindE (hypercall os NR_HP_write (ucast (dm (chunk2mem (fst c)))) vm2)
       (\<lambda>(ret, v). bindE (kfree v (chunk2mem (fst c))) (\<lambda>v. Inr (ret, v)))"
    "heap_inv vm2 (insert c A) F1" "c \<notin> A" "quiet vm A vm2" "kheap.more vm2 = kheap.more vm"
    "kbuf_at vm2 (dm (chunk2mem (fst c))) fd (dm p) n" "fits vm2"
    unfolding hp_write_def by (rule hp_rw_bracket [OF inv fits room])
  note more = machine_more [OF b(5)]
  let ?bs = "load_bytes (kmem vm) (dm p) (unat n)"
  have bs: "load_bytes (kmem vm2) (dm p) (unat n) = ?bs" using quietD [OF b(4) src(1)] by (simp add: same_on_def)
  have n: "n \<noteq> 0" using src(1) by (auto simp: held_def kreg_def)
  have mem: "unat (mem_size vm2) \<le> 2 ^ 32" using b(7) by (simp add: fits_def)
  obtain r vm3 where w: "hypercall os NR_HP_write (ucast (dm (chunk2mem (fst c)))) vm2 = Inr (r, vm3)"
      "(r, world vm3) = spec_write os fd ?bs (fds vm2) (world vm2)" "host_side vm2 vm3" "fds vm3 = fds vm2" "ready vm3"
    using write_request [OF _ os mem b(6) fd n src(3)] rd src(2) more unfolding bs by auto
  note hs = host_side_same [OF w(3)]
  have i3: "heap_inv vm3 (insert c A) F1" using b(2) hs(1) by simp
  obtain vm' F' where k: "kfree vm3 (chunk2mem (fst c)) = Inr vm'" "heap_inv vm' A F'" "quiet vm3 A vm'"
    "kheap.more vm' = kheap.more vm3"
    by (rule quiet_kfree [OF i3 b(3)])
  have "quiet vm A vm'" by (rule quiet_trans [OF quiet_trans [OF b(4) hs(2)] k(3)])
  then show ?thesis
    using b(1) k(1,2) w more machine_more [OF k(4)] hs(3)
    by (intro exI [of _ r] exI [of _ vm'] exI [of _ F']) simp
qed

section \<open>Copies between user and kernel\<close>

lemma inj_offset: "n \<le> 2 ^ 64 \<Longrightarrow> inj_on (\<lambda>i. a + of_nat i :: u64) {..<n}"
proof (rule inj_onI)
  fix i j assume h: "n \<le> 2 ^ 64" "i \<in> {..<n}" "j \<in> {..<n}" "a + of_nat i = (a + of_nat j :: u64)"
  then have "(of_nat i :: u64) = of_nat j" by simp
  then have "unat (of_nat i :: u64) = unat (of_nat j :: u64)" by simp
  then show "i = j" using h(1-3) by simp
qed

lemma memcpy_store:
  assumes k: "kreg (p, n)" and tr: "\<And>i. i < n \<Longrightarrow> tr (p + of_nat i) = dm p + of_nat i"
    and disj: "\<And>i j. i < n \<Longrightarrow> j < n \<Longrightarrow> dm p + of_nat i \<noteq> tr (src + of_nat j)"
  shows "memcpy_loop tr m p src n = store_bytes m (dm p) (vbytes tr m src n)"
proof
  fix x
  have n: "n < 2 ^ 64" using k by (simp add: kreg_def)
  have u: "unat (of_nat i :: u64) = i" if "i < n" for i using that n by (simp add: unsigned_of_nat take_bit_nat_eq_self)
  have "inj_on (\<lambda>i. tr (p + of_nat i)) {..<n}" using inj_offset [of n "dm p"] tr n by (auto simp: inj_on_def)
  then have copies: "vbytes tr (memcpy_loop tr m p src n) p n = vbytes tr m src n"
    using tr disj by (intro memcpy_loop_copies) auto
  show "memcpy_loop tr m p src n x = store_bytes m (dm p) (vbytes tr m src n) x"
  proof (cases "unat (x - dm p) < n")
    case True
    let ?i = "unat (x - dm p)"
    have x: "x = tr (p + of_nat ?i)" using tr [OF True] by simp
    have "vbytes tr (memcpy_loop tr m p src n) p n ! ?i = memcpy_loop tr m p src n x"
      using True x by (simp add: vbytes_def)
    then show ?thesis using True n by (simp add: copies store_bytes_apply)
  next
    case False
    then have "x \<noteq> tr (p + of_nat i)" if "i < n" for i using that tr u by auto
    then show ?thesis using False n by (simp add: memcpy_loop_other store_bytes_apply)
  qed
qed

lemma temp_disjr:
  assumes inv: "heap_inv s (insert c A) F" and c: "c \<notin> A" and h: "held s A r"
  shows "disjr (block c) r"
proof -
  have bc: "subr (block c) c" using block_facts(3) [OF inv] by simp
  consider d where "d \<in> A" "subr r (block d)" | "disjr (arena s) r" using h by (auto simp: held_def)
  then show ?thesis
  proof cases
    case (1 d)
    have "disjr c d" using 1(1) c by (intro heap_inv_disjr [OF inv]) auto
    then show ?thesis using bc 1(2) block_facts(3) [OF inv, of d] 1(1) by (auto simp: disjr_def subr_def)
  next
    case 2
    then show ?thesis using chunk_subr_arena [OF inv, of c] bc by (auto simp: disjr_def subr_def)
  qed
qed

text \<open>The byte of physical memory at \<open>x\<close> belongs to a region in use.\<close>

definition backed :: "'z kheap_scheme \<Rightarrow> region set \<Rightarrow> u64 \<Rightarrow> bool" where
  "backed s A x \<longleftrightarrow> (\<exists>q. dm q = x \<and> held s A (q, 1))"

lemma backed_outside:
  assumes inv: "heap_inv s (insert c A) F" and c: "c \<notin> A" and x: "backed s A x"
    and p: "kreg (p, n)" "subr (p, n) (block c)" and i: "i < n"
  shows "dm p + of_nat i \<noteq> x"
proof -
  obtain q where q: "dm q = x" "held s A (q, 1)" using x by (auto simp: backed_def)
  have k: "kreg (q, 1)" using q(2) by (simp add: held_def)
  have "disjr (p, n) (q, 1)" using temp_disjr [OF inv c q(2)] p(2) by (rule disjr_subr)
  then have "sep (dm p) n (dm q) 1" using sep_if_disjr [OF p(1) k] by simp
  then have s: "n \<le> unat (x - dm p)" using q(1) by (simp add: sep_def)
  have "unat (of_nat i :: u64) = i" using i p(1) by (simp add: unsigned_of_nat take_bit_nat_eq_self kreg_def)
  then show ?thesis using s i by auto
qed

text \<open>The bytes a program sees at \<open>buf\<close>.\<close>

definition user_bytes :: "'z kpaging_scheme \<Rightarrow> u64 \<Rightarrow> nat \<Rightarrow> u8 list" where
  "user_bytes s buf n = map (\<lambda>k. kmem s (user_space s (buf + of_nat k) False False)) [0..<n]"

definition user_backed :: "'z kpaging_scheme \<Rightarrow> region set \<Rightarrow> u64 \<Rightarrow> nat \<Rightarrow> bool" where
  "user_backed s A buf n \<longleftrightarrow> (\<forall>k < n. backed s A (user_space s (buf + of_nat k) False False))"

lemma user_not_kptr: "USER_MEM_RANGE_OK v \<Longrightarrow> \<not> kptr v"
proof
  assume v: "USER_MEM_RANGE_OK v" "kptr v"
  then have "unat v div 2 ^ 39 = 1" by (intro div_nat_eqI) (simp_all add: kptr_def)
  then show False using v(1) by (simp add: user_range_iff)
qed

lemma user_cpu_addr: "USER_MEM_RANGE_OK v \<Longrightarrow> cpu_addr s v = user_space s v False False"
  by (simp add: cpu_addr_def user_space_def user_not_kptr)

lemma user_space_mode:
  assumes "pt_inv s A tab" "user_space s v um wr \<noteq> -1"
  shows "user_space s v False False = user_space s v um wr" "USER_MEM_RANGE_OK v"
  using assms by (auto simp: user_space_def translate_leaf leaf_translate_def split: if_splits)

lemma backed_same:
  assumes "quiet s A s'" "backed s A x" shows "kmem s' x = kmem s x"
proof -
  obtain q where q: "dm q = x" "held s A (q, 1)" using assms(2) by (auto simp: backed_def)
  show ?thesis using quietD [OF assms(1) q(2)] q(1) by (simp add: same_on_def)
qed

lemma user_bytes_quiet:
  assumes "pt_inv s A tab" "quiet s A s'" "user_backed s A buf n"
  shows "user_bytes s' buf n = user_bytes s buf n"
  using assms(3) backed_same [OF assms(2)] quiet_pt(2) [OF assms(1,2)]
  by (auto simp: user_bytes_def user_backed_def)

lemma cpu_kernel:
  assumes "kreg (p, n)" "i < n" shows "cpu_addr s (p + of_nat i) = dm p + of_nat i"
proof -
  have "unat (p + of_nat i) = unat p + i" using assms by (intro unat_add_nat_64) (simp add: kreg_def)
  then have "kptr (p + of_nat i)" using assms by (simp add: kptr_def kreg_def)
  moreover have "dm (p + of_nat i) = dm p + of_nat i"
    using assms by (intro dm_add) (simp_all add: kptr_if_kreg [OF assms(1), simplified] kreg_def)
  ultimately show ?thesis by (simp add: cpu_addr_def)
qed

text \<open>Copying a user buffer into a fresh block.\<close>

lemma copy_from_user:
  assumes inv: "heap_inv s (insert c A) F" and c: "c \<notin> A" and pt: "pt_inv s A tab"
    and p: "kreg (p, n)" "subr (p, n) (block c)"
    and user: "\<And>k. k < n \<Longrightarrow> USER_MEM_RANGE_OK (buf + of_nat k)" "user_backed s A buf n"
  shows "memcpy_loop (cpu_addr s) (kmem s) p buf n = store_bytes (kmem s) (dm p) (user_bytes s buf n)"
proof -
  have "dm p + of_nat i = cpu_addr s (p + of_nat i)" if i: "i < n" for i
    by (rule cpu_kernel [OF p(1) i, symmetric])
  moreover have "vbytes (cpu_addr s) (kmem s) buf n = user_bytes s buf n"
    using user(1) by (simp add: vbytes_def user_bytes_def user_cpu_addr)
  moreover have "dm p + of_nat i \<noteq> cpu_addr s (buf + of_nat j)" if "i < n" "j < n" for i j
    using backed_outside [OF inv c _ p that(1)] user(1) [OF that(2)] user(2) that(2) by (auto simp: user_backed_def user_cpu_addr)
  ultimately show ?thesis using memcpy_store [OF p(1), of "cpu_addr s" buf "kmem s"] by simp
qed

end
