(* ===== verification/Syscall_Spec.thy ===== *)
theory Syscall_Spec
  imports Guest_Blocks
begin

unbundle bit_operations_syntax

text \<open>
  The system calls of \<^verbatim>\<open>kernel/syscalls\<close> against their specification: \<^verbatim>\<open>open\<close>, \<^verbatim>\<open>read\<close>, \<^verbatim>\<open>write\<close> and
  \<^verbatim>\<open>close\<close> as operations on the abstract table of file descriptors, the host and the bytes the program sees,
  from the checks of user memory through the kernel heap and the hypercalls to the host and back.
\<close>

section \<open>System calls\<close>

text \<open>What a system call leaves behind: everything its caller can see is as before, but for the host.\<close>

definition returned :: "'w machine \<Rightarrow> region set \<Rightarrow> tables \<Rightarrow> 'w machine \<Rightarrow> bool" where
  "returned vm A tab vm' \<longleftrightarrow> (\<exists>F'. heap_inv vm' A F') \<and> pt_inv vm' A tab \<and> user_space vm' = user_space vm \<and>
     quiet vm A vm' \<and> ready vm' \<and> mem_size vm' = mem_size vm"

text \<open>The first steps of \<^verbatim>\<open>sys_write\<close> and \<^verbatim>\<open>sys_open\<close>: a copy of the program's bytes in a new block.\<close>

lemma fetch_user:
  fixes vm :: "'w machine"
  assumes inv: "heap_inv vm A F" and pt: "pt_inv vm A tab" and fits: "fits vm" and n: "unat n < 2 ^ 31" "n \<noteq> 0"
    and room: "rounded (unat n) \<le> unat (arena_top_size vm)"
    and user: "\<And>k. k < unat n \<Longrightarrow> USER_MEM_RANGE_OK (buf + of_nat k)" "user_backed vm A buf (unat n)"
  obtains c s1 s2 F2 where "kmalloc vm n MALLOC_NO_ALIGN = Inr (chunk2mem (fst c), s1)"
    "s1\<lparr>kmem := memcpy (cpu_addr s1) (kmem s1) (chunk2mem (fst c)) buf n\<rparr> = s2"
    "heap_inv s2 (insert c A) F2" "c \<notin> A" "quiet vm A s2" "kheap.more s2 = kheap.more vm" "kptr (chunk2mem (fst c))"
    "held s2 (insert c A) (chunk2mem (fst c), unat n)" "unat (dm (chunk2mem (fst c))) + unat n \<le> unat (mem_size vm)"
    "load_bytes (kmem s2) (dm (chunk2mem (fst c))) (unat n) = user_bytes vm buf (unat n)" "fits s2"
    "unat (arena_top_size vm) \<le> unat (arena_top_size s2) + rounded (unat n)"
proof -
  obtain c s1 F1 where s1: "kmalloc vm n MALLOC_NO_ALIGN = Inr (chunk2mem (fst c), s1)" "heap_inv s1 (insert c A) F1" "c \<notin> A"
    "quiet vm A s1" "kheap.more s1 = kheap.more vm" "kreg (chunk2mem (fst c), unat n)"
    "subr (chunk2mem (fst c), unat n) (block c)" "subr (block c) (arena vm)" "arena s1 = arena vm"
    "unat (arena_top_size vm) \<le> unat (arena_top_size s1) + rounded (unat n)" "arena_end s1 = arena_end vm"
    by (rule temp_block [OF inv n room])
  let ?p = "chunk2mem (fst c)" and ?bs = "user_bytes vm buf (unat n)"
  let ?s2 = "s1\<lparr>kmem := store_bytes (kmem s1) (dm ?p) ?bs\<rparr>"
  have k: "kptr ?p" using kptr_if_kreg [OF s1(6)] by simp
  note pt1 = quiet_pt [OF pt s1(4)]
  have "user_backed s1 A buf (unat n)"
    using user(2) pt1(2) held_arena [OF s1(9)] by (simp add: user_backed_def backed_def)
  then have cp: "memcpy (cpu_addr s1) (kmem s1) ?p buf n = store_bytes (kmem s1) (dm ?p) ?bs"
    using copy_from_user [OF s1(2,3) pt1(1) s1(6,7) user(1)] user_bytes_quiet [OF pt s1(4) user(2)] by (simp add: memcpy_def)
  have len: "length ?bs = unat n" by (simp add: user_bytes_def)
  have ch: "changed_within (kmem s1) (store_bytes (kmem s1) (dm ?p) ?bs) {block c}"
    by (rule changed_within_subr [OF store_block_within [OF s1(6) len]]) (use s1(7) in simp)
  note w = quiet_write [OF s1(2,3) ch]
  have "fits ?s2" using fits s1(11) machine_more [OF s1(5)] by (simp add: fits_def arena_end_def)
  moreover have "held ?s2 (insert c A) (?p, unat n)" using s1(6,7) by (auto simp: held_def)
  moreover have "unat (dm ?p) + unat n \<le> unat (mem_size vm)" by (rule block_in_memory [OF inv s1(7,8) k fits])
  moreover have "load_bytes (kmem ?s2) (dm ?p) (unat n) = ?bs"
    using load_store_bytes_same [of ?bs "kmem s1" "dm ?p"] len n(1) by simp
  ultimately show thesis
    using quiet_trans [OF s1(4) w(2)] w(1) s1(1,3,5,10) k by (intro that [of c s1 ?s2 F1]) (simp_all add: cp)
qed

text \<open>The last step of the calls: the release of the copy.\<close>

lemma drop_block:
  fixes vm :: "'w machine"
  assumes inv: "heap_inv v (insert c A) F" and c: "c \<notin> A" and pt: "pt_inv vm A tab" and q: "quiet vm A v"
    and v: "ready v" "mem_size v = mem_size vm"
  obtains vm' where "kfree v (chunk2mem (fst c)) = Inr vm'" "returned vm A tab vm'" "world vm' = world v" "fds vm' = fds v"
proof -
  obtain vm' F' where f: "kfree v (chunk2mem (fst c)) = Inr vm'" "heap_inv vm' A F'" "quiet v A vm'" "kheap.more vm' = kheap.more v"
    by (rule quiet_kfree [OF inv c])
  have q': "quiet vm A vm'" by (rule quiet_trans [OF q f(3)])
  show thesis
    using f(1,2) q' quiet_pt [OF pt q'] machine_more [OF f(4)] v by (intro that [of vm']) (auto simp: returned_def)
qed

lemma sys_write_step:
  fixes vm :: "'w machine"
  assumes inv: "heap_inv vm A F" and pt: "pt_inv vm A tab" and fits: "fits vm" and rd: "ready vm" and os: "host_ok os"
    and fd: "0 \<le> fd" "fd < 2 ^ 31" and n: "n \<noteq> 0" "unat n < 2 ^ 31" "unat buf + unat n < 2 ^ 64"
    and room: "rounded (unat n) + rounded 24 \<le> unat (arena_top_size vm)"
    and user: "\<And>k. k < unat n \<Longrightarrow> user_space vm (buf + of_nat k) True False \<noteq> -1" "user_backed vm A buf (unat n)"
  shows "\<exists>r vm'. sys_write os fd buf n vm = Inr (r, vm') \<and>
    (r, world vm') = spec_write os fd (user_bytes vm buf (unat n)) (fds vm) (world vm) \<and> fds vm' = fds vm \<and> returned vm A tab vm'"
proof -
  have ok: "access_ok vm VERIFY_READ buf n" using access_ok_iff [OF pt n(3,1)] user(1) by (simp add: VERIFY_READ_def)
  have r1: "rounded (unat n) \<le> unat (arena_top_size vm)" using room by simp
  have rng: "USER_MEM_RANGE_OK (buf + of_nat i)" if "i < unat n" for i by (rule user_space_mode(2) [OF pt user(1) [OF that]])
  obtain c s1 s2 F2 where s: "kmalloc vm n MALLOC_NO_ALIGN = Inr (chunk2mem (fst c), s1)"
    "s1\<lparr>kmem := memcpy (cpu_addr s1) (kmem s1) (chunk2mem (fst c)) buf n\<rparr> = s2"
    "heap_inv s2 (insert c A) F2" "c \<notin> A" "quiet vm A s2" "kheap.more s2 = kheap.more vm" "kptr (chunk2mem (fst c))"
    "held s2 (insert c A) (chunk2mem (fst c), unat n)" "unat (dm (chunk2mem (fst c))) + unat n \<le> unat (mem_size vm)"
    "load_bytes (kmem s2) (dm (chunk2mem (fst c))) (unat n) = user_bytes vm buf (unat n)" "fits s2"
    "unat (arena_top_size vm) \<le> unat (arena_top_size s2) + rounded (unat n)"
    by (rule fetch_user [OF inv pt fits n(2,1) r1 rng user(2)])
  note more = machine_more [OF s(6)]
  have room2: "rounded 24 \<le> unat (arena_top_size s2)" using s(12) room by simp
  have rd2: "ready s2" and inm: "unat (dm (chunk2mem (fst c))) + unat n \<le> unat (mem_size s2)" and fd': "- (2 ^ 31) \<le> fd"
    using rd more s(9) fd by simp_all
  obtain r vm3 F3 where h: "hp_write os fd (dm (chunk2mem (fst c))) n s2 = Inr (r, vm3)"
    "(r, world vm3) = spec_write os fd (user_bytes vm buf (unat n)) (fds s2) (world s2)" "fds vm3 = fds s2"
    "heap_inv vm3 (insert c A) F3" "quiet s2 (insert c A) vm3" "ready vm3" "mem_size vm3 = mem_size s2"
    using hp_write_step [OF s(3,11) room2 os rd2 fd' fd(2) s(8) inm n(2)] unfolding s(10) by blast
  have q: "quiet vm A vm3" by (rule quiet_trans [OF s(5) quiet_mono [OF h(5)]]) blast
  have m3: "mem_size vm3 = mem_size vm" using h(7) more by simp
  obtain vm' where f: "kfree vm3 (chunk2mem (fst c)) = Inr vm'" "returned vm A tab vm'" "world vm' = world vm3" "fds vm' = fds vm3"
    by (rule drop_block [OF h(4) s(4) pt q h(6) m3])
  have "sys_write os fd buf n vm = Inr (r, vm')"
    using fd ok by (simp add: sys_write_def s(1,2) physical_kptr [OF s(7)] h(1) f(1))
  then show ?thesis using h(2,3) f more by (intro exI [of _ r] exI [of _ vm']) simp
qed

lemma read_request:
  fixes vm :: "'w machine"
  assumes rd: "ready vm" and os: "host_ok os" and mem: "unat (mem_size vm) \<le> 2 ^ 32" and buf: "kbuf_at vm off fd pa n"
    and fd: "- (2 ^ 31) \<le> fd" "fd < 2 ^ 31" and n: "n \<noteq> 0" "unat n < 2 ^ 31" "unat pa + unat n \<le> unat (mem_size vm)"
  shows "\<exists>r bs vm3. hypercall os NR_HP_read (ucast off) vm = Inr (r, vm3\<lparr>kmem := store_bytes (kmem vm) pa bs\<rparr>) \<and>
    (r, bs, world vm3) = spec_read os fd n (fds vm) (world vm) \<and> host_side vm vm3 \<and> fds vm3 = fds vm \<and> ready vm3"
proof -
  note req = rw_work_request [OF rd mem buf fd, of "read_call os"]
  have pa: "pa \<noteq> mem_size vm" using n(1,3) by (auto simp: unat_gt_0 [symmetric] simp del: unat_gt_0)
  obtain r bs vm3 where w: "rw_work (read_call os) (ucast off) vm = Inr (r, vm3\<lparr>kmem := store_bytes (kmem vm) pa bs\<rparr>)"
      "(sint r, bs, world vm3) = spec_read os fd n (fds vm) (world vm)" "r \<noteq> UNUSED_VAR" "host_side vm vm3" "fds vm3 = fds vm" "ready vm3"
  proof (cases "spec_fd (fds vm) fd")
    case None
    let ?v = "MAY_INIT_FD_MAP vm"
    have "?v = ?v\<lparr>kmem := store_bytes (kmem vm) pa []\<rparr>" by (simp add: MAY_INIT_FD_MAP_def)
    then show thesis
      using None req n(3) rd host_side_init [of vm] result_32 [of "- EBADF"]
      by (intro that [of "word_of_int (- EBADF)" "[]" ?v]) (simp_all add: spec_read_def EBADF_def)
  next
    case (Some h)
    obtain x e bs w' where o: "os_read os h n (world vm) = ((x, e, bs), w')" by (metis prod.exhaust)
    have "x \<le> uint n" "errno_ok x e" using host_okD(3) [OF os o] by simp_all
    moreover have "int (unat n) < 2 ^ 31" using n(2) by (metis of_nat_less_iff of_nat_numeral of_nat_power)
    ultimately have e: "errno_ok x e" "x < 2 ^ 31" by simp_all
    have x: "sint (word_of_int x :: u32) = x" using e by (intro sint_small) (simp_all add: errno_ok_def)
    let ?r = "if x < 0 then - e else x" and ?v = "(MAY_INIT_FD_MAP vm)\<lparr>world := w'\<rparr>"
    have "rw_work (read_call os) (ucast off) vm = Inr (word_of_int ?r, ?v\<lparr>kmem := store_bytes (kmem vm) pa bs\<rparr>)"
      using req n(3) pa Some o x by (auto simp: read_call_def)
    moreover have "sint (word_of_int ?r :: u32) = ?r" "(word_of_int ?r :: u32) \<noteq> UNUSED_VAR"
      using result_32 [of ?r] e by (auto simp: errno_ok_def)
    moreover have "host_side vm ?v" by (rule host_side_trans [OF host_side_init]) simp
    moreover have "fds ?v = fds vm" "ready ?v" using rd by (auto simp: fds_def MAY_INIT_FD_MAP_def ready_def MAX_FD_def)
    ultimately show thesis using Some o by (intro that [of "word_of_int ?r" bs ?v]) (simp_all add: spec_read_def)
  qed
  have "hypercall os NR_HP_read (ucast off) vm = Inr (sint r, vm3\<lparr>kmem := store_bytes (kmem vm) pa bs\<rparr>)"
    using hc_read.hypercall_work [of vm os "ucast off"] rd w(1,3) by (simp add: ready_def)
  then show ?thesis using w(2,4-6) by (intro exI [of _ "sint r"] exI [of _ bs] exI [of _ vm3]) simp
qed

lemma ready_kmem [simp]: "ready (vm\<lparr>kmem := m\<rparr>) \<longleftrightarrow> ready vm" "fds (vm\<lparr>kmem := m\<rparr>) = fds vm"
  by (simp_all add: ready_def fds_def MAY_INIT_FD_MAP_def fun_eq_iff)

lemma hp_read_step:
  fixes vm :: "'w machine"
  assumes inv: "heap_inv vm (insert d A) F" and d: "d \<notin> A" and fits: "fits vm" and room: "rounded 24 \<le> unat (arena_top_size vm)"
    and os: "host_ok os" and rd: "ready vm" and fd: "- (2 ^ 31) \<le> fd" "fd < 2 ^ 31"
    and dst: "kreg (p, unat n)" "subr (p, unat n) (block d)" "unat (dm p) + unat n \<le> unat (mem_size vm)" "unat n < 2 ^ 31"
  shows "\<exists>r bs vm' F'. hp_read os fd (dm p) n vm = Inr (r, vm') \<and>
    (r, bs, world vm') = spec_read os fd n (fds vm) (world vm) \<and> load_bytes (kmem vm') (dm p) (length bs) = bs \<and>
    fds vm' = fds vm \<and> heap_inv vm' (insert d A) F' \<and> quiet vm A vm' \<and> ready vm' \<and> mem_size vm' = mem_size vm"
proof -
  obtain c vm2 F1 where b: "hp_read os fd (dm p) n vm = bindE (hypercall os NR_HP_read (ucast (dm (chunk2mem (fst c)))) vm2)
       (\<lambda>(ret, v). bindE (kfree v (chunk2mem (fst c))) (\<lambda>v. Inr (ret, v)))"
    "heap_inv vm2 (insert c (insert d A)) F1" "c \<notin> insert d A" "quiet vm (insert d A) vm2" "kheap.more vm2 = kheap.more vm"
    "kbuf_at vm2 (dm (chunk2mem (fst c))) fd (dm p) n" "fits vm2"
    unfolding hp_read_def by (rule hp_rw_bracket [OF inv fits room])
  note more = machine_more [OF b(5)]
  have n: "n \<noteq> 0" using dst(1) by (auto simp: kreg_def)
  have mem: "unat (mem_size vm2) \<le> 2 ^ 32" using b(7) by (simp add: fits_def)
  obtain r bs vm3 where h: "hypercall os NR_HP_read (ucast (dm (chunk2mem (fst c)))) vm2 = Inr (r, vm3\<lparr>kmem := store_bytes (kmem vm2) (dm p) bs\<rparr>)"
    "(r, bs, world vm3) = spec_read os fd n (fds vm2) (world vm2)" "host_side vm2 vm3" "fds vm3 = fds vm2" "ready vm3"
    using read_request [OF _ os mem b(6) fd n dst(4)] rd dst(3) more by auto
  note hs = host_side_same [OF h(3)]
  have l: "length bs \<le> unat n" using spec_read_length [OF os, of fd n] h(2) by (metis prod.collapse prod.inject)
  let ?vm4 = "vm3\<lparr>kmem := store_bytes (kmem vm2) (dm p) bs\<rparr>"
  have ch: "changed_within (kmem vm3) (store_bytes (kmem vm2) (dm p) bs) {block d}"
    unfolding hs(7)
  proof (cases "bs = []")
    case False
    then have k: "kreg (p, length bs)" using dst(1) l by (auto simp: kreg_def)
    show "changed_within (kmem vm2) (store_bytes (kmem vm2) (dm p) bs) {block d}"
      by (rule changed_within_subr [OF store_block_within [OF k refl]]) (use dst(2) l in \<open>auto simp: subr_def\<close>)
  qed simp
  have i3: "heap_inv vm3 (insert d (insert c A)) F1" using b(2) hs(1) by (simp add: insert_swap)
  have dn: "d \<notin> insert c A" using d b(3) by auto
  note w = quiet_write [OF i3 dn ch]
  have i4: "heap_inv ?vm4 (insert c (insert d A)) F1" using w(1) by (simp only: insert_swap)
  obtain vm' F' where f: "kfree ?vm4 (chunk2mem (fst c)) = Inr vm'" "heap_inv vm' (insert d A) F'" "quiet ?vm4 (insert d A) vm'"
    "kheap.more vm' = kheap.more ?vm4"
    by (rule quiet_kfree [OF i4 b(3)])
  have q: "quiet vm A vm'"
    by (rule quiet_trans [OF quiet_trans [OF quiet_trans [OF quiet_mono [OF b(4)] hs(2)] quiet_mono [OF w(2)]] quiet_mono [OF f(3)]]) auto
  have "load_bytes (kmem vm') (dm p) (length bs) = bs"
  proof (cases "bs = []")
    case False
    then have "held ?vm4 (insert d A) (p, length bs)" using dst(1,2) l by (auto simp: held_def kreg_def subr_def)
    from quietD [OF f(3) this] show ?thesis
      using load_store_bytes_same [of bs "kmem vm2" "dm p"] l dst(4) by (simp add: same_on_def)
  qed simp
  then show ?thesis
    using b(1) h f(1,2) q more machine_more [OF f(4)] hs(3)
    by (intro exI [of _ r] exI [of _ bs] exI [of _ vm'] exI [of _ F']) auto
qed

text \<open>A byte of a block the program owns: of an allocated block, and of no table.\<close>

definition owned :: "region set \<Rightarrow> tables \<Rightarrow> u64 \<Rightarrow> bool" where
  "owned A tab x \<longleftrightarrow> (\<exists>q d. dm q = x \<and> kreg (q, 1) \<and> d \<in> A \<and> subr (q, 1) (block d) \<and> (\<forall>t\<in>ran tab. disjr (tbl t) (q, 1)))"

definition user_owned :: "'z kpaging_scheme \<Rightarrow> region set \<Rightarrow> tables \<Rightarrow> u64 \<Rightarrow> nat \<Rightarrow> bool" where
  "user_owned s A tab buf n \<longleftrightarrow> (\<forall>k < n. owned A tab (user_space s (buf + of_nat k) False False)) \<and>
     inj_on (\<lambda>k. user_space s (buf + of_nat k) False False) {..<n}"

lemma owned_backed: "owned A tab x \<Longrightarrow> backed s A x"
  by (auto simp: owned_def backed_def held_def)

lemma store_byte: "m(x := v) = store_bytes m x [v]"
  by (simp add: store_bytes_apply fun_eq_iff)

lemma owned_poke:
  assumes inv: "heap_inv s A' F" and sub: "A \<subseteq> A'" and pt: "pt_inv s A tab" and x: "owned A tab x"
  shows "heap_inv (s\<lparr>kmem := (kmem s)(x := v)\<rparr>) A' F" "pt_inv (s\<lparr>kmem := (kmem s)(x := v)\<rparr>) A tab"
    "user_space (s\<lparr>kmem := (kmem s)(x := v)\<rparr>) = user_space s"
proof -
  let ?s = "s\<lparr>kmem := (kmem s)(x := v)\<rparr>"
  obtain q d where q: "dm q = x" "kreg (q, 1)" "d \<in> A" "subr (q, 1) (block d)" "\<forall>t\<in>ran tab. disjr (tbl t) (q, 1)"
    using x by (auto simp: owned_def)
  have ch: "changed_within (kmem s) ((kmem s)(x := v)) {(q, 1)}"
    unfolding store_byte q(1) [symmetric] by (rule store_block_within [OF q(2)]) simp
  have "changed_within (kmem s) ((kmem s)(x := v)) {block d}"
    by (rule changed_within_subr [OF ch]) (use q(4) in simp)
  then show "heap_inv ?s A' F" using q(3) sub by (intro heap_inv_write(1) [OF inv, of d]) auto
  have ok: "pt_ok (kmem s) tab" and held: "\<And>p w. tab p = Some w \<Longrightarrow> held s A (tbl w)" using pt by (auto simp: pt_inv_def)
  have same: "same_on (kmem s) ((kmem s)(x := v)) (tbl w)" if "tab p = Some w" for p w
    using held [OF that] q(5) that by (intro changed_withinD [OF ch]) (auto simp: held_def ran_def disjr_sym)
  note ok1 = pt_ok_same_on [OF ok same]
  have h: "held ?s A r \<longleftrightarrow> held s A r" for r by (simp add: held_def arena_def arena_end_def)
  show pt1: "pt_inv ?s A tab" using ok1(1) pt by (simp add: pt_inv_def h)
  show "user_space ?s = user_space s"
    using translate_leaf [OF pt1] translate_leaf [OF pt] ok1(2) by (intro ext) (simp add: user_space_def)
qed

lemma owned_copy:
  assumes "heap_inv s A' F" "A \<subseteq> A'" "pt_inv s A tab" "\<And>i. i < n \<Longrightarrow> owned A tab (tr (dst + of_nat i))"
  shows "heap_inv (s\<lparr>kmem := memcpy_loop tr (kmem s) dst src n\<rparr>) A' F \<and> pt_inv (s\<lparr>kmem := memcpy_loop tr (kmem s) dst src n\<rparr>) A tab \<and>
    user_space (s\<lparr>kmem := memcpy_loop tr (kmem s) dst src n\<rparr>) = user_space s"
  using assms
proof (induction n arbitrary: s dst src)
  case 0
  then show ?case by simp
next
  case (Suc n)
  let ?s = "s\<lparr>kmem := (kmem s)(tr dst := kmem s (tr src))\<rparr>"
  have o: "owned A tab (tr dst)" using Suc.prems(4) [of 0] by simp
  note p = owned_poke [OF Suc.prems(1-3) o, of "kmem s (tr src)"]
  have "owned A tab (tr (dst + 1 + of_nat i))" if "i < n" for i
    using Suc.prems(4) [of "Suc i"] that by (simp add: algebra_simps)
  then show ?case using Suc.IH [OF p(1) Suc.prems(2) p(2), of "dst + 1" "src + 1"] p(3)
    by (simp del: fun_upd_apply)
qed

lemma copy_to_user:
  assumes inv: "heap_inv s (insert c A) F" and c: "c \<notin> A" and pt: "pt_inv s A tab"
    and p: "kreg (p, n)" "subr (p, n) (block c)"
    and user: "\<And>k. k < n \<Longrightarrow> USER_MEM_RANGE_OK (buf + of_nat k)" "user_owned s A tab buf n"
  defines "s' \<equiv> s\<lparr>kmem := memcpy_loop (cpu_addr s) (kmem s) buf p n\<rparr>"
  shows "heap_inv s' (insert c A) F" "pt_inv s' A tab" "user_space s' = user_space s"
    "user_bytes s' buf n = load_bytes (kmem s) (dm p) n"
    "\<And>x. (\<And>k. k < n \<Longrightarrow> x \<noteq> user_space s (buf + of_nat k) False False) \<Longrightarrow> kmem s' x = kmem s x"
proof -
  have tr: "cpu_addr s (buf + of_nat k) = user_space s (buf + of_nat k) False False" if "k < n" for k
    by (rule user_cpu_addr [OF user(1) [OF that]])
  have own: "owned A tab (cpu_addr s (buf + of_nat k))" if "k < n" for k
    using user(2) tr that by (simp add: user_owned_def)
  note oc = owned_copy [OF inv subset_insertI pt, where tr = "cpu_addr s" and dst = buf and src = p and n = n, folded s'_def]
  show "heap_inv s' (insert c A) F" "pt_inv s' A tab" and us: "user_space s' = user_space s" using oc own by auto
  have "inj_on (\<lambda>k. cpu_addr s (buf + of_nat k)) {..<n}"
    using user(2) tr by (auto simp: user_owned_def inj_on_def)
  moreover have "cpu_addr s (buf + of_nat i) \<noteq> cpu_addr s (p + of_nat j)" if "i < n" "j < n" for i j
    using backed_outside [OF inv c owned_backed [OF own [OF that(1)]] p that(2)] cpu_kernel [OF p(1) that(2)] by metis
  ultimately have "vbytes (cpu_addr s) (kmem s') buf n = vbytes (cpu_addr s) (kmem s) p n"
    unfolding s'_def by (simp add: memcpy_loop_copies)
  moreover have "vbytes (cpu_addr s) (kmem s') buf n = user_bytes s' buf n"
    using tr us by (simp add: vbytes_def user_bytes_def)
  moreover have "vbytes (cpu_addr s) (kmem s) p n = load_bytes (kmem s) (dm p) n"
    by (rule nth_equalityI) (simp_all add: vbytes_def nth_load_bytes cpu_kernel [OF p(1)])
  ultimately show "user_bytes s' buf n = load_bytes (kmem s) (dm p) n" by simp
  show "kmem s' x = kmem s x" if "\<And>k. k < n \<Longrightarrow> x \<noteq> user_space s (buf + of_nat k) False False" for x
    using that tr by (simp add: s'_def memcpy_loop_other)
qed

lemma user_owned_take: "user_owned s A tab buf n \<Longrightarrow> m \<le> n \<Longrightarrow> user_owned s A tab buf m"
  unfolding user_owned_def by (auto intro: inj_on_subset)

lemma user_owned_backed: "user_owned s A tab buf n \<Longrightarrow> user_backed s A buf n"
  by (auto simp: user_owned_def user_backed_def intro: owned_backed)

text \<open>The last steps of \<^verbatim>\<open>sys_read\<close>: the copy to the program and the release of the buffer.\<close>

lemma deliver:
  fixes vm :: "'w machine"
  assumes inv: "heap_inv vm (insert c A) F" and c: "c \<notin> A" and pt: "pt_inv vm A tab"
    and p: "kreg (chunk2mem (fst c), n)" "subr (chunk2mem (fst c), n) (block c)" and m: "m \<le> n"
    and user: "\<And>k. k < n \<Longrightarrow> USER_MEM_RANGE_OK (buf + of_nat k)" "user_owned vm A tab buf n"
  obtains vm' F' where
    "kfree (vm\<lparr>kmem := memcpy_loop (cpu_addr vm) (kmem vm) buf (chunk2mem (fst c)) m\<rparr>) (chunk2mem (fst c)) = Inr vm'"
    "heap_inv vm' A F'" "pt_inv vm' A tab" "user_space vm' = user_space vm" "kheap.more vm' = kheap.more vm"
    "user_bytes vm' buf m = load_bytes (kmem vm) (dm (chunk2mem (fst c))) m"
    "\<forall>x. backed vm A x \<and> (\<forall>k < m. x \<noteq> user_space vm (buf + of_nat k) False False) \<longrightarrow> kmem vm' x = kmem vm x"
proof -
  let ?p = "chunk2mem (fst c)"
  let ?s = "vm\<lparr>kmem := memcpy_loop (cpu_addr vm) (kmem vm) buf ?p m\<rparr>"
  have um: "user_owned vm A tab buf m" by (rule user_owned_take [OF user(2) m])
  have s: "heap_inv ?s (insert c A) F \<and> pt_inv ?s A tab \<and> user_space ?s = user_space vm \<and>
      user_bytes ?s buf m = load_bytes (kmem vm) (dm ?p) m \<and>
      (\<forall>x. (\<forall>k < m. x \<noteq> user_space vm (buf + of_nat k) False False) \<longrightarrow> kmem ?s x = kmem vm x)"
  proof (cases "m = 0")
    case False
    have "kreg (?p, m)" "subr (?p, m) (block c)" using p m False by (auto simp: kreg_def subr_def)
    note ct = copy_to_user [OF inv c pt this _ um]
    show ?thesis using ct user(1) m by auto
  qed (use inv pt in \<open>simp add: user_bytes_def\<close>)
  obtain vm' F' where f: "kfree ?s ?p = Inr vm'" "heap_inv vm' A F'" "quiet ?s A vm'" "kheap.more vm' = kheap.more ?s"
    by (rule quiet_kfree [OF conjunct1 [OF s] c])
  note pt' = quiet_pt [OF _ f(3), of tab]
  have b: "backed ?s A x \<longleftrightarrow> backed vm A x" for x by (simp add: backed_def held_def arena_def arena_end_def)
  have "user_backed ?s A buf m"
    using user_owned_backed [OF um] s by (simp add: user_backed_def b)
  then have "user_bytes vm' buf m = user_bytes ?s buf m" using s by (intro user_bytes_quiet [OF _ f(3)]) auto
  moreover have "kmem vm' x = kmem vm x" if "backed vm A x" "\<forall>k < m. x \<noteq> user_space vm (buf + of_nat k) False False" for x
    using backed_same [OF f(3), of x] that s b by auto
  ultimately show thesis using that f(1,2,4) pt' s by simp
qed

lemma sys_read_step:
  fixes vm :: "'w machine"
  assumes inv: "heap_inv vm A F" and pt: "pt_inv vm A tab" and fits: "fits vm" and rd: "ready vm" and os: "host_ok os"
    and fd: "0 \<le> fd" "fd < 2 ^ 31" and n: "n \<noteq> 0" "unat n < 2 ^ 31" "unat buf + unat n < 2 ^ 64"
    and room: "rounded (unat n) + rounded 24 \<le> unat (arena_top_size vm)"
    and user: "\<And>k. k < unat n \<Longrightarrow> user_space vm (buf + of_nat k) True True \<noteq> -1" "user_owned vm A tab buf (unat n)"
  shows "\<exists>r bs vm' F'. sys_read os fd buf n vm = Inr (r, vm') \<and>
    (r, bs, world vm') = spec_read os fd n (fds vm) (world vm) \<and> user_bytes vm' buf (length bs) = bs \<and>
    (\<forall>x. backed vm A x \<and> (\<forall>k < length bs. x \<noteq> user_space vm (buf + of_nat k) False False) \<longrightarrow> kmem vm' x = kmem vm x) \<and>
    heap_inv vm' A F' \<and> pt_inv vm' A tab \<and> user_space vm' = user_space vm \<and> ready vm' \<and> fds vm' = fds vm"
proof -
  have ok: "access_ok vm VERIFY_WRITE buf n" using access_ok_iff [OF pt n(3,1)] user(1) by (simp add: VERIFY_WRITE_def)
  have r1: "rounded (unat n) \<le> unat (arena_top_size vm)" using room by simp
  obtain c s1 F1 where s1: "kmalloc vm n MALLOC_NO_ALIGN = Inr (chunk2mem (fst c), s1)" "heap_inv s1 (insert c A) F1" "c \<notin> A"
    "quiet vm A s1" "kheap.more s1 = kheap.more vm" "kreg (chunk2mem (fst c), unat n)"
    "subr (chunk2mem (fst c), unat n) (block c)" "subr (block c) (arena vm)" "arena s1 = arena vm"
    "unat (arena_top_size vm) \<le> unat (arena_top_size s1) + rounded (unat n)" "arena_end s1 = arena_end vm"
    by (rule temp_block [OF inv n(2,1) r1])
  let ?p = "chunk2mem (fst c)"
  note more = machine_more [OF s1(5)]
  have k: "kptr ?p" using kptr_if_kreg [OF s1(6)] by simp
  have f1: "fits s1" "ready s1" using fits rd s1(11) more by (simp_all add: fits_def)
  have room1: "rounded 24 \<le> unat (arena_top_size s1)" using s1(10) room by simp
  have inm: "unat (dm ?p) + unat n \<le> unat (mem_size s1)" using block_in_memory [OF inv s1(7,8) k fits] more by simp
  have fd': "- (2 ^ 31) \<le> fd" using fd by simp
  obtain r bs vm3 F3 where h: "hp_read os fd (dm ?p) n s1 = Inr (r, vm3)"
    "(r, bs, world vm3) = spec_read os fd n (fds vm) (world vm)" "load_bytes (kmem vm3) (dm ?p) (length bs) = bs"
    "fds vm3 = fds vm" "heap_inv vm3 (insert c A) F3" "quiet s1 A vm3" "ready vm3"
    using hp_read_step [OF s1(2,3) f1(1) room1 os f1(2) fd' fd(2) s1(6,7) inm n(2)] more by auto
  have l: "length bs = nat r" "length bs \<le> unat n" using spec_read_length [OF os, of fd n] h(2) by (metis prod.collapse prod.inject)+
  have q3: "quiet vm A vm3" by (rule quiet_trans [OF s1(4) h(6)])
  note pt3 = quiet_pt [OF pt q3]
  have rng: "USER_MEM_RANGE_OK (buf + of_nat i)" if "i < unat n" for i by (rule user_space_mode(2) [OF pt user(1) [OF that]])
  have own: "user_owned vm3 A tab buf (unat n)" using user(2) pt3(2) by (simp add: user_owned_def)
  obtain vm' F' where d: "kfree (vm3\<lparr>kmem := memcpy_loop (cpu_addr vm3) (kmem vm3) buf ?p (length bs)\<rparr>) ?p = Inr vm'"
    "heap_inv vm' A F'" "pt_inv vm' A tab" "user_space vm' = user_space vm3" "kheap.more vm' = kheap.more vm3"
    "user_bytes vm' buf (length bs) = load_bytes (kmem vm3) (dm ?p) (length bs)"
    "\<forall>x. backed vm3 A x \<and> (\<forall>k < length bs. x \<noteq> user_space vm3 (buf + of_nat k) False False) \<longrightarrow> kmem vm' x = kmem vm3 x"
    by (rule deliver [OF h(5) s1(3) pt3(1) s1(6,7) l(2) rng own])
  have "(if 0 \<le> r then vm3\<lparr>kmem := memcpy (cpu_addr vm3) (kmem vm3) buf ?p (word_of_int r)\<rparr> else vm3)
      = vm3\<lparr>kmem := memcpy_loop (cpu_addr vm3) (kmem vm3) buf ?p (length bs)\<rparr>"
  proof (cases "0 \<le> r")
    case True
    have "nat r < 2 ^ 64" using l n(2) by simp
    moreover have "(word_of_int r :: u64) = of_nat (nat r)" using True by simp
    ultimately have "unat (word_of_int r :: u64) = nat r" by (simp only: unat_of_nat_64)
    then show ?thesis using True l(1) by (simp add: memcpy_def)
  qed (simp add: l(1))
  then have "sys_read os fd buf n vm = Inr (r, vm')"
    using fd ok d(1) by (simp add: sys_read_def s1(1) physical_kptr [OF k] h(1) Let_def)
  moreover have "kmem vm' x = kmem vm x"
    if "backed vm A x" "\<forall>k < length bs. x \<noteq> user_space vm (buf + of_nat k) False False" for x
    using spec [OF d(7), of x] that pt3(2) backed_same [OF q3 that(1)] q3 by (auto simp: backed_def quiet_def held_def)
  ultimately show ?thesis
    using h(2,3,4,7) d(2-4,6) pt3 machine_more [OF d(5)]
    by (intro exI [of _ r] exI [of _ bs] exI [of _ vm'] exI [of _ F']) simp
qed

section \<open>A process to apply the properties at\<close>

text \<open>The machine after boot with one page mapped readable and writable at \<open>0x400000\<close>.\<close>

lemma boot_machine_fields:
  assumes "kvm_init demo_kvm [] demo_regs = Inr vm"
  shows "ready vm" "mem_size vm = MEM_SIZE" "fds vm = std_fds"
proof -
  obtain w' where vm: "vm = (fresh_machine [] w')\<lparr>kmem := boot_tables (store_bytes (\<lambda>_. 0) 0 []), cr3 := MAX_KERNEL_SIZE\<rparr>"
    using kvm_init_machine [OF assms] by blast
  then show "ready vm" "mem_size vm = MEM_SIZE" by (simp_all add: fresh_machine_def ready_def)
  have "fds (v\<lparr>kmem := m, cr3 := c\<rparr>) = fds v" for v :: "kvm_regs machine" and m c
    by (simp add: fds_def MAY_INIT_FD_MAP_def fun_eq_iff)
  then show "fds vm = std_fds" unfolding vm by (simp only: fresh_fds)
qed

lemma demo_start:
  obtains s :: "kvm_regs machine" where "heap_inv s {} []" "pt_inv s {} boot_tab" "arena_top_size s = 0x200000"
    "arena_top s = 0x8000200000" "ready s" "fits s" "fds s = std_fds"
proof -
  obtain vm s :: "kvm_regs machine" where s: "kvm_init demo_kvm [] demo_regs = Inr vm" "kheap.more s = kheap.more vm"
    "heap_inv s {} []" "pt_inv s {} boot_tab" "arena_top_size s = 0x200000" "arena_top s = 0x8000200000" by (rule booted)
  then have "ready s" "fits s" "fds s = std_fds"
    using machine_more [OF s(2)] boot_machine_fields [OF s(1)] by (simp_all add: fits_def arena_end_def layout_defs)
  then show thesis using s that by blast
qed

lemma arena_end_eq:
  assumes "heap_inv s A F" "heap_inv s' A' F'" "arena s' = arena s" shows "arena_end s' = arena_end s"
  using assms(3) heap_inv_arena [OF assms(1)] heap_inv_arena [OF assms(2)]
  by (auto simp: arena_def arena_end_def arena_ok_def)

lemma owned_block:
  assumes c: "c \<in> A" "kreg (p, n)" "subr (p, n) (block c)" "\<forall>t\<in>ran tab. disjr (tbl t) (p, n)" and i: "i < n"
  shows "owned A tab (dm p + of_nat i)"
proof -
  have q: "unat (p + of_nat i) = unat p + i" "dm (p + of_nat i) = dm p + of_nat i"
    using c(2) i dm_add [of p i] kptr_if_kreg [OF c(2)] by (auto simp: kreg_def intro: unat_add_nat_64)
  have "kreg (p + of_nat i, 1)" "subr (p + of_nat i, 1) (block c)" using c(2,3) q(1) i by (auto simp: kreg_def subr_def)
  moreover have "disjr (tbl t) (p + of_nat i, 1)" if "t \<in> ran tab" for t
    using bspec [OF c(4) that] q(1) i by (auto simp: disjr_def)
  ultimately show ?thesis using c(1) q(2) unfolding owned_def by blast
qed

lemma demo_page:
  assumes "kreg (p, 0x1000)" "user_space s = map_range U 0x400000 1 p PROT_RW" "i < 0x1000"
  shows "user_space s (0x400000 + of_nat i) um wr = dm p + of_nat i"
    "user_space s (0x400000 + of_nat i) um wr \<noteq> -1"
proof -
  have "unat (0x400000 + of_nat i :: u64) = 0x400000 + i" using assms(3) by (simp add: unat_add_64)
  then have "USER_MEM_RANGE_OK (0x400000 + of_nat i)" using assms(3) by (simp add: user_range_iff)
  moreover have "dm (p + of_nat i) = dm p + of_nat i"
    using assms(1,3) by (intro dm_add) (simp_all add: kptr_if_kreg [OF assms(1), simplified] kreg_def)
  ultimately show "user_space s (0x400000 + of_nat i) um wr = dm p + of_nat i" "user_space s (0x400000 + of_nat i) um wr \<noteq> -1"
    using assms(3) dm_not_minus_one [of "p + of_nat i"] unfolding assms(2) by (simp_all add: map_range_def permits_def PROT_RW_def PROT_R_def PROT_W_def)
qed

lemma demo_process:
  obtains s :: "kvm_regs machine" and A F tab where "heap_inv s A F" "pt_inv s A tab" "ready s" "fits s" "fds s = std_fds"
    "0x100000 \<le> unat (arena_top_size s)" "user_owned s A tab 0x400000 0x1000"
    "\<forall>k < 0x1000. \<forall>um wr. user_space s (0x400000 + of_nat k) um wr \<noteq> -1"
proof -
  obtain s :: "kvm_regs machine" where s: "heap_inv s {} []" "pt_inv s {} boot_tab" "arena_top_size s = 0x200000"
    "arena_top s = 0x8000200000" "ready s" "fits s" "fds s = std_fds" by (rule demo_start)
  have room: "\<not> no_room s [] (rounded (unat (0x1000 :: u64))) MALLOC_PAGE_ALIGN"
    using s(3,4) by (simp add: no_room_def rounded_def page_gap_def MALLOC_PAGE_ALIGN_def MALLOC_NO_ALIGN_def)
  have len: "unat (0x1000 :: u64) < 2 ^ 31" "(0x1000 :: u64) AND 0xfff = 0" "(0x1000 :: u64) \<noteq> 0" by simp_all
  obtain c s1 F1 where k': "kmalloc s 0x1000 MALLOC_PAGE_ALIGN = Inr (chunk2mem (fst c), s1)" "served s s1 {} c F1"
    "page_aligned (chunk2mem (fst c))" "kreg (chunk2mem (fst c), unat (0x1000 :: u64))"
    "subr (chunk2mem (fst c), unat (0x1000 :: u64)) (block c)"
    "unat (arena_top_size s) < unat (arena_top_size s1) + rounded (unat (0x1000 :: u64)) + 0x1000"
    by (rule kmalloc_pages [OF s(1) len room])
  have "unat (0x1000 :: u64) = 0x1000" by simp
  note k = k' [unfolded this]
  let ?p = "chunk2mem (fst c)"
  have m1: "kheap.more s1 = kheap.more s" by (rule kmalloc_more [OF k(1)])
  note sv = pt_inv_served [OF s(1,2) k(2) cr3_more [OF m1]]
  have c: "heap_inv s1 {c} F1" "kept s s1 {}" using k(2) by (simp_all add: served_def)
  have big: "\<not> unat (arena_top_size s1) < 0x6180" using k(6) s(3) by (simp add: rounded_def)
  obtain s2 A2 F2 tab2 where t: "add_trans_user s1 0x400000 ?p PROT_RW = Inr s2" "heap_inv s2 A2 F2" "pt_inv s2 A2 tab2"
    "extends s1 {c} boot_tab s2 A2 tab2" "user_space s2 = map_range (user_space s1) 0x400000 1 ?p PROT_RW"
    "unat (arena_top_size s1) \<le> unat (arena_top_size s2) + 0x6180"
    using add_trans_user_page [OF c(1) sv(1) demo_user_page k(3,4), of PROT_RW] big by blast
  have m2: "kheap.more s2 = kheap.more s" using add_trans_user_more [OF t(1)] m1 by simp
  have ar: "arena s2 = arena s" using extendsD(4) [OF t(4)] arena_kept [OF c(2)] by simp
  note us = demo_page [OF k(4) t(5)]
  have h: "held s1 {c} (?p, 0x1000)" using k(4,5) by (auto simp: held_def)
  have "\<forall>t\<in>ran boot_tab. disjr (tbl t) (?p, 0x1000)" using sv(4) k(5) by (auto simp: disjr_def subr_def)
  then have d2: "\<forall>t\<in>ran tab2. disjr (tbl t) (?p, 0x1000)" using t(4) h unfolding extends_def by blast
  have cA: "c \<in> A2" using extendsD(1) [OF t(4)] by simp
  note own = owned_block [OF cA k(4,5) d2]
  have "inj_on (\<lambda>i. dm ?p + of_nat i :: u64) {..<0x1000}" by (rule inj_offset) simp
  then have "user_owned s2 A2 tab2 0x400000 0x1000"
    using own us(1) unfolding user_owned_def by (auto simp: inj_on_def)
  moreover have "\<forall>i < 0x1000. \<forall>um wr. user_space s2 (0x400000 + of_nat i) um wr \<noteq> -1"
    using us(2) by simp
  moreover have "ready s2" "fits s2" "fds s2 = std_fds" "0x100000 \<le> unat (arena_top_size s2)"
    using machine_more [OF m2] s(5-7) arena_end_eq [OF s(1) t(2) ar] t(6) k(6) s(3)
    by (auto simp: fits_def rounded_def)
  ultimately show thesis using t(2,3) that by blast
qed

section \<open>Strings of the program\<close>

text \<open>A string of \<open>n\<close> bytes and its zero byte, all of which user mode may read.\<close>

definition user_string :: "'z kpaging_scheme \<Rightarrow> u64 \<Rightarrow> nat \<Rightarrow> bool" where
  "user_string s p n \<longleftrightarrow> (\<forall>k \<le> n. user_space s (p + of_nat k) True False \<noteq> -1) \<and>
     (\<forall>k < n. kmem s (user_space s (p + of_nat k) False False) \<noteq> 0) \<and>
     kmem s (user_space s (p + of_nat n) False False) = 0"

lemma user_readable_range:
  assumes pt: "pt_inv s A tab" and str: "\<forall>k \<le> n. user_space s (p + of_nat k) True False \<noteq> -1"
  shows "unat p + n < 2 ^ 48"
  using str
proof (induction n)
  case 0
  then show ?case using user_space_mode(2) [OF pt, of p] by (simp add: user_range_iff)
next
  case (Suc n)
  then have "unat p + Suc n < 2 ^ 64" by simp
  then have "unat (p + of_nat (Suc n)) = unat p + Suc n" by (rule unat_add_nat_64)
  moreover have "USER_MEM_RANGE_OK (p + of_nat (Suc n))" using Suc.prems user_space_mode(2) [OF pt] by blast
  ultimately show ?case by (simp only: user_range_iff)
qed

lemma page_readable:
  assumes pt: "pt_inv s A tab" and p: "user_space s p True False \<noteq> -1" and k: "k < unat (page_rest p)"
  shows "user_space s (p + of_nat k) True False \<noteq> -1"
proof -
  have r: "USER_MEM_RANGE_OK p" by (rule user_space_mode(2) [OF pt p])
  then have "unat p < 2 ^ 48" by (simp add: user_range_iff)
  moreover have "k < 0x1000 - unat p mod 0x1000" using k by (simp add: page_rest_bounds)
  ultimately have "unat (p + of_nat k) = unat p + k" "(unat p + k) div 0x1000 = unat p div 0x1000"
    by (auto intro: unat_add_nat_64 simp: div_add1_eq [of "unat p" k])
  then have "drop_bit 12 (p + of_nat k) = drop_bit 12 p"
    using unat_drop_bit [of 12 p] unat_drop_bit [of 12 "p + of_nat k"] by (simp add: word_unat_eq_iff)
  then show ?thesis
    using translate_page [OF pt r] user_range_page p r unfolding user_space_def by metis
qed

lemma user_string_split:
  assumes rd: "\<And>k. k < m \<Longrightarrow> user_space s (p + of_nat k) True False \<noteq> -1"
    and nz: "\<And>k. k < m \<Longrightarrow> kmem s (user_space s (p + of_nat k) False False) \<noteq> 0"
  shows "user_string s p (m + n) \<longleftrightarrow> user_string s (p + of_nat m) n"
proof -
  have "(\<forall>k \<le> m + n. P k) \<longleftrightarrow> (\<forall>k \<le> n. P (m + k))" if "\<And>k. k < m \<Longrightarrow> P k" for P
    using that by (metis add_le_cancel_left le_add_diff_inverse not_le)
  moreover have "(\<forall>k < m + n. P k) \<longleftrightarrow> (\<forall>k < n. P (m + k))" if "\<And>k. k < m \<Longrightarrow> P k" for P
    using that by (metis add_less_cancel_left le_add_diff_inverse not_le)
  ultimately show ?thesis using rd nz by (simp add: user_string_def add.assoc)
qed

lemma access_string_ok_iff:
  assumes pt: "pt_inv s A tab"
  shows "access_string_ok s p \<longleftrightarrow> (\<exists>n. user_string s p n)"
  using pt
proof (induction s p rule: access_string_ok.induct)
  case (1 s p)
  let ?r = "page_rest p" and ?l = "strnlen (cpu_addr s) (kmem s) p (page_rest p)"
  show ?case
  proof (cases "access_ok s VERIFY_READ p 1")
    case True
    have "unat p < 2 ^ 48" by (rule access_ok_less [OF True])
    then have p: "user_space s p True False \<noteq> -1"
      using access_ok_iff [OF 1(2), of p 1 VERIFY_READ] True by (simp add: VERIFY_READ_def)
    note rd = page_readable [OF 1(2) p]
    have cpu: "cpu_addr s (p + of_nat k) = user_space s (p + of_nat k) False False" if "k < unat ?r" for k
      by (rule user_cpu_addr [OF user_space_mode(2) [OF 1(2) rd [OF that]]])
    have le: "unat ?l \<le> unat ?r" using strnlen_le word_le_nat_alt by blast
    have nz: "kmem s (user_space s (p + of_nat k) False False) \<noteq> 0" if "k < unat ?l" for k
      using strnlen_nonzero [OF that] cpu [of k] that le by simp
    show ?thesis
    proof (cases "?l = ?r")
      case l: True
      have sp: "user_string s p (unat ?r + n) \<longleftrightarrow> user_string s (p + ?r) n" for n
        using user_string_split [of "unat ?r" s p n] rd nz l by simp
      have "unat ?r \<le> n" if "user_string s p n" for n using that nz l unfolding user_string_def by (metis not_le)
      then have "(\<exists>n. user_string s (p + ?r) n) \<longleftrightarrow> (\<exists>n. user_string s p n)" using sp by (metis le_add_diff_inverse)
      then show ?thesis using 1(1) [OF _ l 1(2)] True l by (simp add: access_string_ok.simps [of s p])
    next
      case l: False
      then have "?l < ?r" using strnlen_le [of "cpu_addr s" "kmem s" p ?r] by simp
      then have lt: "unat ?l < unat ?r" by (simp add: word_less_nat_alt)
      have "kmem s (user_space s (p + of_nat (unat ?l)) False False) = 0"
        using strnlen_zero [OF \<open>?l < ?r\<close>] cpu [OF lt] by simp
      then have "user_string s p (unat ?l)" using rd nz lt by (simp add: user_string_def)
      then show ?thesis using True l by (auto simp: access_string_ok.simps [of s p])
    qed
  next
    case False
    have "\<not> user_string s p n" for n
    proof
      assume "user_string s p n"
      then have p: "user_space s p True False \<noteq> -1" by (auto simp: user_string_def dest: spec [of _ 0])
      then have "unat p < 2 ^ 48" using user_space_mode(2) [OF 1(2)] by (simp add: user_range_iff)
      then show False using access_ok_iff [OF 1(2), of p 1 VERIFY_READ] False p by (simp add: VERIFY_READ_def)
    qed
    then show ?thesis using False by (simp add: access_string_ok.simps [of s p])
  qed
qed

text \<open>The length \<^verbatim>\<open>copy_str_from_user\<close> computes for a string of the program.\<close>

lemma strlen_user:
  assumes pt: "pt_inv s A tab" and str: "user_string s p n"
  shows "strlen (cpu_addr s) (kmem s) p = of_nat n"
proof -
  let ?m = "push_bit 63 1 - 1 :: u64"
  let ?l = "strnlen (cpu_addr s) (kmem s) p ?m"
  have n: "n < 2 ^ 48" using user_readable_range [OF pt, of n p] str by (simp add: user_string_def)
  have m: "unat ?m = 2 ^ 63 - 1" by simp
  have cpu: "cpu_addr s (p + of_nat k) = user_space s (p + of_nat k) False False" if "k \<le> n" for k
    using that str user_space_mode(2) [OF pt] by (intro user_cpu_addr) (auto simp: user_string_def)
  have z: "kmem s (cpu_addr s (p + of_nat n)) = 0" and nz: "\<And>k. k < n \<Longrightarrow> kmem s (cpu_addr s (p + of_nat k)) \<noteq> 0"
    using str cpu by (simp_all add: user_string_def)
  have le: "unat ?l \<le> n" using strnlen_nonzero [of n "cpu_addr s" "kmem s" p ?m] z by (metis not_le)
  then have "?l < ?m" using n m by (simp only: word_less_nat_alt) simp
  then have "kmem s (cpu_addr s (p + of_nat (unat ?l))) = 0" using strnlen_zero [of "cpu_addr s" "kmem s" p ?m] by simp
  then have "unat ?l = n" using nz [of "unat ?l"] le by (meson le_neq_implies_less)
  then have "?l = of_nat n" by (metis of_nat_unat ucast_id)
  then show ?thesis by (simp only: strlen_def)
qed

lemma host_string_bytes:
  "load_bytes m a (Suc (length bs)) = bs @ [0] \<Longrightarrow> 0 \<notin> set bs \<Longrightarrow> length bs < k \<Longrightarrow> host_string m a k = Some bs"
proof (induction bs arbitrary: a k)
  case Nil
  then show ?case by (cases k) simp_all
next
  case (Cons b bs)
  then obtain j where "k = Suc j" by (cases k) simp_all
  then show ?case using Cons.prems Cons.IH [of "a + 1" j] by simp
qed

lemma scast_nat: "m < 2 ^ 31 \<Longrightarrow> scast (of_nat m :: u32) = (of_nat m :: u64)"
proof -
  assume "m < 2 ^ 31"
  then have "int m < 2 ^ 31" by (metis of_nat_less_iff of_nat_numeral of_nat_power)
  then have "sint (word_of_int (int m) :: u32) = int m" by (intro sint_small) simp_all
  then have "sint (of_nat m :: u32) = int m" by simp
  then show ?thesis by (metis of_int_of_nat_eq of_int_sint)
qed

lemma sys_open_step:
  fixes vm :: "'w machine"
  assumes inv: "heap_inv vm A F" and pt: "pt_inv vm A tab" and fits: "fits vm" and rd: "ready vm" and os: "host_ok os"
    and str: "user_string vm p n" and n: "n + 1 < 2 ^ 31" and room: "rounded (n + 1) \<le> unat (arena_top_size vm)"
    and user: "user_backed vm A p (n + 1)"
  shows "\<exists>r vm'. sys_open os p vm = Inr (r, vm') \<and>
    (r, fds vm', world vm') = spec_open os (user_bytes vm p n) (fds vm) (world vm) \<and> returned vm A tab vm'"
proof -
  have ok: "access_string_ok vm p" using access_string_ok_iff [OF pt] str by blast
  let ?n = "of_nat (n + 1) :: u64" and ?bs = "user_bytes vm p n"
  have un: "unat ?n = n + 1" using n by (intro unat_of_nat_64) simp
  have sc: "scast (ucast (strlen (cpu_addr vm) (kmem vm) p) + 1 :: u32) = ?n"
  proof -
    have "ucast (strlen (cpu_addr vm) (kmem vm) p) + 1 = (of_nat (n + 1) :: u32)"
      using n by (simp add: strlen_user [OF pt str] unsigned_of_nat take_bit_nat_eq_self)
    then show ?thesis using scast_nat [OF n] by (simp only:)
  qed
  have n': "unat ?n < 2 ^ 31" "?n \<noteq> 0" "rounded (unat ?n) \<le> unat (arena_top_size vm)"
    "user_backed vm A p (unat ?n)" using n room user un by (auto simp del: of_nat_add)
  have rng: "USER_MEM_RANGE_OK (p + of_nat i)" if "i < unat ?n" for i
    using str that un user_space_mode(2) [OF pt] by (auto simp: user_string_def less_Suc_eq_le)
  obtain c s1 s2 F2 where s: "kmalloc vm ?n MALLOC_NO_ALIGN = Inr (chunk2mem (fst c), s1)"
    "s1\<lparr>kmem := memcpy (cpu_addr s1) (kmem s1) (chunk2mem (fst c)) p ?n\<rparr> = s2"
    "heap_inv s2 (insert c A) F2" "c \<notin> A" "quiet vm A s2" "kheap.more s2 = kheap.more vm" "kptr (chunk2mem (fst c))"
    "held s2 (insert c A) (chunk2mem (fst c), unat ?n)" "unat (dm (chunk2mem (fst c))) + unat ?n \<le> unat (mem_size vm)"
    "load_bytes (kmem s2) (dm (chunk2mem (fst c))) (unat ?n) = user_bytes vm p (unat ?n)" "fits s2"
    by (rule fetch_user [OF inv pt fits n'(1-3) rng n'(4)])
  note more = machine_more [OF s(6)]
  have rd2: "ready s2" and mem: "unat (mem_size s2) \<le> 2 ^ 32" using rd more s(11) by (simp_all add: fits_def)
  have len: "length ?bs = n" by (simp add: user_bytes_def)
  have "user_bytes vm p (unat ?n) = ?bs @ [0]" "0 \<notin> set ?bs" using str unfolding un by (auto simp: user_bytes_def user_string_def)
  then have "host_string (kmem s2) (dm (chunk2mem (fst c))) (unat (mem_size s2) - unat (dm (chunk2mem (fst c)))) = Some ?bs"
    using s(9,10) more un len by (intro host_string_bytes) simp_all
  then have name: "string_at s2 (dm (chunk2mem (fst c))) = Inr ?bs" by (simp add: string_at_def)
  obtain r vm3 where h: "hp_open os (dm (chunk2mem (fst c))) s2 = Inr (r, vm3)"
    "(r, fds vm3, world vm3) = spec_open os ?bs (fds s2) (world s2)" "ready vm3" "host_side s2 vm3"
    using hp_open_step [OF os rd2 name mem] by blast
  note hs = host_side_same [OF h(4)]
  have i3: "heap_inv vm3 (insert c A) F2" using s(3) hs(1) by simp
  have q: "quiet vm A vm3" by (rule quiet_trans [OF s(5) hs(2)])
  have m3: "mem_size vm3 = mem_size vm" using hs(3) more by simp
  obtain vm' where f: "kfree vm3 (chunk2mem (fst c)) = Inr vm'" "returned vm A tab vm'" "world vm' = world vm3" "fds vm' = fds vm3"
    by (rule drop_block [OF i3 s(4) pt q h(3) m3])
  have nz: "chunk2mem (fst c) \<noteq> 0" using s(7) by (auto simp: kptr_def)
  have "copy_str_from_user vm p = Inr (chunk2mem (fst c), s2)"
    unfolding copy_str_from_user_def Let_def sc s(1) using nz s(2) by simp
  then have "sys_open os p vm = Inr (r, vm')"
    using ok nz by (simp add: sys_open_def physical_kptr [OF s(7)] h(1) f(1))
  then show ?thesis using h(2) f more by (intro exI [of _ r] exI [of _ vm']) simp
qed

text \<open>The same process with the string \<^verbatim>\<open>a\<close> at the start of its page.\<close>

lemma demo_named:
  obtains s :: "kvm_regs machine" and A F tab where "heap_inv s A F" "pt_inv s A tab" "ready s" "fits s" "fds s = std_fds"
    "0x100000 \<le> unat (arena_top_size s)" "user_owned s A tab 0x400000 0x1000" "user_string s 0x400000 1"
    "user_bytes s 0x400000 1 = [0x61]"
proof -
  obtain s :: "kvm_regs machine" and A F tab where s: "heap_inv s A F" "pt_inv s A tab" "ready s" "fits s" "fds s = std_fds"
    "0x100000 \<le> unat (arena_top_size s)" "user_owned s A tab 0x400000 0x1000"
    "\<forall>k < 0x1000. \<forall>um wr. user_space s (0x400000 + of_nat k) um wr \<noteq> -1" by (rule demo_process)
  let ?a = "\<lambda>k. user_space s (0x400000 + of_nat k) False False"
  let ?s1 = "s\<lparr>kmem := (kmem s)(?a 0 := 0x61)\<rparr>"
  let ?s2 = "s\<lparr>kmem := (kmem s)(?a 0 := 0x61, ?a 1 := 0)\<rparr>"
  have o: "owned A tab (?a k)" if "k < 2" for k using s(7) that by (simp add: user_owned_def)
  have ne: "?a 0 \<noteq> ?a 1" using s(7) inj_on_eq_iff [of ?a "{..<0x1000}" 0 1] by (simp add: user_owned_def)
  note p1 = owned_poke [OF s(1) subset_refl s(2) o [of 0, simplified], of "0x61"]
  note p2 = owned_poke [OF p1(1) subset_refl p1(2) o [of 1, simplified], of 0]
  have u: "user_space ?s2 = user_space s" using p1(3) p2(3) by simp
  have "user_string ?s2 0x400000 1" "user_bytes ?s2 0x400000 1 = [0x61]"
    using spec [OF s(8), of 0] spec [OF s(8), of 1] ne unfolding user_string_def user_bytes_def u
    by (auto simp: less_Suc_eq le_Suc_eq)
  moreover have "ready ?s2" "fits ?s2" "fds ?s2 = std_fds" using s(3-5) by (simp_all add: fits_def arena_end_def)
  moreover have "user_owned ?s2 A tab 0x400000 0x1000" using s(7) unfolding user_owned_def u .
  moreover have "heap_inv ?s2 A F" "pt_inv ?s2 A tab" using p2(1,2) by (simp_all del: fun_upd_apply)
  ultimately show thesis using s(6) by (intro that [of ?s2 A F tab]) simp_all
qed

section \<open>Properties\<close>

text \<open>
  C9: \<^verbatim>\<open>sys_open\<close> of an address where no string begins that user mode may read fails with \<^verbatim>\<open>EFAULT\<close> and
  changes nothing.  For a string, with room for its copy, it opens the file of that name on the host for
  the least free descriptor of the table, or returns the host's error or \<^verbatim>\<open>ENFILE\<close> when the table is full.
  The copy is released: the heap, the page tables and every byte the program owns are as before.
\<close>

theorem sys_open_correct:
  fixes vm :: "'w machine"
  assumes "heap_inv vm A F" "pt_inv vm A tab" "fits vm" "ready vm" "host_ok os"
  shows "if \<exists>n. user_string vm p n
    then \<forall>n. user_string vm p n \<and> n + 1 < 2 ^ 31 \<and> rounded (n + 1) \<le> unat (arena_top_size vm) \<and> user_backed vm A p (n + 1) \<longrightarrow>
      (\<exists>r vm'. sys_open os p vm = Inr (r, vm') \<and>
        (r, fds vm', world vm') = spec_open os (user_bytes vm p n) (fds vm) (world vm) \<and> returned vm A tab vm')
    else sys_open os p vm = Inr (- EFAULT, vm)"
proof (cases "\<exists>n. user_string vm p n")
  case True
  then show ?thesis using sys_open_step [OF assms] by auto
next
  case False
  then show ?thesis using access_string_ok_iff [OF assms(2)] by (simp add: sys_open_def)
qed

theorem sys_open_correct_witness:
  "\<exists>(s :: kvm_regs machine) s'. sys_open demo_os 0x400000 s = Inr (3, s') \<and> fds s' = (fds s)(3 \<mapsto> 7) \<and>
     user_bytes s 0x400000 1 = [0x61]"
proof -
  obtain s :: "kvm_regs machine" and A F tab where s: "heap_inv s A F" "pt_inv s A tab" "ready s" "fits s" "fds s = std_fds"
    "0x100000 \<le> unat (arena_top_size s)" "user_owned s A tab 0x400000 0x1000" "user_string s 0x400000 1"
    "user_bytes s 0x400000 1 = [0x61]" by (rule demo_named)
  have b: "user_backed s A 0x400000 (1 + 1)" by (rule user_owned_backed [OF user_owned_take [OF s(7)]]) simp
  have room: "rounded (1 + 1) \<le> unat (arena_top_size s)" using s(6) by (simp add: rounded_def)
  obtain r s' where r: "sys_open demo_os 0x400000 s = Inr (r, s')"
    "(r, fds s', world s') = spec_open demo_os [0x61] std_fds (world s)"
    using spec [OF
        sys_open_correct [OF s(1,2,4,3) demo_host_ok, of "0x400000", unfolded if_P [OF exI [of "user_string s 0x400000", OF s(8)]]], of 1]
      s(5,8,9) b room by auto
  have "r = 3" "fds s' = std_fds(3 \<mapsto> 7)" using r(2) first_std_fd by (simp_all add: spec_open_def demo_os_def Let_def)
  then show ?thesis using r(1) s(5,9) by metis
qed





text \<open>
  C12: \<^verbatim>\<open>close\<close>, the hypercall the system call is, closes the host file of an open descriptor, removes the
  descriptor from the table whatever the host answers, and returns that answer; a descriptor that is not open
  gives \<^verbatim>\<open>EBADF\<close>.  Nothing of the guest changes, and no result is left pending in the host.
\<close>

theorem hp_close_correct:
  assumes "host_ok os" "ready vm" "- (2 ^ 31) \<le> fd" "fd < 2 ^ 31"
  shows "\<exists>r vm'. hp_close os fd vm = Inr (r, vm') \<and> (r, fds vm', world vm') = spec_close os fd (fds vm) (world vm) \<and>
    ready vm' \<and> host_side vm vm'"
  using assms by (rule hp_close_step)

theorem hp_close_correct_witness:
  "\<exists>(s :: unit machine) s'. fds s 2 = Some 2 \<and> hp_close demo_os 2 s = Inr (0, s') \<and> fds s' 2 = None"
proof -
  let ?s = "fresh_machine [] () :: unit machine"
  have "ready ?s" by (simp add: ready_def fresh_machine_def)
  then obtain r s' where r: "hp_close demo_os 2 ?s = Inr (r, s')" "(r, fds s', world s') = spec_close demo_os 2 std_fds (world ?s)"
    using hp_close_correct [OF demo_host_ok, of ?s 2] fresh_fds [of "[]" "()"] by auto
  have "r = 0" "fds s' 2 = None" using r(2) by (simp_all add: spec_close_def spec_fd_def std_fds_def MAX_FD_def demo_os_def)
  then show ?thesis using r(1) fresh_fds [of "[]" "()"] by (intro exI [of _ ?s] exI [of _ s']) (simp add: std_fds_def)
qed

end
