(* ===== verification/Packets.thy ===== *)
theory Packets
  imports Prelude
begin

text \<open>
  Packet headers as the packet programs read them: a packet is its bytes from \<open>data\<close> to
  \<open>data_end\<close>, and the header structures of \<^verbatim>\<open>vmlinux.h\<close> are decoded at
  a byte offset with the little-endian loads of the target.  \<open>__be16\<close> and \<open>__be32\<close> fields keep
  the value such a load gives; \<open>bpf_ntohs\<close> and \<open>bpf_ntohl\<close> swap it.
\<close>

section \<open>Byte order\<close>

type_synonym packet = "u8 list"

definition field :: "packet \<Rightarrow> nat \<Rightarrow> nat \<Rightarrow> 'a::len word" where
  "field p off n = le_word (take n (drop off p))"

definition set_field :: "packet \<Rightarrow> nat \<Rightarrow> nat \<Rightarrow> 'a::len word \<Rightarrow> packet" where
  "set_field p off n v = take off p @ le_bytes n v @ drop (off + n) p"

definition bpf_ntohs :: "u16 \<Rightarrow> u16" where
  "bpf_ntohs x = push_bit 8 x OR drop_bit 8 x"

definition bpf_ntohl :: "u32 \<Rightarrow> u32" where
  "bpf_ntohl x = push_bit 24 x OR push_bit 8 (x AND 0xff00) OR (drop_bit 8 x AND 0xff00) OR drop_bit 24 x"

section \<open>Headers\<close>

record ethhdr =
  h_dest :: "u8 list"
  h_source :: "u8 list"
  h_proto :: u16

definition ethhdr_at :: "packet \<Rightarrow> nat \<Rightarrow> ethhdr" where
  "ethhdr_at p o' = \<lparr>h_dest = take 6 (drop o' p), h_source = take 6 (drop (o' + 6) p), h_proto = field p (o' + 12) 2\<rparr>"

record iphdr =
  ihl :: u8
  version :: u8
  tos :: u8
  tot_len :: u16
  id_ :: u16
  frag_off :: u16
  ttl :: u8
  protocol :: u8
  ip_check :: u16
  saddr :: u32
  daddr :: u32

definition iphdr_at :: "packet \<Rightarrow> nat \<Rightarrow> iphdr" where
  "iphdr_at p o' =
     \<lparr>ihl = field p o' 1 AND 0xf, version = drop_bit 4 (field p o' 1), tos = field p (o' + 1) 1,
      tot_len = field p (o' + 2) 2, id_ = field p (o' + 4) 2, frag_off = field p (o' + 6) 2,
      ttl = field p (o' + 8) 1, protocol = field p (o' + 9) 1, ip_check = field p (o' + 10) 2,
      saddr = field p (o' + 12) 4, daddr = field p (o' + 16) 4\<rparr>"

record tcphdr =
  source :: u16
  dest :: u16
  seq :: u32
  ack_seq :: u32
  res1 :: u16
  doff :: u16
  fin :: u16
  syn :: u16
  rst :: u16
  psh :: u16
  ack :: u16
  urg :: u16
  ece :: u16
  cwr :: u16
  window :: u16
  check :: u16
  urg_ptr :: u16

definition bitfield :: "u16 \<Rightarrow> nat \<Rightarrow> nat \<Rightarrow> u16" where
  "bitfield w i n = take_bit n (drop_bit i w)"

definition tcphdr_at :: "packet \<Rightarrow> nat \<Rightarrow> tcphdr" where
  "tcphdr_at p o' =
     (let b = field p (o' + 12) 2
      in \<lparr>source = field p o' 2, dest = field p (o' + 2) 2, seq = field p (o' + 4) 4,
          ack_seq = field p (o' + 8) 4, res1 = bitfield b 0 4, doff = bitfield b 4 4,
          fin = bitfield b 8 1, syn = bitfield b 9 1, rst = bitfield b 10 1, psh = bitfield b 11 1,
          ack = bitfield b 12 1, urg = bitfield b 13 1, ece = bitfield b 14 1, cwr = bitfield b 15 1,
          window = field p (o' + 14) 2, check = field p (o' + 16) 2, urg_ptr = field p (o' + 18) 2\<rparr>)"

datatype xdp_action = XDP_ABORTED | XDP_DROP | XDP_PASS | XDP_TX | XDP_REDIRECT

abbreviation IPPROTO_TCP :: u8 where "IPPROTO_TCP \<equiv> 6"
abbreviation ETH_P_IP :: u16 where "ETH_P_IP \<equiv> 0x800"

section \<open>Laws of the field accesses\<close>

lemma bpf_ntohs_ntohs [simp]: "bpf_ntohs (bpf_ntohs x) = x"
  by (rule bit_word_eqI) (auto simp: bpf_ntohs_def bit_simps)

lemma bpf_ntohs_eq_iff: "bpf_ntohs x = y \<longleftrightarrow> x = bpf_ntohs y"
  by auto

lemma length_set_field [simp]: "off + n \<le> length p \<Longrightarrow> length (set_field p off n v) = length p"
  by (simp add: set_field_def)

lemma field_set_field:
  fixes v :: "'a::len word"
  shows "off + n \<le> length p \<Longrightarrow> LENGTH('a) \<le> 8 * n \<Longrightarrow> field (set_field p off n v) off n = v"
  by (simp add: field_def set_field_def le_word_le_bytes_full)

lemma field_set_field_other:
  assumes "off + n \<le> length p" "off' + n' \<le> off \<or> off + n \<le> off'"
  shows "field (set_field p off n v) off' n' = field p off' n'"
proof -
  have "take n' (drop off' (set_field p off n v)) = take n' (drop off' p)"
    using assms(2)
  proof
    assume "off' + n' \<le> off"
    then show ?thesis using assms(1) by (simp add: set_field_def take_drop min.absorb1)
  next
    assume "off + n \<le> off'"
    then show ?thesis using assms(1) by (simp add: set_field_def)
  qed
  then show ?thesis by (simp add: field_def)
qed

section \<open>Big-endian reading\<close>

lemma field_2:
  assumes "off + 2 \<le> length p"
  shows "(field p off 2 :: u16) = ucast (p ! off) OR push_bit 8 (ucast (p ! (off + 1)))"
proof -
  have "take 2 (drop off p) = [p ! off, p ! (off + 1)]"
    using assms by (auto simp: nth_append list_eq_iff_nth_eq nth_Cons' less_Suc_eq numeral_2_eq_2)
  then show ?thesis by (simp add: field_def)
qed

lemma ntohs_field:
  assumes "off + 2 \<le> length p"
  shows "unat (bpf_ntohs (field p off 2)) = 256 * unat (p ! off) + unat (p ! (off + 1))"
proof -
  have "bpf_ntohs (field p off 2) = push_bit 8 (ucast (p ! off)) OR ucast (p ! (off + 1))"
    by (rule bit_word_eqI) (auto simp: bpf_ntohs_def field_2 [OF assms] bit_simps dest: bit_imp_le_length)
  also have "\<dots> = push_bit 8 (ucast (p ! off)) + ucast (p ! (off + 1))"
    by (rule disjunctive_add [symmetric]) (auto simp: bit_simps dest: bit_imp_le_length)
  finally have e: "bpf_ntohs (field p off 2) = push_bit 8 (ucast (p ! off)) + (ucast (p ! (off + 1)) :: u16)" .
  have b: "unat (x :: u8) < 256" for x using unsigned_less [of x, where 'a = nat] by simp
  have "unat (push_bit 8 (ucast (p ! off)) :: u16) = 256 * unat (p ! off)"
    using b [of "p ! off"] by (simp add: push_bit_eq_mult unat_word_ariths unsigned_ucast_eq take_bit_eq_mod)
  then show ?thesis using b [of "p ! off"] b [of "p ! (off + 1)"] e
    by (simp add: unat_word_ariths unsigned_ucast_eq take_bit_eq_mod)
qed

lemma field_1: "off < length p \<Longrightarrow> (field p off 1 :: u8) = p ! off"
  by (simp add: field_def take_Suc_conv_app_nth hd_drop_conv_nth take_Suc)

definition be16 :: "packet \<Rightarrow> nat \<Rightarrow> nat" where
  "be16 p off = 256 * unat (p ! off) + unat (p ! (off + 1))"

lemma field_eq_ntohs:
  assumes "off + 2 \<le> length p" "n < 65536"
  shows "field p off 2 = bpf_ntohs (of_nat n) \<longleftrightarrow> be16 p off = n"
proof -
  have "field p off 2 = bpf_ntohs (of_nat n) \<longleftrightarrow> bpf_ntohs (field p off 2) = of_nat n"
    using bpf_ntohs_eq_iff [of "field p off 2" "of_nat n"] by simp
  also have "\<dots> \<longleftrightarrow> unat (bpf_ntohs (field p off 2)) = unat (of_nat n :: u16)"
    by (rule word_unat_eq_iff)
  also have "unat (of_nat n :: u16) = n" using assms(2) by (simp add: unat_of_nat)
  finally show ?thesis using ntohs_field [OF assms(1)] by (simp add: be16_def)
qed

lemmas field_eq_port = field_eq_ntohs [where n = "numeral w" for w, simplified]

section \<open>A sample packet\<close>

text \<open>
  An Ethernet frame with an IPv4 header of total length \<open>len\<close>, a TCP header and the payload \<^verbatim>\<open>GET / H\<close>.
\<close>

definition get_packet :: "u8 \<Rightarrow> u8 list" where
  "get_packet len =
     replicate 12 0 @ [8, 0] @ [0x45, 0, 0, len, 0, 0, 0, 0, 64, 6, 0, 0, 10, 0, 0, 1, 10, 0, 0, 2]
     @ [0x30, 0x39, 0, 80, 0, 0, 0, 0, 0, 0, 0, 0, 0x50, 0x18, 0, 0, 0, 0, 0, 0]
     @ [71, 69, 84, 32, 47, 32, 72]"

end
