(* ===== verification/Http_Filter.thy ===== *)
theory Http_Filter
  imports Packets "HOL-Library.Sublist"
begin

text \<open>
  The packet programs of \<^verbatim>\<open>src/ebpf-http\<close>: the two socket filters that keep
  HTTP messages, and the XDP program that drops the packets of a marked session.  The header
  accessors of bcc are a parameter: a record of functions on the packet, \<open>None\<close> where the access
  leaves the packet and the kernel ends the program with 0.  The \<open>sessions\<close> table is a map; whether
  the kernel has room for a new key is the parameter \<open>admits\<close>.
\<close>

section \<open>State\<close>

record Key =
  src_ip :: u32
  dst_ip :: u32
  src_port :: u16
  dst_port :: u16

record Leaf =
  timestamp :: int
  times :: int

type_synonym sessions = "Key \<Rightarrow> Leaf option"

definition lookup_or_init :: "(sessions \<Rightarrow> Key \<Rightarrow> bool) \<Rightarrow> sessions \<Rightarrow> Key \<Rightarrow> Leaf \<Rightarrow> sessions" where
  "lookup_or_init admits m k v = (if m k = None \<and> admits m k then m(k \<mapsto> v) else m)"

record 'p bcc_proto =
  eth_type :: "'p \<Rightarrow> u16 option"
  ip_nextp :: "'p \<Rightarrow> u8 option"
  ip_hlen :: "'p \<Rightarrow> u8 option"
  ip_tlen :: "'p \<Rightarrow> u16 option"
  ip_src :: "'p \<Rightarrow> u32 option"
  ip_dst :: "'p \<Rightarrow> u32 option"
  tcp_src_port :: "'p \<Rightarrow> u16 option"
  tcp_dst_port :: "'p \<Rightarrow> u16 option"
  tcp_offset :: "'p \<Rightarrow> u8 option"
  load_byte :: "'p \<Rightarrow> nat \<Rightarrow> u8 option"

abbreviation IP_TCP :: u8 where "IP_TCP \<equiv> 6"
abbreviation ETH_HLEN :: u32 where "ETH_HLEN \<equiv> 14"

section \<open>Header walk\<close>

definition is_tcp :: "'p bcc_proto \<Rightarrow> 'p \<Rightarrow> bool option" where
  "is_tcp pr skb =
     Option.bind (eth_type pr skb) (\<lambda>ty.
       if ty \<noteq> 0x0800 then Some False
       else map_option (\<lambda>n. n = IP_TCP) (ip_nextp pr skb))"

definition payload_offset :: "u8 \<Rightarrow> u8 \<Rightarrow> u32" where
  "payload_offset hlen offset = ETH_HLEN + push_bit 2 (ucast hlen) + push_bit 2 (ucast offset)"

definition payload_length :: "u16 \<Rightarrow> u8 \<Rightarrow> u8 \<Rightarrow> u32" where
  "payload_length tlen hlen offset = ucast tlen - push_bit 2 (ucast hlen) - push_bit 2 (ucast offset)"

primrec load_payload :: "'p bcc_proto \<Rightarrow> 'p \<Rightarrow> nat \<Rightarrow> nat \<Rightarrow> u8 list option" where
  "load_payload pr skb i 0 = Some []"
| "load_payload pr skb i (Suc n) =
     Option.bind (load_byte pr skb i) (\<lambda>b. map_option (\<lambda>bs. b # bs) (load_payload pr skb (i + 1) n))"

text \<open>The payload bytes the filters look at: \<open>None\<close> when the packet is dropped before that.\<close>

definition http_payload :: "'p bcc_proto \<Rightarrow> 'p \<Rightarrow> u8 list option" where
  "http_payload pr skb =
     Option.bind (is_tcp pr skb) (\<lambda>t.
       if \<not> t then None
       else Option.bind (ip_hlen pr skb) (\<lambda>hlen.
            Option.bind (tcp_offset pr skb) (\<lambda>offset.
            Option.bind (ip_tlen pr skb) (\<lambda>tlen.
              if payload_length tlen hlen offset < 7 then None
              else load_payload pr skb (unat (payload_offset hlen offset)) 7))))"

definition is_http :: "u8 list \<Rightarrow> bool" where
  "is_http p \<longleftrightarrow>
     (p ! 0 = 72 \<and> p ! 1 = 84 \<and> p ! 2 = 84 \<and> p ! 3 = 80) \<or>
     (p ! 0 = 71 \<and> p ! 1 = 69 \<and> p ! 2 = 84) \<or>
     (p ! 0 = 80 \<and> p ! 1 = 79 \<and> p ! 2 = 83 \<and> p ! 3 = 84) \<or>
     (p ! 0 = 80 \<and> p ! 1 = 85 \<and> p ! 2 = 84) \<or>
     (p ! 0 = 68 \<and> p ! 1 = 69 \<and> p ! 2 = 76 \<and> p ! 3 = 69 \<and> p ! 4 = 84 \<and> p ! 5 = 69) \<or>
     (p ! 0 = 72 \<and> p ! 1 = 69 \<and> p ! 2 = 65 \<and> p ! 3 = 68)"

section \<open>The socket filters\<close>

definition http_filter_simple :: "'p bcc_proto \<Rightarrow> 'p \<Rightarrow> int" where
  "http_filter_simple pr skb =
     (case http_payload pr skb of None \<Rightarrow> 0 | Some p \<Rightarrow> if is_http p then - 1 else 0)"

definition session_key :: "'p bcc_proto \<Rightarrow> 'p \<Rightarrow> Key option" where
  "session_key pr skb =
     Option.bind (ip_dst pr skb) (\<lambda>d. Option.bind (ip_src pr skb) (\<lambda>s.
     Option.bind (tcp_dst_port pr skb) (\<lambda>dp. map_option (\<lambda>sp.
       \<lparr>src_ip = s, dst_ip = d, src_port = sp, dst_port = dp\<rparr>) (tcp_src_port pr skb))))"

definition http_match :: "(sessions \<Rightarrow> Key \<Rightarrow> bool) \<Rightarrow> sessions \<Rightarrow> Key \<Rightarrow> int \<times> sessions" where
  "http_match admits m key =
     (case m key of
        Some leaf \<Rightarrow> if timestamp leaf = 1 then (0, m) else (- 1, m)
      | None \<Rightarrow> (- 1, lookup_or_init admits m key \<lparr>timestamp = 1, times = 0\<rparr>))"

definition http_filter :: "'p bcc_proto \<Rightarrow> (sessions \<Rightarrow> Key \<Rightarrow> bool) \<Rightarrow> 'p \<Rightarrow> sessions \<Rightarrow> int \<times> sessions" where
  "http_filter pr admits skb m =
     (case session_key pr skb of None \<Rightarrow> (0, m) | Some key \<Rightarrow>
      case http_payload pr skb of None \<Rightarrow> (0, m) | Some p \<Rightarrow>
        if is_http p then http_match admits m key else (0, m))"

section \<open>The XDP program\<close>

definition get_tcp_flag :: "tcphdr \<Rightarrow> u16" where
  "get_tcp_flag tcp =
     push_bit 8 (res1 tcp) + push_bit 12 (doff tcp) + push_bit 5 (urg tcp) + push_bit 4 (ack tcp)
     + push_bit 3 (psh tcp) + push_bit 2 (rst tcp) + push_bit 1 (syn tcp) + fin tcp"

definition csum_incremental_update_modified :: "u16 \<Rightarrow> u16 \<Rightarrow> u16 \<Rightarrow> u16" where
  "csum_incremental_update_modified old_csum old_field new_field =
     (let csum = (NOT (ucast old_csum) AND 0xFFFF) + (NOT (ucast old_field) AND 0xFFFF) + (ucast new_field :: u64);
          csum = drop_bit 16 csum + (csum AND 0xFFFF);
          csum = csum + drop_bit 16 csum
      in ucast (NOT csum))"

definition xdp_key :: "iphdr \<Rightarrow> tcphdr \<Rightarrow> Key" where
  "xdp_key ip tcp =
     \<lparr>src_ip = bpf_ntohl (saddr ip), dst_ip = bpf_ntohl (daddr ip),
      src_port = bpf_ntohs (source tcp), dst_port = bpf_ntohs (dest tcp)\<rparr>"

definition xdp_prog1 :: "packet \<Rightarrow> sessions \<Rightarrow> xdp_action \<times> packet \<times> sessions" where
  "xdp_prog1 p m =
     (if \<not> 14 \<le> length p then (XDP_PASS, p, m)
      else if \<not> 34 \<le> length p then (XDP_PASS, p, m)
      else if protocol (iphdr_at p 14) \<noteq> IPPROTO_TCP then (XDP_PASS, p, m)
      else if \<not> 54 \<le> length p then (XDP_PASS, p, m)
      else let ip = iphdr_at p 14; tcp = tcphdr_at p 34; key = xdp_key ip tcp
           in case m key of None \<Rightarrow> (XDP_PASS, p, m)
              | Some leaf \<Rightarrow>
                  if timestamp leaf \<noteq> 2 then (XDP_PASS, p, m)
                  else if times leaf > 10 then (XDP_PASS, p, m)
                  else let old_flags = get_tcp_flag tcp; flags = get_tcp_flag tcp;
                           c = bpf_ntohs (csum_incremental_update_modified (bpf_ntohs (check tcp)) old_flags flags)
                       in (XDP_DROP, set_field p 50 2 c, m(key \<mapsto> leaf\<lparr>times := times leaf + 1\<rparr>)))"

section \<open>The security group program\<close>

definition is_secure_source :: "packet \<Rightarrow> bool" where
  "is_secure_source p =
     (if 14 > length p then True
      else if h_proto (ethhdr_at p 0) \<noteq> bpf_ntohs ETH_P_IP then True
      else if 34 > length p then True
      else if protocol (iphdr_at p 14) \<noteq> IPPROTO_TCP then True
      else if 54 > length p then True
      else if dest (tcphdr_at p 34) = bpf_ntohs 12160 then
        if source (tcphdr_at p 34) \<noteq> bpf_ntohs 10216 then False else True
      else True)"

definition xdp_secure_policy :: "packet \<Rightarrow> xdp_action" where
  "xdp_secure_policy p = (if is_secure_source p then XDP_PASS else XDP_DROP)"

section \<open>Small programs\<close>

definition xdp_drop :: "packet \<Rightarrow> xdp_action" where
  "xdp_drop p = XDP_DROP"

text \<open>
  The traffic counters: \<open>ifindex\<close> and \<open>traffic\<close> are the program's globals; of the
  \<open>sk_buff\<close> the program reads the index of its device and \<open>data_len\<close>.
\<close>

record skb_view =
  dev_ifindex :: int
  data_len :: u32

record counter =
  ifindex :: int
  traffic :: u64

definition netif_receive_skb :: "skb_view \<Rightarrow> counter \<Rightarrow> int \<times> counter" where
  "netif_receive_skb skb c =
     (0, if dev_ifindex skb = ifindex c then c\<lparr>traffic := traffic c + ucast (data_len skb)\<rparr> else c)"

section \<open>The checksum update\<close>

lemma unat_not_u16: "unat (NOT x) = 65535 - unat (x :: u16)"
proof -
  have "NOT x = - 1 - x" by (simp add: not_eq_complement)
  moreover have "x \<le> - 1" by simp
  ultimately show ?thesis
    using unat_sub [of x "- 1"] by (simp add: unsigned_minus_1_eq_mask mask_eq_exp_minus_1)
qed

lemma unat_not_16: "unat (NOT (ucast (x :: u16)) AND 0xFFFF :: u64) = 65535 - unat x"
proof -
  have "(NOT (ucast x) AND 0xFFFF :: u64) = ucast (NOT x)"
  proof (rule bit_word_eqI)
    fix n :: nat assume "n < LENGTH(64)"
    have "bit (0xFFFF :: u64) n \<longleftrightarrow> n < 16"
      using bit_mask_iff [of 16 n, where 'a = u64] \<open>n < _\<close> by (simp add: mask_eq_exp_minus_1)
    then show "bit (NOT (ucast x) AND 0xFFFF :: u64) n = bit (ucast (NOT x) :: u64) n"
      using \<open>n < _\<close> by (auto simp: bit_simps)
  qed
  then show ?thesis using unat_not_u16 [of x] by (simp add: unsigned_ucast_eq take_bit_eq_mod)
qed

lemma csum_nat:
  fixes s :: nat
  assumes "s < 3 * 65536"
  shows "(65535 - (s div 65536 + s mod 65536 + (s div 65536 + s mod 65536) div 65536) mod 65536 + s) mod 65535 = 0"
proof -
  obtain q r where s: "s = q * 65536 + r" "r < 65536" "s div 65536 = q" "s mod 65536 = r"
    by (metis div_mult_mod_eq mod_less_divisor zero_less_numeral)
  have q: "q \<le> 2" using assms s by simp
  show ?thesis
  proof (cases "q + r < 65536")
    case True
    then have "(q + r + (q + r) div 65536) mod 65536 = q + r" by simp
    moreover have "65535 - (q + r) + s = 65535 * (1 + q)" using s True by simp
    ultimately show ?thesis unfolding s(3,4) by simp
  next
    case False
    then have d: "(q + r) div 65536 = 1" using q s by simp
    have "(q + r + 1) mod 65536 = q + r + 1 - 65536" using False q s by (simp add: le_mod_geq)
    moreover have "65535 - (q + r + 1 - 65536) + s = 65535 * (2 + q)" using s False q by simp
    ultimately show ?thesis unfolding s(3,4) d by simp
  qed
qed

text \<open>
  C17: The checksum update of the XDP program follows the incremental formula: modulo \<open>2\<^sup>1\<^sup>6 - 1\<close>,
  the new checksum with the new field equals the old checksum with the old field, so a header whose
  words summed up to zero still does after the field is exchanged.
\<close>

theorem csum_incremental_update_correct:
  "(unat (csum_incremental_update_modified old_csum old_field new_field) + unat new_field) mod 65535
   = (unat old_csum + unat old_field) mod 65535"
proof -
  define c where "c = (NOT (ucast old_csum) AND 0xFFFF) + (NOT (ucast old_field) AND 0xFFFF) + (ucast new_field :: u64)"
  define s where "s = (65535 - unat old_csum) + (65535 - unat old_field) + unat new_field"
  have b: "unat (x :: u16) < 65536" for x using unsigned_less [of x, where 'a = nat] by simp
  have c: "unat c = s"
    using b [of old_csum] b [of old_field] b [of new_field]
    by (simp add: c_def s_def unat_not_16 unat_word_ariths unsigned_ucast_eq take_bit_eq_mod)
  have s3: "s < 3 * 65536" using b [of new_field] by (simp add: s_def)
  define c1 where "c1 = drop_bit 16 c + (c AND 0xFFFF)"
  have c1: "unat c1 = s div 65536 + s mod 65536"
  proof -
    have "unat (drop_bit 16 c) = s div 65536" by (simp add: unat_drop_bit c)
    moreover have "unat (c AND 0xFFFF) = s mod 65536"
      using and_mask_64 [of c 16] c by (simp add: mask_eq_exp_minus_1)
    ultimately show ?thesis using s3 by (simp add: c1_def unat_word_ariths)
  qed
  define t where "t = s div 65536 + s mod 65536 + (s div 65536 + s mod 65536) div 65536"
  have c2: "unat (c1 + drop_bit 16 c1) = t"
    using s3 by (simp add: t_def unat_word_ariths unat_drop_bit c1)
  have "unat (ucast (NOT (c1 + drop_bit 16 c1)) :: u16) = 65535 - t mod 65536"
  proof -
    have "(ucast (NOT x) :: u16) = NOT (ucast x)" for x :: u64
      by (rule bit_word_eqI) (auto simp: bit_simps)
    moreover have "unat (ucast x :: u16) = unat x mod 65536" for x :: u64 by (simp add: unsigned_ucast_eq take_bit_eq_mod)
    ultimately show ?thesis using c2 unat_not_u16 by simp
  qed
  then have r: "unat (csum_incremental_update_modified old_csum old_field new_field) = 65535 - t mod 65536"
    by (simp add: csum_incremental_update_modified_def Let_def c_def [symmetric] c1_def [symmetric])
  have "(65535 - t mod 65536 + s) mod 65535 = 0" unfolding t_def by (rule csum_nat [OF s3])
  then obtain k where k: "65535 - t mod 65536 + s = 65535 * k" by (metis dvd_def mod_0_imp_dvd)
  have "s + unat old_csum + unat old_field = 2 * 65535 + unat new_field"
    using b [of old_csum] b [of old_field] by (simp add: s_def)
  then have "65535 - t mod 65536 + unat new_field + 65535 * 2 = unat old_csum + unat old_field + 65535 * k"
    using k by simp
  then show ?thesis unfolding r by (metis mod_mult_self2)
qed

section \<open>What the socket filters keep\<close>

definition http_methods :: "u8 list list" where
  "http_methods =
     [[72, 84, 84, 80], [71, 69, 84], [80, 79, 83, 84], [80, 85, 84], [68, 69, 76, 69, 84, 69], [72, 69, 65, 68]]"

lemma prefix_iff_take: "prefix w xs \<longleftrightarrow> take (length w) xs = w"
  by (auto simp: prefix_def) (metis append_take_drop_id)

lemma list_7: "length p = 7 \<Longrightarrow> \<exists>a b c d e f g. p = [a, b, c, d, e, f, g]"
  by (auto simp: length_Suc_conv eval_nat_numeral)

lemma is_http_methods:
  assumes "length p = 7"
  shows "is_http p \<longleftrightarrow> (\<exists>w\<in>set http_methods. prefix w p)"
proof -
  obtain a b c d e f g where "p = [a, b, c, d, e, f, g]" using list_7 [OF assms] by blast
  then show ?thesis by (simp add: is_http_def http_methods_def prefix_iff_take)
qed

lemma is_http_methods_prefix:
  assumes "7 \<le> length q"
  shows "is_http (take 7 q) \<longleftrightarrow> (\<exists>w\<in>set http_methods. prefix w q)"
proof -
  have "\<forall>w\<in>set http_methods. prefix w (take 7 q) \<longleftrightarrow> prefix w q"
  proof
    fix w assume "w \<in> set http_methods"
    then have "length w \<le> 7" by (auto simp: http_methods_def)
    then show "prefix w (take 7 q) \<longleftrightarrow> prefix w q" by (simp add: prefix_iff_take min.absorb1)
  qed
  then show ?thesis using is_http_methods [of "take 7 q"] assms by auto
qed

lemma load_payload_bytes:
  assumes "\<And>i. load_byte pr skb i = (if i < length bs then Some (bs ! i) else None)"
  shows "load_payload pr skb i n = (if n = 0 \<or> i + n \<le> length bs then Some (take n (drop i bs)) else None)"
proof (induction n arbitrary: i)
  case 0
  show ?case by simp
next
  case (Suc n)
  show ?case
    by (auto simp: Suc assms Cons_nth_drop_Suc [symmetric] simp del: drop_Suc)
qed

lemma unat_payload_offset:
  "unat hlen < 16 \<Longrightarrow> unat offset < 16 \<Longrightarrow> unat (payload_offset hlen offset) = 14 + 4 * unat hlen + 4 * unat offset"
  by (simp add: payload_offset_def push_bit_eq_mult unat_word_ariths unsigned_ucast_eq take_bit_eq_mod)

lemma payload_length_less:
  assumes "unat hlen < 16" "unat offset < 16" "4 * unat hlen + 4 * unat offset \<le> unat tlen"
  shows "unat (payload_length tlen hlen offset) = unat tlen - 4 * unat hlen - 4 * unat offset"
proof -
  have h: "unat (push_bit 2 (ucast (x :: u8)) :: u32) = 4 * unat x" if "unat x < 16" for x
    using that by (simp add: push_bit_eq_mult unat_word_ariths unsigned_ucast_eq take_bit_eq_mod)
  have t: "unat (ucast tlen :: u32) = unat tlen"
    using unsigned_less [of tlen, where 'a = nat] by (simp add: unsigned_ucast_eq take_bit_eq_mod)
  show ?thesis using assms
    by (simp add: payload_length_def unat_sub_if' h t)
qed

lemma payload_length_wraps:
  assumes "unat hlen < 16" "unat offset < 16" "unat tlen < 4 * unat hlen + 4 * unat offset"
  shows "7 \<le> payload_length tlen hlen offset"
proof -
  have h: "unat (push_bit 2 (ucast (x :: u8)) :: u32) = 4 * unat x" if "unat x < 16" for x
    using that by (simp add: push_bit_eq_mult unat_word_ariths unsigned_ucast_eq take_bit_eq_mod)
  have t: "unat (ucast tlen :: u32) = unat tlen"
    using unsigned_less [of tlen, where 'a = nat] by (simp add: unsigned_ucast_eq take_bit_eq_mod)
  have "unat (payload_length tlen hlen offset) \<ge> 7"
    using assms by (auto simp: payload_length_def unat_sub_if' h t)
  then show ?thesis by (simp add: word_le_nat_alt)
qed

lemma http_payload_bytes:
  assumes "\<And>i. load_byte pr skb i = (if i < length bs then Some (bs ! i) else None)"
    and "eth_type pr skb = Some ty" "ip_nextp pr skb = Some nx" "ip_hlen pr skb = Some hlen"
      "tcp_offset pr skb = Some offset" "ip_tlen pr skb = Some tlen" "unat hlen < 16" "unat offset < 16"
  shows "http_payload pr skb =
    (if ty = 0x800 \<and> nx = 6 \<and> \<not> payload_length tlen hlen offset < 7
        \<and> 14 + 4 * unat hlen + 4 * unat offset + 7 \<le> length bs
     then Some (take 7 (drop (14 + 4 * unat hlen + 4 * unat offset) bs)) else None)"
  using assms(2-) by (simp add: http_payload_def is_tcp_def load_payload_bytes [OF assms(1)] unat_payload_offset)

text \<open>
  C18: The simple filter keeps a packet exactly when it is an IPv4 TCP packet whose headers leave at
  least seven bytes of payload, the packet holds those bytes, and the payload begins with one of the
  HTTP methods.  The hypotheses are the reads bcc performs, with header lengths of four bits that fit
  into the total length.
\<close>

theorem http_filter_simple_correct:
  assumes "\<And>i. load_byte pr skb i = (if i < length bs then Some (bs ! i) else None)"
    and "eth_type pr skb = Some ty" "ip_nextp pr skb = Some nx" "ip_hlen pr skb = Some hlen"
      "tcp_offset pr skb = Some offset" "ip_tlen pr skb = Some tlen" "unat hlen < 16" "unat offset < 16"
    and "4 * unat hlen + 4 * unat offset \<le> unat tlen"
  shows "http_filter_simple pr skb =
    (if ty = 0x800 \<and> nx = 6 \<and> 4 * unat hlen + 4 * unat offset + 7 \<le> unat tlen
        \<and> 14 + 4 * unat hlen + 4 * unat offset + 7 \<le> length bs
        \<and> (\<exists>w\<in>set http_methods. prefix w (drop (14 + 4 * unat hlen + 4 * unat offset) bs))
     then - 1 else 0)"
proof -
  have "payload_length tlen hlen offset < 7 \<longleftrightarrow> \<not> 4 * unat hlen + 4 * unat offset + 7 \<le> unat tlen"
    using payload_length_less [OF assms(7-9)] assms(9) by (auto simp: word_less_nat_alt)
  then show ?thesis
    using is_http_methods_prefix [of "drop (14 + 4 * unat hlen + 4 * unat offset) bs"]
    by (auto simp: http_filter_simple_def http_payload_bytes [OF assms(1-8)])
qed

text \<open>
  The length check wraps around: a packet whose total length is smaller than its own headers
  passes the test for seven bytes of payload, and is kept when the bytes after the headers begin with
  a method.
\<close>

theorem http_short_length_kept:
  assumes "\<And>i. load_byte pr skb i = (if i < length bs then Some (bs ! i) else None)"
    and "eth_type pr skb = Some 0x800" "ip_nextp pr skb = Some 6" "ip_hlen pr skb = Some hlen"
      "tcp_offset pr skb = Some offset" "ip_tlen pr skb = Some tlen" "unat hlen < 16" "unat offset < 16"
    and "unat tlen < 4 * unat hlen + 4 * unat offset"
    and "14 + 4 * unat hlen + 4 * unat offset + 7 \<le> length bs"
    and "\<exists>w\<in>set http_methods. prefix w (drop (14 + 4 * unat hlen + 4 * unat offset) bs)"
  shows "http_filter_simple pr skb = - 1"
proof -
  have "\<not> payload_length tlen hlen offset < 7"
    using payload_length_wraps [OF assms(7-9)] by simp
  then show ?thesis
    using is_http_methods_prefix [of "drop (14 + 4 * unat hlen + 4 * unat offset) bs"] assms(10,11)
    by (simp add: http_filter_simple_def http_payload_bytes [OF assms(1-8)])
qed

text \<open>The accessors of bcc on the bytes of a packet, for the examples.\<close>

definition raw_proto :: "u8 list bcc_proto" where
  "raw_proto =
     (let byte = \<lambda>p i. if i < length p then Some (p ! i) else None;
          be16 = \<lambda>p i. if i + 1 < length p then Some (push_bit 8 (ucast (p ! i)) OR ucast (p ! (i + 1))) else None;
          be32 = \<lambda>p i. if i + 3 < length p
            then Some (push_bit 24 (ucast (p ! i)) OR push_bit 16 (ucast (p ! (i + 1)))
                       OR push_bit 8 (ucast (p ! (i + 2))) OR ucast (p ! (i + 3))) else None
      in \<lparr>eth_type = \<lambda>p. be16 p 12, ip_nextp = \<lambda>p. byte p 23, ip_hlen = \<lambda>p. map_option (\<lambda>b. b AND 0xf) (byte p 14),
          ip_tlen = \<lambda>p. be16 p 16, ip_src = \<lambda>p. be32 p 26, ip_dst = \<lambda>p. be32 p 30,
          tcp_src_port = \<lambda>p. be16 p 34, tcp_dst_port = \<lambda>p. be16 p 36,
          tcp_offset = \<lambda>p. map_option (\<lambda>b. drop_bit 4 b) (byte p 46), load_byte = byte\<rparr>)"

lemma raw_load_byte: "load_byte raw_proto p i = (if i < length p then Some (p ! i) else None)"
  by (simp add: raw_proto_def)

lemma get_packet_fields:
  "eth_type raw_proto (get_packet n) = Some 0x800" "ip_nextp raw_proto (get_packet n) = Some 6"
  "ip_hlen raw_proto (get_packet n) = Some 5" "tcp_offset raw_proto (get_packet n) = Some 5"
  "ip_tlen raw_proto (get_packet n) = Some (ucast n)"
  by (simp_all add: raw_proto_def get_packet_def nth_append)

theorem http_filter_simple_correct_witness:
  "http_filter_simple raw_proto (get_packet 47) = - 1"
  using http_filter_simple_correct [of raw_proto "get_packet 47" "get_packet 47", OF raw_load_byte get_packet_fields]
  by (simp add: get_packet_def http_methods_def)

theorem http_short_length_kept_witness:
  "http_filter_simple raw_proto (get_packet 20) = - 1"
  by (rule http_short_length_kept [of raw_proto "get_packet 20" "get_packet 20", OF raw_load_byte get_packet_fields])
    (simp_all add: get_packet_def http_methods_def)

section \<open>Sessions\<close>

text \<open>The filter on a sequence of packets.\<close>

fun filter_run :: "'p bcc_proto \<Rightarrow> (sessions \<Rightarrow> Key \<Rightarrow> bool) \<Rightarrow> 'p list \<Rightarrow> sessions \<Rightarrow> int list \<times> sessions" where
  "filter_run pr admits [] m = ([], m)"
| "filter_run pr admits (skb # skbs) m =
     (let (r, m) = http_filter pr admits skb m; (rs, m) = filter_run pr admits skbs m in (r # rs, m))"

definition kept :: "'p bcc_proto \<Rightarrow> Key \<Rightarrow> 'p \<times> int \<Rightarrow> bool" where
  "kept pr k = (\<lambda>(skb, r). session_key pr skb = Some k \<and> r = - 1)"

definition seen :: "sessions \<Rightarrow> Key \<Rightarrow> bool" where
  "seen m k \<longleftrightarrow> (\<exists>leaf. m k = Some leaf \<and> timestamp leaf = 1)"

lemma http_filter_seen:
  assumes "seen m k" "http_filter pr admits skb m = (r, m')"
  shows "seen m' k \<and> \<not> kept pr k (skb, r)"
  using assms
  by (auto simp: http_filter_def http_match_def lookup_or_init_def seen_def kept_def split: option.splits if_splits)

lemma http_filter_unseen:
  assumes "\<And>m k. admits m k" "m k = None" "http_filter pr admits skb m = (r, m')"
  shows "(m' k = None \<and> \<not> kept pr k (skb, r)) \<or> seen m' k"
  using assms(2,3)
  by (auto simp: http_filter_def http_match_def lookup_or_init_def seen_def kept_def assms(1) split: option.splits if_splits)

lemma filter_run_seen: "seen m k \<Longrightarrow> filter (kept pr k) (zip skbs (fst (filter_run pr admits skbs m))) = []"
proof (induction skbs arbitrary: m)
  case (Cons skb skbs)
  obtain r m' where e: "http_filter pr admits skb m = (r, m')" by fastforce
  then show ?case using http_filter_seen [OF Cons.prems e] Cons.IH [of m'] by (simp add: case_prod_beta Let_def)
qed simp


definition test_key :: Key where
  "test_key = \<lparr>src_ip = 0x0a000001, dst_ip = 0x0a000002, src_port = 12345, dst_port = 80\<rparr>"


text \<open>The XDP program on a sequence of packets.\<close>

fun xdp_run :: "packet list \<Rightarrow> sessions \<Rightarrow> xdp_action list" where
  "xdp_run [] m = []"
| "xdp_run (p # ps) m = (case xdp_prog1 p m of (a, _, m') \<Rightarrow> a # xdp_run ps m')"

definition tcp_of :: "Key \<Rightarrow> packet \<Rightarrow> bool" where
  "tcp_of k p \<longleftrightarrow> 54 \<le> length p \<and> protocol (iphdr_at p 14) = IPPROTO_TCP \<and> xdp_key (iphdr_at p 14) (tcphdr_at p 34) = k"

lemma xdp_prog1_marked:
  assumes "tcp_of k p" "m k = Some \<lparr>timestamp = 2, times = t\<rparr>"
  shows "t \<le> 10 \<Longrightarrow> \<exists>p'. xdp_prog1 p m = (XDP_DROP, p', m(k \<mapsto> \<lparr>timestamp = 2, times = t + 1\<rparr>))"
    and "t > 10 \<Longrightarrow> xdp_prog1 p m = (XDP_PASS, p, m)"
  using assms by (simp_all add: xdp_prog1_def tcp_of_def Let_def)

text \<open>
  C20: Of a session marked for dropping the XDP program drops the packets until eleven are dropped
  in total, and passes every further one.
\<close>

theorem xdp_drops_eleven:
  assumes "\<forall>p\<in>set ps. tcp_of k p" "m k = Some \<lparr>timestamp = 2, times = int t\<rparr>" "t \<le> 11"
  shows "xdp_run ps m =
    replicate (min (length ps) (11 - t)) XDP_DROP @ replicate (length ps - (11 - t)) XDP_PASS"
  using assms
proof (induction ps arbitrary: m t)
  case (Cons p ps)
  have p: "tcp_of k p" using Cons.prems(1) by simp
  show ?case
  proof (cases "t \<le> 10")
    case True
    then obtain p' where e: "xdp_prog1 p m = (XDP_DROP, p', m(k \<mapsto> \<lparr>timestamp = 2, times = int (Suc t)\<rparr>))"
      using xdp_prog1_marked(1) [of k p m "int t", OF p Cons.prems(2)] by (auto simp: add.commute)
    have "11 - t = Suc (11 - Suc t)" using True by simp
    then show ?thesis using Cons.IH [of _ "Suc t"] Cons.prems True by (simp add: e)
  next
    case False
    then show ?thesis
      using xdp_prog1_marked(2) [of k p m "int t", OF p Cons.prems(2)] Cons.IH [of m t] Cons.prems by simp
  qed
qed simp

theorem xdp_drops_eleven_witness:
  "xdp_run (replicate 13 (get_packet 47)) [test_key \<mapsto> \<lparr>timestamp = 2, times = 0\<rparr>]
   = replicate 11 XDP_DROP @ replicate 2 XDP_PASS"
proof -
  have "tcp_of test_key (get_packet 47)" by code_simp
  then show ?thesis
    using xdp_drops_eleven [of "replicate 13 (get_packet 47)" test_key "[test_key \<mapsto> \<lparr>timestamp = 2, times = 0\<rparr>]" 0]
    by simp
qed

section \<open>The policy of the security group\<close>

lemma secure_policy_drop:
  "xdp_secure_policy p = XDP_DROP \<longleftrightarrow>
     54 \<le> length p \<and> be16 p 12 = 0x800 \<and> p ! 23 = 6 \<and> be16 p 36 = 12160 \<and> be16 p 34 \<noteq> 10216"
proof (cases "54 \<le> length p")
  case True
  then show ?thesis
    by (auto simp: xdp_secure_policy_def is_secure_source_def ethhdr_at_def iphdr_at_def tcphdr_at_def Let_def
        field_eq_port field_1 [unfolded One_nat_def])
next
  case False
  then show ?thesis by (auto simp: xdp_secure_policy_def is_secure_source_def)
qed

definition ip_options_packet :: packet where
  "ip_options_packet =
     replicate 12 0 @ [8, 0] @ [0x46, 0, 0, 44, 0, 0, 0, 0, 64, 6, 0, 0, 10, 0, 0, 1, 10, 0, 0, 2] @ [1, 1, 1, 1]
     @ [0x30, 0x39, 0x2f, 0x80] @ replicate 8 0 @ [0x50, 0x02, 0, 0, 0, 0, 0, 0]"

text \<open>
  A packet with IP options escapes the policy: its TCP header starts 24 bytes into the IP packet
  and is addressed to port 12160 from another port than 10216, and the program passes it.
\<close>

theorem xdp_secure_policy_options:
  "ihl (iphdr_at ip_options_packet 14) = 6
   \<and> be16 ip_options_packet (14 + 4 * 6 + 2) = 12160 \<and> be16 ip_options_packet (14 + 4 * 6) \<noteq> 10216
   \<and> xdp_secure_policy ip_options_packet = XDP_PASS"
proof -
  have "xdp_secure_policy ip_options_packet \<noteq> XDP_DROP"
    by (simp add: secure_policy_drop) (simp add: ip_options_packet_def be16_def nth_append)
  then have "xdp_secure_policy ip_options_packet = XDP_PASS"
    by (simp add: xdp_secure_policy_def split: if_splits)
  moreover have "(field ip_options_packet 14 1 :: u8) = 0x46"
    by (subst field_1) (simp_all add: ip_options_packet_def nth_append)
  ultimately show ?thesis
    by (simp add: iphdr_at_def) (simp add: ip_options_packet_def be16_def nth_append)
qed

text \<open>
  C21: The security group drops exactly the IPv4 TCP packets to port 12160 that do not come from port
  10216, the ports being read in network byte order behind a header of 20 bytes.
\<close>

theorem xdp_secure_policy_correct:
  "xdp_secure_policy p = XDP_DROP \<longleftrightarrow>
     54 \<le> length p \<and> be16 p 12 = 0x800 \<and> p ! 23 = 6 \<and> be16 p 36 = 12160 \<and> be16 p 34 \<noteq> 10216"
  by (rule secure_policy_drop)

end
