(* ===== verification/Bpf_Load.thy ===== *)
theory Bpf_Load
  imports Prelude "HOL-Library.Sublist"
begin

text \<open>
  The loader \<^verbatim>\<open>bpf_load.c\<close> of \<^verbatim>\<open>src/kprobe_file_read\<close> and the variant of
  \<^verbatim>\<open>src/fexit_example\<close>: it reads the sections of an ELF object, creates the maps, rewrites
  the instructions that refer to maps, and loads and attaches the programs.  The ELF object is what
  libelf returns about it, the buffers of the section data being part of the state because the
  relocation writes into them.  The system calls are parameters over a world \<open>'w\<close>.  A step that the
  C standard leaves undefined (an access outside an array or a buffer, a division by zero, a use of
  an uninitialised variable) and a failed assertion are the values of type \<open>fault\<close>.
\<close>

section \<open>Data\<close>

datatype fault = Outside string | Divide_by_zero | Uninitialised string | Assertion string

abbreviation MAX_MAPS :: nat where "MAX_MAPS \<equiv> 32"
abbreviation MAX_PROGS :: nat where "MAX_PROGS \<equiv> 32"

record bpf_load_map_def =
  map_type :: u32
  key_size :: u32
  value_size :: u32
  max_entries :: u32
  map_flags :: u32
  inner_map_idx :: u32
  numa_node :: u32

record bpf_map_data =
  fd :: int
  name :: string
  elf_offset :: nat
  map_def :: bpf_load_map_def

datatype bpf_prog_type =
    SOCKET_FILTER | KPROBE | TRACEPOINT | RAW_TRACEPOINT | XDP | PERF_EVENT | CGROUP_SKB
  | CGROUP_SOCK | SOCK_OPS | SK_SKB | SK_MSG | TRACING

text \<open>What libelf tells about the object: a section header, its name and its data.\<close>

record elf_section =
  shdr_ok :: bool
  sh_name :: "string option"
  sh_type :: nat
  sh_flags :: nat
  sh_size :: nat
  sh_entsize :: nat
  sh_link :: nat
  sh_info :: nat
  has_data :: bool
  more_data :: bool

record elf_sym =
  st_name :: nat
  st_value :: nat
  st_shndx :: int

record elf_rel =
  r_offset :: nat
  r_sym :: nat

record elf_object =
  e_shnum :: nat
  elf_getscn :: "nat \<Rightarrow> elf_section option"
  elf_strptr :: "nat \<Rightarrow> nat \<Rightarrow> string option"
  gelf_getsym :: "nat \<Rightarrow> nat \<Rightarrow> elf_sym option"
  gelf_getrel :: "nat \<Rightarrow> nat \<Rightarrow> elf_rel option"

abbreviation SHT_PROGBITS :: nat where "SHT_PROGBITS \<equiv> 1"
abbreviation SHT_SYMTAB :: nat where "SHT_SYMTAB \<equiv> 2"
abbreviation SHT_REL :: nat where "SHT_REL \<equiv> 9"
abbreviation SHF_EXECINSTR :: nat where "SHF_EXECINSTR \<equiv> 4"

record 'w loader =
  license :: "u8 list"
  kern_version :: u32
  processed_sec :: "bool list"
  map_fd :: "int list"
  prog_fd :: "int list"
  event_fd :: "int list"
  prog_cnt :: nat
  prog_array_fd :: int
  map_data :: "bpf_map_data list"
  map_data_count :: int
  d_buf :: "nat \<Rightarrow> u8 list"
  env :: 'w

text \<open>The services of the system.\<close>

record 'w sys =
  open_file :: "string \<Rightarrow> nat \<Rightarrow> 'w \<Rightarrow> int \<times> 'w"
  write_fd :: "int \<Rightarrow> string \<Rightarrow> 'w \<Rightarrow> int \<times> 'w"
  read_fd :: "int \<Rightarrow> nat \<Rightarrow> 'w \<Rightarrow> (int \<times> string) \<times> 'w"
  close_fd :: "int \<Rightarrow> 'w \<Rightarrow> 'w"
  map_update_elem :: "int \<Rightarrow> int \<Rightarrow> int \<Rightarrow> 'w \<Rightarrow> int \<times> 'w"
  load_program :: "bpf_prog_type \<Rightarrow> u8 list \<Rightarrow> nat \<Rightarrow> u8 list \<Rightarrow> u32 \<Rightarrow> 'w \<Rightarrow> int \<times> 'w"
  raw_tracepoint_open :: "string \<Rightarrow> int \<Rightarrow> 'w \<Rightarrow> int \<times> 'w"
  perf_event_open :: "int \<Rightarrow> 'w \<Rightarrow> int \<times> 'w"
  ioctl_enable :: "int \<Rightarrow> 'w \<Rightarrow> int \<times> 'w"
  ioctl_set_bpf :: "int \<Rightarrow> int \<Rightarrow> 'w \<Rightarrow> int \<times> 'w"
  create_map_node :: "string \<Rightarrow> bpf_load_map_def \<Rightarrow> int \<Rightarrow> 'w \<Rightarrow> int \<times> 'w"
  create_map_in_map_node :: "string \<Rightarrow> bpf_load_map_def \<Rightarrow> int \<Rightarrow> int \<Rightarrow> 'w \<Rightarrow> int \<times> 'w"
  calloc_ok :: "'w \<Rightarrow> bool \<times> 'w"
  strdup_errno :: "string \<Rightarrow> 'w \<Rightarrow> int option \<times> 'w"
  elf_version_ok :: "'w \<Rightarrow> bool"
  elf_begin :: "int \<Rightarrow> 'w \<Rightarrow> (elf_object \<times> (nat \<Rightarrow> u8 list)) option \<times> 'w"
  ehdr_ok :: "elf_object \<Rightarrow> bool"

definition call :: "('w \<Rightarrow> 'a \<times> 'w) \<Rightarrow> 'w loader \<Rightarrow> 'a \<times> 'w loader" where
  "call f s = (let (r, w) = f (env s) in (r, s\<lparr>env := w\<rparr>))"

text \<open>Array stores and loads with the bounds the arrays have.\<close>

definition put :: "string \<Rightarrow> 'a list \<Rightarrow> nat \<Rightarrow> 'a \<Rightarrow> fault + 'a list" where
  "put what xs i v = (if i < length xs then Inr (xs[i := v]) else Inl (Outside what))"

definition get :: "string \<Rightarrow> 'a list \<Rightarrow> nat \<Rightarrow> fault + 'a" where
  "get what xs i = (if i < length xs then Inr (xs ! i) else Inl (Outside what))"

section \<open>C strings\<close>

definition digit :: "char \<Rightarrow> bool" where
  "digit c \<longleftrightarrow> 48 \<le> (of_char c :: nat) \<and> (of_char c :: nat) \<le> 57"

text \<open>The character at an index of a string with its terminating zero; further on is outside.\<close>

definition char_at :: "string \<Rightarrow> nat \<Rightarrow> fault + char" where
  "char_at ev i =
     (if i < length ev then Inr (ev ! i)
      else if i = length ev then Inr (CHR 0x00) else Inl (Outside ''event''))"

primrec digits_value :: "string \<Rightarrow> nat \<Rightarrow> nat" where
  "digits_value [] acc = acc"
| "digits_value (c # cs) acc = (if digit c then digits_value cs (10 * acc + (of_char c - 48)) else acc)"

text \<open>
  \<^verbatim>\<open>atoi\<close> as the C library has it: white space, a sign, digits; the \<^verbatim>\<open>long\<close> value saturates and is
  truncated to \<^verbatim>\<open>int\<close>.
\<close>

definition atoi :: "string \<Rightarrow> int" where
  "atoi str =
     (let t = dropWhile (\<lambda>c. c = CHR '' '' \<or> 9 \<le> (of_char c :: nat) \<and> (of_char c :: nat) \<le> 13) str;
          neg = (t \<noteq> [] \<and> hd t = CHR ''-'');
          u = (if t \<noteq> [] \<and> (hd t = CHR ''-'' \<or> hd t = CHR ''+'') then tl t else t);
          v = int (digits_value u 0);
          l = (if neg then max (- v) (- (2 ^ 63)) else min v (2 ^ 63 - 1))
      in sint (word_of_int l :: u32))"

definition c_string :: "string \<Rightarrow> string" where
  "c_string cs = takeWhile (\<lambda>c. c \<noteq> CHR 0x00) cs"

abbreviation DEBUGFS :: string where "DEBUGFS \<equiv> ''/sys/kernel/debug/tracing/''"

section \<open>Attaching a program\<close>

definition populate_prog_array :: "'w sys \<Rightarrow> string \<Rightarrow> int \<Rightarrow> 'w loader \<Rightarrow> int \<times> 'w loader" where
  "populate_prog_array io ev pfd s =
     (let (err, s) = call (map_update_elem io (prog_array_fd s) (atoi ev) pfd) s
      in (if err < 0 then - 1 else 0, s))"

definition O_RDONLY :: nat where "O_RDONLY = 0"
definition O_WRONLY :: nat where "O_WRONLY = 1"
definition O_TRUNC :: nat where "O_TRUNC = 0x200"
definition O_APPEND :: nat where "O_APPEND = 0x400"

definition write_kprobe_events :: "'w sys \<Rightarrow> string \<Rightarrow> 'w loader \<Rightarrow> int \<times> 'w loader" where
  "write_kprobe_events io val s =
     (let flags = (if val = [] then O_WRONLY + O_TRUNC else O_WRONLY + O_APPEND);
          (f, s) = call (open_file io (DEBUGFS @ ''kprobe_events'') flags) s;
          (ret, s) = call (write_fd io f val) s
      in (ret, s\<lparr>env := close_fd io f (env s)\<rparr>))"

definition prog_type_of :: "string \<Rightarrow> bpf_prog_type option" where
  "prog_type_of ev =
     (if prefix ''socket'' ev then Some SOCKET_FILTER
      else if prefix ''kprobe/'' ev \<or> prefix ''kretprobe/'' ev then Some KPROBE
      else if prefix ''tracepoint/'' ev then Some TRACEPOINT
      else if prefix ''raw_tracepoint/'' ev then Some RAW_TRACEPOINT
      else if prefix ''xdp'' ev then Some XDP
      else if prefix ''perf_event'' ev then Some PERF_EVENT
      else if prefix ''cgroup/skb'' ev then Some CGROUP_SKB
      else if prefix ''cgroup/sock'' ev then Some CGROUP_SOCK
      else if prefix ''sockops'' ev then Some SOCK_OPS
      else if prefix ''sk_skb'' ev then Some SK_SKB
      else if prefix ''sk_msg'' ev then Some SK_MSG
      else None)"

text \<open>Programs of these types may be stored in the program array, at the index the section names.\<close>

definition attach_numbered :: "'w sys \<Rightarrow> string \<Rightarrow> nat \<Rightarrow> int \<Rightarrow> 'w loader \<Rightarrow> fault + (int \<times> 'w loader)" where
  "attach_numbered io ev skip pfd s =
     bindE (char_at ev skip) (\<lambda>c.
       if c \<noteq> CHR ''/'' then Inr (0, s)
       else bindE (char_at ev (skip + 1)) (\<lambda>d.
         if \<not> digit d then Inr (- 1, s)
         else Inr (populate_prog_array io (drop (skip + 1) ev) pfd s)))"

text \<open>The last part of \<^verbatim>\<open>load_and_attach\<close>: the perf event whose id is in the file \<open>path\<close>.\<close>

definition attach_perf_event :: "'w sys \<Rightarrow> string \<Rightarrow> int \<Rightarrow> 'w loader \<Rightarrow> fault + (int \<times> 'w loader)" where
  "attach_perf_event io path pfd s =
     (let (efd, s) = call (open_file io path O_RDONLY) s in
      if efd < 0 then Inr (- 1, s)
      else let ((err, bytes), s) = call (read_fd io efd 256) s in
        if err < 0 \<or> 256 \<le> err then Inr (- 1, s)
        else let s = s\<lparr>env := close_fd io efd (env s)\<rparr>;
                 ident = atoi (c_string (take (nat err) bytes));
                 (efd, s) = call (perf_event_open io ident) s in
          if efd < 0 then Inr (- 1, s)
          else bindE (put ''event_fd'' (event_fd s) (prog_cnt s - 1) efd) (\<lambda>efds.
            let s = s\<lparr>event_fd := efds\<rparr>; (err, s) = call (ioctl_enable io efd) s in
            if err < 0 then Inr (- 1, s)
            else let (err, s) = call (ioctl_set_bpf io efd pfd) s
                 in Inr (if err < 0 then - 1 else 0, s)))"

text \<open>\<^verbatim>\<open>buf\<close> has 256 bytes; \<^verbatim>\<open>snprintf\<close> truncates, \<^verbatim>\<open>strcat\<close> does not.\<close>

definition snprintf_buf :: "string \<Rightarrow> string" where
  "snprintf_buf cs = take 255 cs"

definition strcat_buf :: "string \<Rightarrow> fault + string" where
  "strcat_buf cs = (if length cs < 256 then Inr cs else Inl (Outside ''buf''))"

definition create_kprobe :: "'w sys \<Rightarrow> bool \<Rightarrow> string \<Rightarrow> 'w loader \<Rightarrow> string option \<times> 'w loader" where
  "create_kprobe io is_kprobe ev s =
     (let c = (if is_kprobe then CHR ''p'' else CHR ''r'');
          (done_x64, s) =
            (if prefix ''sys_'' ev
             then let (err, s) = write_kprobe_events io
                        (snprintf_buf (c # '':__x64_'' @ ev @ '' __x64_'' @ ev)) s
                  in (0 \<le> err, s)
             else (False, s))
      in if done_x64 then (Some ''__x64_'', s)
         else let (err, s) = write_kprobe_events io (snprintf_buf (c # '':'' @ ev @ '' '' @ ev)) s
              in if err < 0 then (None, s) else (Some '''', s))"

definition attach_kprobe :: "'w sys \<Rightarrow> bool \<Rightarrow> string \<Rightarrow> int \<Rightarrow> 'w loader \<Rightarrow> fault + (int \<times> 'w loader)" where
  "attach_kprobe io is_kprobe ev pfd s =
     (if ev = [] then Inr (- 1, s)
      else if digit (hd ev) then Inr (populate_prog_array io ev pfd s)
      else case create_kprobe io is_kprobe ev s of
             (None, s) \<Rightarrow> Inr (- 1, s)
           | (Some event_prefix, s) \<Rightarrow>
               bindE (strcat_buf (DEBUGFS @ ''events/kprobes/'' @ event_prefix @ ev @ ''/id'')) (\<lambda>path.
               attach_perf_event io path pfd s))"

definition attach_tracepoint :: "'w sys \<Rightarrow> string \<Rightarrow> int \<Rightarrow> 'w loader \<Rightarrow> fault + (int \<times> 'w loader)" where
  "attach_tracepoint io ev pfd s =
     (if ev = [] then Inr (- 1, s)
      else bindE (strcat_buf (DEBUGFS @ ''events/'' @ ev @ ''/id'')) (\<lambda>path.
           attach_perf_event io path pfd s))"

definition attach :: "'w sys \<Rightarrow> string \<Rightarrow> int \<Rightarrow> 'w loader \<Rightarrow> fault + (int \<times> 'w loader)" where
  "attach io ev pfd s =
     (if prefix ''xdp'' ev \<or> prefix ''perf_event'' ev \<or> prefix ''cgroup/skb'' ev \<or> prefix ''cgroup/sock'' ev
        then Inr (0, s)
      else if prefix ''socket'' ev then attach_numbered io ev 6 pfd s
      else if prefix ''sockops'' ev \<or> prefix ''sk_skb'' ev \<or> prefix ''sk_msg'' ev
        then attach_numbered io ev 7 pfd s
      else if prefix ''raw_tracepoint/'' ev then
        let (efd, s) = call (raw_tracepoint_open io (drop 15 ev) pfd) s in
        if efd < 0 then Inr (- 1, s)
        else bindE (put ''event_fd'' (event_fd s) (prog_cnt s - 1) efd) (\<lambda>efds.
             Inr (0, s\<lparr>event_fd := efds\<rparr>))
      else if prefix ''kprobe/'' ev then attach_kprobe io True (drop 7 ev) pfd s
      else if prefix ''kretprobe/'' ev then attach_kprobe io False (drop 10 ev) pfd s
      else if prefix ''tracepoint/'' ev then attach_tracepoint io (drop 11 ev) pfd s
      else Inl (Uninitialised ''buf''))"

definition load_prog :: "'w sys \<Rightarrow> bpf_prog_type \<Rightarrow> u8 list \<Rightarrow> 'w loader \<Rightarrow> fault + (int option \<times> 'w loader)" where
  "load_prog io ty prog s =
     (if prog_cnt s = MAX_PROGS then Inr (None, s)
      else let (pfd, s) = call (load_program io ty prog (length prog div 8) (license s) (kern_version s)) s in
        if pfd < 0 then Inr (None, s)
        else bindE (put ''prog_fd'' (prog_fd s) (prog_cnt s) pfd) (\<lambda>pfds.
             Inr (Some pfd, s\<lparr>prog_fd := pfds, prog_cnt := prog_cnt s + 1\<rparr>)))"

definition load_and_attach :: "'w sys \<Rightarrow> string \<Rightarrow> u8 list \<Rightarrow> 'w loader \<Rightarrow> fault + (int \<times> 'w loader)" where
  "load_and_attach io ev prog s =
     (case prog_type_of ev of None \<Rightarrow> Inr (- 1, s)
      | Some ty \<Rightarrow> bindE (load_prog io ty prog s) (\<lambda>(r, s).
          case r of None \<Rightarrow> Inr (- 1, s) | Some pfd \<Rightarrow> attach io ev pfd s))"

text \<open>
  The variant of \<^verbatim>\<open>fexit_example\<close> also accepts sections named \<^verbatim>\<open>fexit...\<close>.  No branch attaches such
  a program, so the code goes on to open the file named by the uninitialised \<^verbatim>\<open>buf\<close>.
\<close>

definition prog_type_of_fexit :: "string \<Rightarrow> bpf_prog_type option" where
  "prog_type_of_fexit ev =
     (case prog_type_of ev of Some ty \<Rightarrow> Some ty
      | None \<Rightarrow> if prefix ''fexit'' ev then Some TRACING else None)"

definition load_and_attach_fexit :: "'w sys \<Rightarrow> string \<Rightarrow> u8 list \<Rightarrow> 'w loader \<Rightarrow> fault + (int \<times> 'w loader)" where
  "load_and_attach_fexit io ev prog s =
     (case prog_type_of_fexit ev of None \<Rightarrow> Inr (- 1, s)
      | Some ty \<Rightarrow> bindE (load_prog io ty prog s) (\<lambda>(r, s).
          case r of None \<Rightarrow> Inr (- 1, s) | Some pfd \<Rightarrow> attach io ev pfd s))"

section \<open>Creating the maps\<close>

abbreviation BPF_MAP_TYPE_PROG_ARRAY :: u32 where "BPF_MAP_TYPE_PROG_ARRAY \<equiv> 3"
abbreviation BPF_MAP_TYPE_ARRAY_OF_MAPS :: u32 where "BPF_MAP_TYPE_ARRAY_OF_MAPS \<equiv> 12"
abbreviation BPF_MAP_TYPE_HASH_OF_MAPS :: u32 where "BPF_MAP_TYPE_HASH_OF_MAPS \<equiv> 13"
abbreviation BPF_F_NUMA_NODE :: u32 where "BPF_F_NUMA_NODE \<equiv> 4"

definition create_map :: "'w sys \<Rightarrow> bpf_map_data \<Rightarrow> 'w loader \<Rightarrow> fault + (int \<times> 'w loader)" where
  "create_map io m s =
     (let d = map_def m;
          numa = (if map_flags d AND BPF_F_NUMA_NODE \<noteq> 0 then sint (numa_node d) else - 1) in
      if map_type d = BPF_MAP_TYPE_ARRAY_OF_MAPS \<or> map_type d = BPF_MAP_TYPE_HASH_OF_MAPS then
        bindE (get ''map_fd'' (map_fd s) (unat (inner_map_idx d))) (\<lambda>inner_map_fd.
        Inr (call (create_map_in_map_node io (name m) d inner_map_fd numa) s))
      else Inr (call (create_map_node io (name m) d numa) s))"

text \<open>
  One round of the loop of \<^verbatim>\<open>load_maps\<close>; the value is whether the map could be created.
\<close>

definition load_map :: "'w sys \<Rightarrow> (bpf_map_data \<Rightarrow> nat \<Rightarrow> bpf_map_data) option \<Rightarrow> nat \<Rightarrow> 'w loader
    \<Rightarrow> fault + (bool \<times> 'w loader)" where
  "load_map io fixup_map i s =
     bindE (get ''maps'' (map_data s) i) (\<lambda>m.
     let m = (case fixup_map of None \<Rightarrow> m | Some f \<Rightarrow> f m i);
         s = s\<lparr>map_data := (map_data s)[i := m]\<rparr> in
     if fixup_map \<noteq> None \<and> fd m \<noteq> - 1 then
       bindE (put ''map_fd'' (map_fd s) i (fd m)) (\<lambda>fds. Inr (True, s\<lparr>map_fd := fds\<rparr>))
     else
       bindE (create_map io m s) (\<lambda>(mfd, s).
       bindE (put ''map_fd'' (map_fd s) i mfd) (\<lambda>fds.
       let s = s\<lparr>map_fd := fds\<rparr> in
       if mfd < 0 then Inr (False, s)
       else let s = s\<lparr>map_data := (map_data s)[i := m\<lparr>fd := mfd\<rparr>]\<rparr>
            in Inr (True, if map_type (map_def m) = BPF_MAP_TYPE_PROG_ARRAY then s\<lparr>prog_array_fd := mfd\<rparr> else s))))"

fun load_maps_from :: "'w sys \<Rightarrow> (bpf_map_data \<Rightarrow> nat \<Rightarrow> bpf_map_data) option \<Rightarrow> nat \<Rightarrow> nat \<Rightarrow> 'w loader
    \<Rightarrow> fault + (int \<times> 'w loader)" where
  "load_maps_from io fixup_map i 0 s = Inr (0, s)"
| "load_maps_from io fixup_map i (Suc n) s =
     bindE (load_map io fixup_map i s) (\<lambda>(ok, s).
       if ok then load_maps_from io fixup_map (i + 1) n s else Inr (1, s))"

definition load_maps :: "'w sys \<Rightarrow> nat \<Rightarrow> (bpf_map_data \<Rightarrow> nat \<Rightarrow> bpf_map_data) option \<Rightarrow> 'w loader
    \<Rightarrow> fault + (int \<times> 'w loader)" where
  "load_maps io nr_maps fixup_map s = load_maps_from io fixup_map 0 nr_maps s"

section \<open>Sections\<close>

text \<open>\<^verbatim>\<open>get_sec\<close>: the error code, or the name and the header; the data is the buffer of that section.\<close>

definition get_sec :: "elf_object \<Rightarrow> nat \<Rightarrow> int + (string \<times> elf_section)" where
  "get_sec elf i =
     (case elf_getscn elf i of None \<Rightarrow> Inl 1
      | Some sh \<Rightarrow>
          if \<not> shdr_ok sh then Inl 2
          else case sh_name sh of None \<Rightarrow> Inl 3
               | Some nm \<Rightarrow> if sh_size sh = 0 then Inl 3
                            else if \<not> has_data sh \<or> more_data sh then Inl 4
                            else Inr (nm, sh))"

section \<open>Relocation\<close>

text \<open>\<^verbatim>\<open>BPF_LD | BPF_IMM | BPF_DW\<close>\<close>

definition BPF_LD_IMM64 :: u8 where "BPF_LD_IMM64 = 0x18"
definition BPF_PSEUDO_MAP_FD :: u8 where "BPF_PSEUDO_MAP_FD = 1"

record bpf_insn =
  code :: u8
  dst_reg :: u8
  src_reg :: u8
  off :: u16
  imm :: u32

definition insn_at :: "u8 list \<Rightarrow> nat \<Rightarrow> bpf_insn" where
  "insn_at b i =
     \<lparr>code = b ! (8 * i), dst_reg = b ! (8 * i + 1) AND 0xf, src_reg = drop_bit 4 (b ! (8 * i + 1)),
      off = le_word (take 2 (drop (8 * i + 2) b)), imm = le_word (take 4 (drop (8 * i + 4) b))\<rparr>"

definition set_src_reg :: "u8 list \<Rightarrow> nat \<Rightarrow> u8 \<Rightarrow> u8 list" where
  "set_src_reg b i r = b[8 * i + 1 := (b ! (8 * i + 1) AND 0xf) OR push_bit 4 r]"

definition set_imm :: "u8 list \<Rightarrow> nat \<Rightarrow> u32 \<Rightarrow> u8 list" where
  "set_imm b i v = take (8 * i + 4) b @ le_bytes 4 v @ drop (8 * i + 8) b"

fun find_map :: "bpf_map_data list \<Rightarrow> nat \<Rightarrow> bpf_map_data option" where
  "find_map [] v = None"
| "find_map (m # ms) v = (if elf_offset m = v then Some m else find_map ms v)"

text \<open>
  One relocation: \<open>Inr (True, b)\<close> goes on with the buffer \<open>b\<close>, \<open>Inr (False, b)\<close> is the return value 1.
  \<open>maps\<close> are the first \<open>nr_maps\<close> entries of \<^verbatim>\<open>map_data\<close>.
\<close>

definition apply_relo :: "elf_object \<Rightarrow> nat \<Rightarrow> nat \<Rightarrow> bpf_map_data list \<Rightarrow> nat \<Rightarrow> u8 list
    \<Rightarrow> fault + (bool \<times> u8 list)" where
  "apply_relo elf data symbols maps i b =
     (case gelf_getrel elf data i of None \<Rightarrow> Inl (Uninitialised ''rel'')
      | Some rel \<Rightarrow>
          let insn_idx = (r_offset rel div 8) mod 2 ^ 32 in
          if \<not> 8 * insn_idx + 8 \<le> length b then Inl (Outside ''insn'')
          else if code (insn_at b insn_idx) \<noteq> BPF_LD_IMM64 then Inr (False, b)
          else let b = set_src_reg b insn_idx BPF_PSEUDO_MAP_FD in
            case gelf_getsym elf symbols (r_sym rel) of None \<Rightarrow> Inl (Uninitialised ''sym'')
            | Some gsym \<Rightarrow>
                case find_map maps (st_value gsym) of None \<Rightarrow> Inr (False, b)
                | Some m \<Rightarrow> Inr (True, set_imm b insn_idx (word_of_int (fd m))))"

fun apply_relos :: "elf_object \<Rightarrow> nat \<Rightarrow> nat \<Rightarrow> bpf_map_data list \<Rightarrow> nat \<Rightarrow> nat \<Rightarrow> u8 list
    \<Rightarrow> fault + (int \<times> u8 list)" where
  "apply_relos elf data symbols maps i 0 b = Inr (0, b)"
| "apply_relos elf data symbols maps i (Suc n) b =
     bindE (apply_relo elf data symbols maps i b) (\<lambda>(ok, b).
       if ok then apply_relos elf data symbols maps (i + 1) n b else Inr (1, b))"

definition parse_relo_and_apply :: "elf_object \<Rightarrow> nat \<Rightarrow> nat \<Rightarrow> elf_section \<Rightarrow> bpf_map_data list \<Rightarrow> u8 list
    \<Rightarrow> fault + (int \<times> u8 list)" where
  "parse_relo_and_apply elf data symbols shdr maps b =
     (if sh_entsize shdr = 0 then Inl Divide_by_zero
      else apply_relos elf data symbols maps 0 (sh_size shdr div sh_entsize shdr) b)"

section \<open>The maps section\<close>

definition cmp_symbols :: "elf_sym \<Rightarrow> elf_sym \<Rightarrow> int" where
  "cmp_symbols lsym rsym =
     (if st_value lsym < st_value rsym then - 1 else if st_value lsym > st_value rsym then 1 else 0)"

text \<open>The loop that collects the symbols of the maps section, with its assertion.\<close>

fun map_symbols :: "elf_object \<Rightarrow> nat \<Rightarrow> int \<Rightarrow> nat \<Rightarrow> nat \<Rightarrow> elf_sym list \<Rightarrow> fault + elf_sym list" where
  "map_symbols elf symbols maps_shndx i 0 acc = Inr acc"
| "map_symbols elf symbols maps_shndx i (Suc n) acc =
     (if \<not> length acc < MAX_MAPS + 1 then Inl (Assertion ''nr_maps < MAX_MAPS+1'')
      else map_symbols elf symbols maps_shndx (i + 1) n
             (case gelf_getsym elf symbols i of None \<Rightarrow> acc
              | Some gsym \<Rightarrow> if st_shndx gsym \<noteq> maps_shndx then acc else acc @ [gsym]))"

definition map_def_of_bytes :: "u8 list \<Rightarrow> bpf_load_map_def" where
  "map_def_of_bytes bs =
     (let b = take 28 (bs @ replicate 28 0); w = \<lambda>i. le_word (take 4 (drop (4 * i) b)) :: u32
      in \<lparr>map_type = w 0, key_size = w 1, value_size = w 2, max_entries = w 3,
          map_flags = w 4, inner_map_idx = w 5, numa_node = w 6\<rparr>)"

abbreviation EINVAL_c :: int where "EINVAL_c \<equiv> 22"
abbreviation EFBIG_c :: int where "EFBIG_c \<equiv> 27"

text \<open>
  One round of the copying loop: \<open>Inr (None, s)\<close> goes on, \<open>Inr (Some e, s)\<close> returns \<open>e\<close>.
\<close>

definition load_map_def :: "'w sys \<Rightarrow> elf_object \<Rightarrow> nat \<Rightarrow> u8 list \<Rightarrow> nat \<Rightarrow> nat \<Rightarrow> elf_sym \<Rightarrow> 'w loader
    \<Rightarrow> fault + (int option \<times> 'w loader)" where
  "load_map_def io elf strtabidx data map_sz_elf i gsym s =
     (case elf_strptr elf strtabidx (st_name gsym) of None \<Rightarrow> Inl (Outside ''map_name'')
      | Some map_name \<Rightarrow>
          let (err, s) = call (strdup_errno io map_name) s; map_sz_copy = min map_sz_elf 28;
              offset = st_value gsym in
          bindE (get ''maps'' (map_data s) i) (\<lambda>m.
          case err of Some e \<Rightarrow> Inr (Some (- e), s\<lparr>map_data := (map_data s)[i := m\<lparr>name := []\<rparr>]\<rparr>)
          | None \<Rightarrow>
              if \<not> offset + map_sz_copy \<le> length data then Inl (Outside ''data_maps'')
              else let s = s\<lparr>map_data := (map_data s)[i := m\<lparr>name := map_name, elf_offset := offset,
                             map_def := map_def_of_bytes (take map_sz_copy (drop offset data))\<rparr>]\<rparr> in
                if map_sz_elf \<le> 28 then Inr (None, s)
                else let rest = take (map_sz_elf - 28) (drop (offset + 28) data) in
                  if \<exists>b\<in>set rest. b \<noteq> 0 then Inr (Some (- EFBIG_c), s)
                  else if \<not> offset + map_sz_elf \<le> length data then Inl (Outside ''data_maps'')
                  else Inr (None, s)))"

fun load_map_defs :: "'w sys \<Rightarrow> elf_object \<Rightarrow> nat \<Rightarrow> u8 list \<Rightarrow> nat \<Rightarrow> nat \<Rightarrow> elf_sym list \<Rightarrow> 'w loader
    \<Rightarrow> fault + (int option \<times> 'w loader)" where
  "load_map_defs io elf strtabidx data map_sz_elf i [] s = Inr (None, s)"
| "load_map_defs io elf strtabidx data map_sz_elf i (gsym # syms) s =
     bindE (load_map_def io elf strtabidx data map_sz_elf i gsym s) (\<lambda>(r, s).
       case r of Some e \<Rightarrow> Inr (Some e, s)
       | None \<Rightarrow> load_map_defs io elf strtabidx data map_sz_elf (i + 1) syms s)"

text \<open>
  \<open>maps_shndx\<close> and \<open>symbols\<close> are section indices, \<open>None\<close> when the caller found no such section.
  \<^verbatim>\<open>elf_getdata (scn, NULL)\<close> gives the buffer of the section again.
\<close>

definition load_elf_maps_section :: "'w sys \<Rightarrow> elf_object \<Rightarrow> nat option \<Rightarrow> nat option \<Rightarrow> nat \<Rightarrow> 'w loader
    \<Rightarrow> fault + (int \<times> 'w loader)" where
  "load_elf_maps_section io elf maps_shndx symbols strtabidx s =
     (case maps_shndx of None \<Rightarrow> Inr (- EINVAL_c, s)
      | Some shndx \<Rightarrow>
      case symbols of None \<Rightarrow> Inr (- EINVAL_c, s)
      | Some symtab \<Rightarrow>
      case elf_getscn elf shndx of None \<Rightarrow> Inr (- EINVAL_c, s)
      | Some scn \<Rightarrow>
        if \<not> has_data scn then Inr (- EINVAL_c, s)
        else let data = d_buf s shndx; (ok, s) = call (calloc_ok io) s in
          if \<not> ok then Inl (Outside ''sym'')
          else bindE (map_symbols elf symtab (int shndx) 0 (length (d_buf s symtab) div 24) []) (\<lambda>gsym.
            if gsym = [] then Inl Divide_by_zero
            else let sorted_sym = sort_key st_value gsym; map_sz_elf = length data div length gsym in
              bindE (load_map_defs io elf strtabidx data map_sz_elf 0 sorted_sym s) (\<lambda>(r, s).
              case r of Some e \<Rightarrow> Inr (e, s) | None \<Rightarrow> Inr (int (length gsym), s))))"

section \<open>Loading a file\<close>

text \<open>
  The local variables of \<^verbatim>\<open>do_load_bpf_file\<close> that the first scan sets: \<^verbatim>\<open>maps_shndx\<close> (with
  \<^verbatim>\<open>data_maps\<close>), \<^verbatim>\<open>symbols\<close> and \<^verbatim>\<open>strtabidx\<close>.
\<close>

record scan_vars =
  maps_shndx :: "nat option"
  symtab_shndx :: "nat option"
  strtabidx :: nat

definition mark :: "nat \<Rightarrow> 'w loader \<Rightarrow> fault + 'w loader" where
  "mark i s = bindE (put ''processed_sec'' (processed_sec s) i True) (\<lambda>ps. Inr (s\<lparr>processed_sec := ps\<rparr>))"

definition set_license :: "u8 list \<Rightarrow> 'w loader \<Rightarrow> fault + 'w loader" where
  "set_license bs s =
     (if length bs \<le> length (license s) then Inr (s\<lparr>license := bs @ drop (length bs) (license s)\<rparr>)
      else Inl (Outside ''license''))"

text \<open>One section of the first scan; \<open>None\<close> is the return on a bad version section.\<close>

definition scan_section :: "elf_object \<Rightarrow> nat \<Rightarrow> scan_vars \<Rightarrow> 'w loader \<Rightarrow> fault + (scan_vars option \<times> 'w loader)" where
  "scan_section elf i v s =
     (case get_sec elf i of Inl _ \<Rightarrow> Inr (Some v, s)
      | Inr (shname, shdr) \<Rightarrow>
          if shname = ''license'' then
            bindE (mark i s) (\<lambda>s. bindE (set_license (d_buf s i) s) (\<lambda>s. Inr (Some v, s)))
          else if shname = ''version'' then
            bindE (mark i s) (\<lambda>s.
              if length (d_buf s i) \<noteq> 4 then Inr (None, s)
              else Inr (Some v, s\<lparr>kern_version := le_word (d_buf s i)\<rparr>))
          else if shname = ''maps'' then
            Inr (Some (v\<lparr>maps_shndx := Some i\<rparr>), s\<lparr>map_data := map (\<lambda>m. m\<lparr>fd := - 1\<rparr>) (map_data s)\<rparr>)
          else if sh_type shdr = SHT_SYMTAB then
            Inr (Some (v\<lparr>strtabidx := sh_link shdr, symtab_shndx := Some i\<rparr>), s)
          else Inr (Some v, s))"

fun scan_sections :: "elf_object \<Rightarrow> nat list \<Rightarrow> scan_vars \<Rightarrow> 'w loader \<Rightarrow> fault + (scan_vars option \<times> 'w loader)" where
  "scan_sections elf [] v s = Inr (Some v, s)"
| "scan_sections elf (i # is) v s =
     bindE (scan_section elf i v s) (\<lambda>(r, s).
       case r of None \<Rightarrow> Inr (None, s) | Some v \<Rightarrow> scan_sections elf is v s)"

text \<open>One section of the second scan: a relocation section rewrites the program it is for.\<close>

definition relo_section :: "elf_object \<Rightarrow> nat \<Rightarrow> nat \<Rightarrow> nat \<Rightarrow> 'w loader \<Rightarrow> fault + 'w loader" where
  "relo_section elf symbols nr_maps i s =
     bindE (get ''processed_sec'' (processed_sec s) i) (\<lambda>p.
     if p then Inr s
     else case get_sec elf i of Inl _ \<Rightarrow> Inr s
     | Inr (_, shdr) \<Rightarrow>
       if sh_type shdr \<noteq> SHT_REL then Inr s
       else case get_sec elf (sh_info shdr) of Inl _ \<Rightarrow> Inr s
       | Inr (_, shdr_prog) \<Rightarrow>
         if sh_type shdr_prog \<noteq> SHT_PROGBITS \<or> \<not> bit (sh_flags shdr_prog) 2 then Inr s
         else bindE (mark i s) (\<lambda>s.
              bindE (parse_relo_and_apply elf i symbols shdr (take nr_maps (map_data s)) (d_buf s (sh_info shdr)))
                (\<lambda>(_, b). Inr (s\<lparr>d_buf := (d_buf s)(sh_info shdr := b)\<rparr>))))"

fun relo_sections :: "elf_object \<Rightarrow> nat \<Rightarrow> nat \<Rightarrow> nat list \<Rightarrow> 'w loader \<Rightarrow> fault + 'w loader" where
  "relo_sections elf symbols nr_maps [] s = Inr s"
| "relo_sections elf symbols nr_maps (i # is) s =
     bindE (relo_section elf symbols nr_maps i s) (relo_sections elf symbols nr_maps is)"

definition is_program :: "string \<Rightarrow> bool" where
  "is_program shname \<longleftrightarrow>
     prefix ''kprobe/'' shname \<or> prefix ''kretprobe/'' shname \<or> prefix ''tracepoint/'' shname \<or>
     prefix ''raw_tracepoint/'' shname \<or> prefix ''xdp'' shname \<or> prefix ''perf_event'' shname \<or>
     prefix ''socket'' shname \<or> prefix ''cgroup/'' shname \<or> prefix ''sockops'' shname \<or>
     prefix ''sk_skb'' shname \<or> prefix ''sk_msg'' shname"

definition is_program_fexit :: "string \<Rightarrow> bool" where
  "is_program_fexit shname \<longleftrightarrow> is_program shname \<or> prefix ''fexit'' shname"

text \<open>
  The third scan, over the test \<open>wanted\<close> and the function \<open>load\<close> of the file; \<open>ret\<close> is the C
  variable.
\<close>

fun load_sections :: "(string \<Rightarrow> bool) \<Rightarrow> (string \<Rightarrow> u8 list \<Rightarrow> 'w loader \<Rightarrow> fault + (int \<times> 'w loader))
    \<Rightarrow> elf_object \<Rightarrow> nat list \<Rightarrow> int \<Rightarrow> 'w loader \<Rightarrow> fault + (int \<times> 'w loader)" where
  "load_sections wanted load elf [] ret s = Inr (ret, s)"
| "load_sections wanted load elf (i # is) ret s =
     bindE (get ''processed_sec'' (processed_sec s) i) (\<lambda>p.
     if p then load_sections wanted load elf is ret s
     else case get_sec elf i of Inl _ \<Rightarrow> load_sections wanted load elf is ret s
     | Inr (shname, _) \<Rightarrow>
       if wanted shname then
         bindE (load shname (d_buf s i) s) (\<lambda>(ret, s).
           if ret \<noteq> 0 then Inr (ret, s) else load_sections wanted load elf is ret s)
       else load_sections wanted load elf is ret s)"

text \<open>The maps of the object: \<open>None\<close> when the code jumps to \<^verbatim>\<open>done\<close>, otherwise their number.\<close>

definition load_object_maps :: "'w sys \<Rightarrow> (bpf_map_data \<Rightarrow> nat \<Rightarrow> bpf_map_data) option \<Rightarrow> elf_object
    \<Rightarrow> scan_vars \<Rightarrow> nat \<Rightarrow> 'w loader \<Rightarrow> fault + (nat option \<times> 'w loader)" where
  "load_object_maps io fixup_map elf v symbols s =
     (case maps_shndx v of None \<Rightarrow> Inr (Some 0, s)
      | Some shndx \<Rightarrow>
          bindE (load_elf_maps_section io elf (Some shndx) (Some symbols) (strtabidx v) s) (\<lambda>(nr, s).
          if nr < 0 then Inr (None, s)
          else bindE (load_maps io (nat nr) fixup_map s) (\<lambda>(r, s).
               if r \<noteq> 0 then Inr (None, s)
               else bindE (mark shndx (s\<lparr>map_data_count := nr\<rparr>)) (\<lambda>s. Inr (Some (nat nr), s)))))"

text \<open>What follows the first scan of the sections, up to the label \<^verbatim>\<open>done\<close>; \<open>None\<close> returns 1 at once.\<close>

definition load_scanned :: "(string \<Rightarrow> bool) \<Rightarrow> (string \<Rightarrow> u8 list \<Rightarrow> 'w loader \<Rightarrow> fault + (int \<times> 'w loader))
    \<Rightarrow> 'w sys \<Rightarrow> (bpf_map_data \<Rightarrow> nat \<Rightarrow> bpf_map_data) option \<Rightarrow> elf_object \<Rightarrow> scan_vars option \<Rightarrow> 'w loader
    \<Rightarrow> fault + (int option \<times> 'w loader)" where
  "load_scanned wanted load io fixup_map elf v s =
     (case v of None \<Rightarrow> Inr (None, s)
      | Some v \<Rightarrow>
      case symtab_shndx v of None \<Rightarrow> Inr (Some 1, s)
      | Some symbols \<Rightarrow>
        bindE (load_object_maps io fixup_map elf v symbols s) (\<lambda>(nr, s).
          case nr of None \<Rightarrow> Inr (Some 1, s)
          | Some nr_maps \<Rightarrow>
              bindE (relo_sections elf symbols nr_maps [1..<e_shnum elf] s) (\<lambda>s.
              bindE (load_sections wanted load elf [1..<e_shnum elf] 1 s) (\<lambda>(ret, s). Inr (Some ret, s)))))"

text \<open>Everything between opening the object and the label \<^verbatim>\<open>done\<close>.\<close>

definition load_object :: "(string \<Rightarrow> bool) \<Rightarrow> (string \<Rightarrow> u8 list \<Rightarrow> 'w loader \<Rightarrow> fault + (int \<times> 'w loader))
    \<Rightarrow> 'w sys \<Rightarrow> (bpf_map_data \<Rightarrow> nat \<Rightarrow> bpf_map_data) option \<Rightarrow> elf_object \<Rightarrow> 'w loader
    \<Rightarrow> fault + (int option \<times> 'w loader)" where
  "load_object wanted load io fixup_map elf s =
     (let (_, s) = write_kprobe_events io [] s in
      bindE (scan_sections elf [1..<e_shnum elf] \<lparr>maps_shndx = None, symtab_shndx = None, strtabidx = 0\<rparr> s)
        (\<lambda>(v, s). load_scanned wanted load io fixup_map elf v s))"

definition do_load :: "(string \<Rightarrow> bool) \<Rightarrow> (string \<Rightarrow> u8 list \<Rightarrow> 'w loader \<Rightarrow> fault + (int \<times> 'w loader))
    \<Rightarrow> 'w sys \<Rightarrow> string \<Rightarrow> (bpf_map_data \<Rightarrow> nat \<Rightarrow> bpf_map_data) option \<Rightarrow> 'w loader \<Rightarrow> fault + (int \<times> 'w loader)" where
  "do_load wanted load io path fixup_map s =
     (let s = s\<lparr>kern_version := 0, license := replicate 128 0, processed_sec := replicate 128 False\<rparr> in
      if \<not> elf_version_ok io (env s) then Inr (1, s)
      else let (f, s) = call (open_file io path O_RDONLY) s in
        if f < 0 then Inr (1, s)
        else let (r, s) = call (elf_begin io f) s in
          case r of None \<Rightarrow> Inr (1, s)
          | Some (elf, bufs) \<Rightarrow>
              if \<not> ehdr_ok io elf then Inr (1, s)
              else bindE (load_object wanted load io fixup_map elf (s\<lparr>d_buf := bufs\<rparr>)) (\<lambda>(ret, s).
                case ret of None \<Rightarrow> Inr (1, s)
                | Some ret \<Rightarrow> Inr (ret, s\<lparr>env := close_fd io f (env s)\<rparr>)))"

definition do_load_bpf_file ::
    "'w sys \<Rightarrow> string \<Rightarrow> (bpf_map_data \<Rightarrow> nat \<Rightarrow> bpf_map_data) option \<Rightarrow> 'w loader \<Rightarrow> fault + (int \<times> 'w loader)" where
  "do_load_bpf_file io = do_load is_program (load_and_attach io) io"

definition load_bpf_file :: "'w sys \<Rightarrow> string \<Rightarrow> 'w loader \<Rightarrow> fault + (int \<times> 'w loader)" where
  "load_bpf_file io path s = do_load_bpf_file io path None s"

definition load_bpf_file_fixup_map ::
    "'w sys \<Rightarrow> string \<Rightarrow> (bpf_map_data \<Rightarrow> nat \<Rightarrow> bpf_map_data) \<Rightarrow> 'w loader \<Rightarrow> fault + (int \<times> 'w loader)" where
  "load_bpf_file_fixup_map io path fixup_map s = do_load_bpf_file io path (Some fixup_map) s"

definition do_load_bpf_file_fexit ::
    "'w sys \<Rightarrow> string \<Rightarrow> (bpf_map_data \<Rightarrow> nat \<Rightarrow> bpf_map_data) option \<Rightarrow> 'w loader \<Rightarrow> fault + (int \<times> 'w loader)" where
  "do_load_bpf_file_fexit io = do_load is_program_fexit (load_and_attach_fexit io) io"

section \<open>The programs\<close>

text \<open>
  \<^verbatim>\<open>load.c\<close> of the three directories.  In \<^verbatim>\<open>kprobe_file_read\<close>, \<open>update_comm\<close> is the update of the
  map \<^verbatim>\<open>map_fd[0]\<close> with the process name as key, a buffer of 24 bytes.
\<close>

definition kprobe_main :: "'w sys \<Rightarrow> (int \<Rightarrow> string \<Rightarrow> int \<Rightarrow> 'w \<Rightarrow> int \<times> 'w) \<Rightarrow> string list \<Rightarrow> 'w loader
    \<Rightarrow> fault + (int \<times> 'w loader)" where
  "kprobe_main io update_comm argv s =
     (if length argv < 2 then Inr (1, s)
      else bindE (load_bpf_file io ''bpf_test.o'' s) (\<lambda>(r, s).
        if r \<noteq> 0 then Inr (1, s)
        else if \<not> length (argv ! 1) < 24 then Inl (Outside ''pn.name'')
        else bindE (get ''map_fd'' (map_fd s) 0) (\<lambda>m.
             let (_, s) = call (update_comm m (argv ! 1) 1) s in Inr (0, s))))"

definition systemd_main :: "'w sys \<Rightarrow> 'w loader \<Rightarrow> fault + (int \<times> 'w loader)" where
  "systemd_main io s =
     bindE (load_bpf_file io ''bpf_kern.o'' s) (\<lambda>(r, s). Inr (if r \<noteq> 0 then 1 else 0, s))"

definition fexit_main :: "'w sys \<Rightarrow> 'w loader \<Rightarrow> fault + (int \<times> 'w loader)" where
  "fexit_main io s =
     bindE (do_load_bpf_file_fexit io ''bpf_kern.o'' None s) (\<lambda>(r, s). Inr (if r \<noteq> 0 then 1 else 0, s))"

end
