(* ===== verification/Bpf_Load_Spec.thy ===== *)
theory Bpf_Load_Spec
  imports Bpf_Load "HOL-Library.Multiset"
begin

text \<open>
  What the loader of \<^theory_text>\<open>Bpf_Load\<close> guarantees: the two tables of maps agree, a load keeps the tables
  within their bounds and returns 0 only after it has loaded a program, relocations rewrite exactly the
  loads they are for, and the maps section is read in the order of the offsets.  The locale
  \<open>program_loader\<close> is what the scan over the sections needs of the function that loads one program; both
  variants of that function provide it.
\<close>

unbundle bit_operations_syntax

section \<open>The maps\<close>

lemma call_fields:
  "call f s = (r, s') \<Longrightarrow> map_data s' = map_data s" "call f s = (r, s') \<Longrightarrow> map_fd s' = map_fd s"
  "call f s = (r, s') \<Longrightarrow> prog_fd s' = prog_fd s" "call f s = (r, s') \<Longrightarrow> prog_cnt s' = prog_cnt s"
  "call f s = (r, s') \<Longrightarrow> event_fd s' = event_fd s" "call f s = (r, s') \<Longrightarrow> d_buf s' = d_buf s"
  "call f s = (r, s') \<Longrightarrow> processed_sec s' = processed_sec s" "call f s = (r, s') \<Longrightarrow> prog_array_fd s' = prog_array_fd s"
  by (auto simp: call_def Let_def split: prod.splits)

lemma put_eq_Inr: "put what xs i v = Inr ys \<longleftrightarrow> i < length xs \<and> ys = xs[i := v]"
  by (auto simp: put_def)

lemma get_eq_Inr: "get what xs i = Inr x \<longleftrightarrow> i < length xs \<and> x = xs ! i"
  by (auto simp: get_def)

lemma create_map_fields:
  "create_map io m s = Inr (r, s') \<Longrightarrow> map_data s' = map_data s \<and> map_fd s' = map_fd s"
  by (auto simp: create_map_def Let_def bindE_eq_Inr split: if_splits dest: call_fields)

text \<open>The entry a map has once the caller's hook has seen it, and whether the hook gave it a descriptor.\<close>

definition fixed_up :: "(bpf_map_data \<Rightarrow> nat \<Rightarrow> bpf_map_data) option \<Rightarrow> 'w loader \<Rightarrow> nat \<Rightarrow> bpf_map_data" where
  "fixed_up fixup_map s i = (case fixup_map of None \<Rightarrow> map_data s ! i | Some f \<Rightarrow> f (map_data s ! i) i)"

definition given_fd :: "(bpf_map_data \<Rightarrow> nat \<Rightarrow> bpf_map_data) option \<Rightarrow> 'w loader \<Rightarrow> nat \<Rightarrow> bool" where
  "given_fd fixup_map s i \<longleftrightarrow> fixup_map \<noteq> None \<and> fd (fixed_up fixup_map s i) \<noteq> - 1"

text \<open>A map of maps names its inner map by an index into the table of descriptors.\<close>

definition inner_ok :: "'w loader \<Rightarrow> bpf_map_data \<Rightarrow> bool" where
  "inner_ok s m \<longleftrightarrow>
     (map_type (map_def m) = BPF_MAP_TYPE_ARRAY_OF_MAPS \<or> map_type (map_def m) = BPF_MAP_TYPE_HASH_OF_MAPS
      \<longrightarrow> unat (inner_map_idx (map_def m)) < length (map_fd s))"

lemma create_map_total:
  assumes "inner_ok s m"
  obtains mfd s' where "create_map io m s = Inr (mfd, s')" "map_data s' = map_data s" "map_fd s' = map_fd s"
proof (cases "create_map io m s")
  case (Inl e)
  then show thesis using assms by (auto simp: create_map_def inner_ok_def Let_def get_def split: if_splits)
next
  case (Inr p)
  then show thesis using that create_map_fields by (cases p) blast
qed

lemma load_map_total:
  assumes "i < length (map_data s)" "i < length (map_fd s)" "inner_ok s (fixed_up fixup_map s i)"
  obtains mfd ok s' where "load_map io fixup_map i s = Inr (ok, s')" "ok \<longleftrightarrow> given_fd fixup_map s i \<or> 0 \<le> mfd"
    "given_fd fixup_map s i \<Longrightarrow> mfd = fd (fixed_up fixup_map s i)" "map_fd s' = (map_fd s)[i := mfd]"
    "map_data s' = (map_data s)[i := if ok then (fixed_up fixup_map s i)\<lparr>fd := mfd\<rparr> else fixed_up fixup_map s i]"
proof -
  define m where "m = fixed_up fixup_map s i"
  define s1 where "s1 = s\<lparr>map_data := (map_data s)[i := m]\<rparr>"
  have m: "(case fixup_map of None \<Rightarrow> map_data s ! i | Some f \<Rightarrow> f (map_data s ! i) i) = m"
    by (simp add: m_def fixed_up_def)
  note l = load_map_def [of io fixup_map i s] get_def [of "''maps''" "map_data s" i] assms(1) m s1_def [symmetric]
  have g: "given_fd fixup_map s i \<longleftrightarrow> fixup_map \<noteq> None \<and> fd m \<noteq> - 1" by (simp add: given_fd_def m_def)
  show thesis
  proof (cases "given_fd fixup_map s i")
    case True
    then have "load_map io fixup_map i s = Inr (True, s1\<lparr>map_fd := (map_fd s)[i := fd m]\<rparr>)"
      using assms(2) g by (simp add: l) (simp add: s1_def put_def)
    then show thesis
      using True assms(1) that [of True "s1\<lparr>map_fd := (map_fd s)[i := fd m]\<rparr>" "fd m"] by (simp add: s1_def m_def)
  next
    case False
    have "inner_ok s1 m" using assms(3) by (simp add: inner_ok_def s1_def m_def)
    then obtain mfd s2 where c: "create_map io m s1 = Inr (mfd, s2)"
      and s2: "map_data s2 = (map_data s)[i := m]" "map_fd s2 = map_fd s"
      by (rule create_map_total [where io = io]) (simp add: s1_def)
    define s3 where "s3 = s2\<lparr>map_fd := (map_fd s)[i := mfd]\<rparr>"
    define s4 where "s4 = s3\<lparr>map_data := (map_data s)[i := m\<lparr>fd := mfd\<rparr>]\<rparr>"
    have "load_map io fixup_map i s =
      Inr (if mfd < 0 then (False, s3)
           else (True, if map_type (map_def m) = BPF_MAP_TYPE_PROG_ARRAY then s4\<lparr>prog_array_fd := mfd\<rparr> else s4))"
      using False assms(2) s2 unfolding g
      by (simp add: l c) (auto simp: put_def s3_def s4_def Let_def)
    then show thesis
      using False that [of "0 \<le> mfd" _ mfd] s2 by (simp add: s3_def s4_def m_def split: if_splits)
  qed
qed

text \<open>Table position \<open>j\<close> before and after the maps are created.\<close>

definition table_entry :: "(bpf_map_data \<Rightarrow> nat \<Rightarrow> bpf_map_data) option \<Rightarrow> 'w loader \<Rightarrow> 'w loader \<Rightarrow> nat \<Rightarrow> bool" where
  "table_entry fixup_map s s' j \<longleftrightarrow>
     map_data s' ! j = (fixed_up fixup_map s j)\<lparr>fd := map_fd s' ! j\<rparr>
     \<and> (if given_fd fixup_map s j then map_fd s' ! j = fd (fixed_up fixup_map s j) else 0 \<le> map_fd s' ! j)"

definition same_entry :: "'w loader \<Rightarrow> 'w loader \<Rightarrow> nat \<Rightarrow> bool" where
  "same_entry s s' j \<longleftrightarrow> map_data s' ! j = map_data s ! j \<and> map_fd s' ! j = map_fd s ! j"

lemma fixed_up_same:
  assumes "map_data s' ! j = map_data s ! j"
  shows "fixed_up fixup_map s' j = fixed_up fixup_map s j" "given_fd fixup_map s' j = given_fd fixup_map s j"
  using assms by (simp_all add: fixed_up_def given_fd_def split: option.split)

text \<open>The outcome \<open>r\<close>, \<open>s'\<close> of creating the maps \<open>i\<close> to \<open>i + n - 1\<close> from \<open>s\<close>.\<close>

definition maps_result :: "(bpf_map_data \<Rightarrow> nat \<Rightarrow> bpf_map_data) option \<Rightarrow> nat \<Rightarrow> nat \<Rightarrow> 'w loader \<Rightarrow> int \<Rightarrow> 'w loader \<Rightarrow> bool" where
  "maps_result fixup_map i n s r s' \<longleftrightarrow>
     length (map_data s') = length (map_data s) \<and> length (map_fd s') = length (map_fd s)
     \<and> (\<forall>j. j < i \<or> i + n \<le> j \<longrightarrow> same_entry s s' j)
     \<and> (r = 0 \<and> (\<forall>j. i \<le> j \<longrightarrow> j < i + n \<longrightarrow> table_entry fixup_map s s' j)
        \<or> r = 1 \<and> (\<exists>k. i \<le> k \<and> k < i + n \<and> map_fd s' ! k < 0))"

lemma maps_result_refused:
  assumes "i < length (map_fd s)" "mfd < 0" "map_fd s1 = (map_fd s)[i := mfd]" "map_data s1 = (map_data s)[i := m]"
  shows "maps_result fixup_map i (Suc n) s 1 s1"
proof -
  have "\<exists>k. i \<le> k \<and> k < i + Suc n \<and> map_fd s1 ! k < 0" using assms by (intro exI [of _ i]) simp
  moreover have "same_entry s s1 j" if "j < i \<or> i + Suc n \<le> j" for j
    using that assms(3,4) by (auto simp: same_entry_def)
  ultimately show ?thesis using assms(3,4) by (simp add: maps_result_def)
qed

lemma maps_result_step:
  assumes i: "i < length (map_fd s)" "i < length (map_data s)"
    and s1: "map_fd s1 = (map_fd s)[i := mfd]" "map_data s1 = (map_data s)[i := (fixed_up fixup_map s i)\<lparr>fd := mfd\<rparr>]"
    and g: "if given_fd fixup_map s i then mfd = fd (fixed_up fixup_map s i) else 0 \<le> mfd"
    and r: "maps_result fixup_map (i + 1) n s1 r s'"
  shows "maps_result fixup_map i (Suc n) s r s'"
proof -
  have eq: "map_data s1 ! j = map_data s ! j" "map_fd s1 ! j = map_fd s ! j" if "j \<noteq> i" for j
    using that s1 by simp_all
  have at: "table_entry fixup_map s s' i"
    using r i s1 g by (simp add: maps_result_def same_entry_def table_entry_def)
  have "table_entry fixup_map s s' j \<longleftrightarrow> table_entry fixup_map s1 s' j" if "j \<noteq> i" for j
    using fixed_up_same [OF eq(1) [OF that], of fixup_map] by (simp add: table_entry_def)
  then have "\<forall>j. i \<le> j \<longrightarrow> j < i + Suc n \<longrightarrow> table_entry fixup_map s s' j"
    if "\<forall>j. i + 1 \<le> j \<longrightarrow> j < i + 1 + n \<longrightarrow> table_entry fixup_map s1 s' j"
    using at that by (metis Suc_eq_plus1 Suc_leI add_Suc_right add_Suc_shift le_neq_implies_less)
  moreover have "\<exists>k. i \<le> k \<and> k < i + Suc n \<and> map_fd s' ! k < 0"
    if "\<exists>k. i + 1 \<le> k \<and> k < i + 1 + n \<and> map_fd s' ! k < 0"
    using that by (metis Suc_eq_plus1 Suc_leD add_Suc_right add_Suc_shift)
  moreover have "same_entry s s' j" if "j < i \<or> i + Suc n \<le> j" for j
    using that r eq [of j] by (auto simp: maps_result_def same_entry_def)
  ultimately show ?thesis using r s1 by (auto simp: maps_result_def)
qed

lemma load_maps_from_total:
  assumes "i + n \<le> length (map_data s)" "i + n \<le> length (map_fd s)"
    "\<forall>j. i \<le> j \<longrightarrow> j < i + n \<longrightarrow> inner_ok s (fixed_up fixup_map s j)"
  shows "\<exists>r s'. load_maps_from io fixup_map i n s = Inr (r, s') \<and> maps_result fixup_map i n s r s'"
  using assms
proof (induction n arbitrary: i s)
  case 0
  then show ?case by (simp add: maps_result_def same_entry_def)
next
  case (Suc n)
  have b: "i < length (map_data s)" "i < length (map_fd s)" "inner_ok s (fixed_up fixup_map s i)"
    using Suc.prems by auto
  obtain mfd ok s1 where l: "load_map io fixup_map i s = Inr (ok, s1)"
    and ok: "ok \<longleftrightarrow> given_fd fixup_map s i \<or> 0 \<le> mfd" "given_fd fixup_map s i \<Longrightarrow> mfd = fd (fixed_up fixup_map s i)"
    and fds: "map_fd s1 = (map_fd s)[i := mfd]"
    and mds: "map_data s1 = (map_data s)[i := if ok then (fixed_up fixup_map s i)\<lparr>fd := mfd\<rparr> else fixed_up fixup_map s i]"
    using load_map_total [OF b, of io] by blast
  show ?case
  proof (cases ok)
    case False
    then have "maps_result fixup_map i (Suc n) s 1 s1" using b ok fds mds by (intro maps_result_refused) simp_all
    then show ?thesis using l False by simp
  next
    case True
    have "inner_ok s1 (fixed_up fixup_map s1 j)" if "i + 1 \<le> j" "j < i + 1 + n" for j
    proof -
      have "fixed_up fixup_map s1 j = fixed_up fixup_map s j" using mds that by (intro fixed_up_same) simp
      moreover have "inner_ok s (fixed_up fixup_map s j)" using Suc.prems(3) that by simp
      ultimately show ?thesis using fds by (simp add: inner_ok_def)
    qed
    then have "\<exists>r s'. load_maps_from io fixup_map (i + 1) n s1 = Inr (r, s') \<and> maps_result fixup_map (i + 1) n s1 r s'"
      using Suc.prems(1,2) fds mds by (intro Suc.IH) simp_all
    then obtain r s' where r: "load_maps_from io fixup_map (i + 1) n s1 = Inr (r, s')"
      "maps_result fixup_map (i + 1) n s1 r s'" by blast
    have "maps_result fixup_map i (Suc n) s r s'"
      using True ok by (intro maps_result_step [OF b(2,1) fds _ _ r(2)]) (auto simp: mds)
    then show ?thesis using l r(1) True by simp
  qed
qed


section \<open>What a load keeps of the tables\<close>

text \<open>The arrays have the sizes of their C declarations and the program counter stays in them.\<close>

definition loader_ok :: "'w loader \<Rightarrow> bool" where
  "loader_ok s \<longleftrightarrow> prog_cnt s \<le> MAX_PROGS \<and> length (prog_fd s) = MAX_PROGS \<and> length (event_fd s) = MAX_PROGS
     \<and> length (map_fd s) = MAX_MAPS \<and> length (map_data s) = MAX_MAPS"

text \<open>A step that loads no program.\<close>

definition keeps_progs :: "'w loader \<Rightarrow> 'w loader \<Rightarrow> bool" where
  "keeps_progs s s' \<longleftrightarrow> prog_cnt s' = prog_cnt s \<and> prog_fd s' = prog_fd s
     \<and> length (event_fd s') = length (event_fd s) \<and> length (map_fd s') = length (map_fd s)
     \<and> length (map_data s') = length (map_data s)"

text \<open>A step that may load programs: those loaded before stay, the new ones have a descriptor.\<close>

definition adds_progs :: "'w loader \<Rightarrow> 'w loader \<Rightarrow> bool" where
  "adds_progs s s' \<longleftrightarrow> loader_ok s' \<and> prog_cnt s \<le> prog_cnt s'
     \<and> (\<forall>j. j < prog_cnt s \<longrightarrow> prog_fd s' ! j = prog_fd s ! j)
     \<and> (\<forall>j. prog_cnt s \<le> j \<longrightarrow> j < prog_cnt s' \<longrightarrow> 0 \<le> prog_fd s' ! j)"

lemma keeps_refl [simp]: "keeps_progs s s"
  by (simp add: keeps_progs_def)

lemma keeps_trans: "keeps_progs s t \<Longrightarrow> keeps_progs t u \<Longrightarrow> keeps_progs s u"
  by (simp add: keeps_progs_def)

lemma keeps_adds: "keeps_progs s t \<Longrightarrow> loader_ok s \<Longrightarrow> adds_progs s t"
  by (simp add: keeps_progs_def adds_progs_def loader_ok_def)

lemma adds_ok: "adds_progs s t \<Longrightarrow> loader_ok t"
  by (simp add: adds_progs_def)

lemma adds_trans: "adds_progs s t \<Longrightarrow> adds_progs t u \<Longrightarrow> adds_progs s u"
  unfolding adds_progs_def
  by (metis (no_types, opaque_lifting) linorder_not_le order_less_le_trans order_trans)

lemma keeps_fields [simp]:
  "keeps_progs s (t\<lparr>env := w\<rparr>) \<longleftrightarrow> keeps_progs s t" "keeps_progs s (t\<lparr>kern_version := k\<rparr>) \<longleftrightarrow> keeps_progs s t"
  "keeps_progs s (t\<lparr>license := l\<rparr>) \<longleftrightarrow> keeps_progs s t" "keeps_progs s (t\<lparr>processed_sec := p\<rparr>) \<longleftrightarrow> keeps_progs s t"
  "keeps_progs s (t\<lparr>d_buf := b\<rparr>) \<longleftrightarrow> keeps_progs s t" "keeps_progs s (t\<lparr>prog_array_fd := f\<rparr>) \<longleftrightarrow> keeps_progs s t"
  "keeps_progs s (t\<lparr>map_data_count := n\<rparr>) \<longleftrightarrow> keeps_progs s t"
  "keeps_progs (s\<lparr>env := w\<rparr>) t \<longleftrightarrow> keeps_progs s t" "keeps_progs (s\<lparr>kern_version := k\<rparr>) t \<longleftrightarrow> keeps_progs s t"
  "keeps_progs (s\<lparr>license := l\<rparr>) t \<longleftrightarrow> keeps_progs s t" "keeps_progs (s\<lparr>processed_sec := p\<rparr>) t \<longleftrightarrow> keeps_progs s t"
  "keeps_progs (s\<lparr>d_buf := b\<rparr>) t \<longleftrightarrow> keeps_progs s t" "keeps_progs (s\<lparr>map_data_count := n\<rparr>) t \<longleftrightarrow> keeps_progs s t"
  by (simp_all add: keeps_progs_def)

lemma call_keeps: "call f s = (r, s') \<Longrightarrow> keeps_progs s s'"
  by (simp add: keeps_progs_def call_fields)

lemma call_eq: "call f s = (fst (f (env s)), s\<lparr>env := snd (f (env s))\<rparr>)"
  by (simp add: call_def case_prod_beta)

lemmas stepping = call_eq case_prod_beta Let_def bindE_eq_Inr put_eq_Inr

lemma write_kprobe_events_keeps [simp]: "keeps_progs s (snd (write_kprobe_events io v t)) \<longleftrightarrow> keeps_progs s t"
  by (simp add: write_kprobe_events_def stepping)

lemma populate_keeps: "populate_prog_array io ev pfd s = (r, s') \<Longrightarrow> keeps_progs s s'"
  by (auto simp: populate_prog_array_def stepping)

lemma attach_numbered_keeps: "attach_numbered io ev k pfd s = Inr (r, s') \<Longrightarrow> keeps_progs s s'"
  by (auto simp: attach_numbered_def bindE_eq_Inr split: if_splits dest: populate_keeps)

lemma event_fd_keeps [simp]: "keeps_progs s (t\<lparr>event_fd := (event_fd t)[i := e]\<rparr>) \<longleftrightarrow> keeps_progs s t"
  by (simp add: keeps_progs_def)

lemma attach_perf_event_keeps: "attach_perf_event io path pfd s = Inr (r, s') \<Longrightarrow> keeps_progs s s'"
  by (auto simp: attach_perf_event_def stepping keeps_progs_def split: if_splits)

lemma create_kprobe_keeps [simp]: "keeps_progs s (snd (create_kprobe io k ev s))"
  by (simp add: create_kprobe_def stepping)

lemma attach_kprobe_keeps:
  assumes "attach_kprobe io k ev pfd s = Inr (r, s')"
  shows "keeps_progs s s'"
proof -
  obtain q t where c: "create_kprobe io k ev s = (q, t)" by force
  then have "keeps_progs s t" using create_kprobe_keeps [of s io k ev] by simp
  then show ?thesis
    using assms unfolding attach_kprobe_def c
    by (cases q) (auto simp: bindE_eq_Inr split: if_splits
        dest: populate_keeps attach_perf_event_keeps elim: keeps_trans)
qed

lemma attach_tracepoint_keeps: "attach_tracepoint io ev pfd s = Inr (r, s') \<Longrightarrow> keeps_progs s s'"
  by (auto simp: attach_tracepoint_def bindE_eq_Inr split: if_splits dest!: attach_perf_event_keeps)

lemma attach_keeps: "attach io ev pfd s = Inr (r, s') \<Longrightarrow> keeps_progs s s'"
  unfolding attach_def
  by (auto simp: stepping keeps_progs_def split: if_splits
      dest!: attach_numbered_keeps attach_kprobe_keeps attach_tracepoint_keeps)

lemma load_prog_adds:
  assumes "load_prog io ty prog s = Inr (r, s')" "loader_ok s"
  shows "adds_progs s s' \<and> (r \<noteq> None \<longrightarrow> prog_cnt s < prog_cnt s')"
proof (cases "prog_cnt s = MAX_PROGS")
  case True
  then show ?thesis using assms keeps_adds [OF keeps_refl] by (auto simp: load_prog_def)
next
  case False
  obtain pfd t where c: "call (load_program io ty prog (length prog div 8) (license s) (kern_version s)) s = (pfd, t)"
    by force
  have k: "keeps_progs s t" "loader_ok t" using call_keeps [OF c] assms(2) by (simp_all add: loader_ok_def keeps_progs_def)
  show ?thesis
  proof (cases "pfd < 0")
    case True
    then show ?thesis using assms c False keeps_adds [OF k(1)] by (simp add: load_prog_def Let_def)
  next
    case neg: False
    then have "s' = t\<lparr>prog_fd := (prog_fd t)[prog_cnt t := pfd], prog_cnt := prog_cnt t + 1\<rparr>"
      using assms c False by (auto simp: load_prog_def Let_def bindE_eq_Inr put_eq_Inr)
    then show ?thesis
      using k neg False assms(2) by (auto simp: adds_progs_def loader_ok_def keeps_progs_def nth_list_update)
  qed
qed

lemma load_then_attach_adds:
  assumes "bindE (load_prog io ty prog s)
      (\<lambda>(r, s). case r of None \<Rightarrow> Inr (- 1, s) | Some pfd \<Rightarrow> attach io ev pfd s) = Inr (r, s')" "loader_ok s"
  shows "adds_progs s s' \<and> (r = 0 \<longrightarrow> prog_cnt s < prog_cnt s')"
proof -
  obtain p t where l: "load_prog io ty prog s = Inr (p, t)"
    and a: "(case p of None \<Rightarrow> Inr (- 1, t) | Some pfd \<Rightarrow> attach io ev pfd t) = Inr (r, s')"
    using assms(1) by (auto simp: bindE_eq_Inr)
  note t = load_prog_adds [OF l assms(2)]
  show ?thesis
  proof (cases p)
    case (Some pfd)
    then have k: "keeps_progs t s'" using a attach_keeps by fastforce
    then have "adds_progs t s'" using t by (blast intro: keeps_adds adds_ok)
    moreover have "prog_cnt s' = prog_cnt t" using k by (simp add: keeps_progs_def)
    ultimately show ?thesis using t Some adds_trans by auto
  qed (use a t in auto)
qed

section \<open>The scans\<close>

lemma mark_keeps: "mark i s = Inr s' \<Longrightarrow> keeps_progs s s'"
  by (auto simp: mark_def bindE_eq_Inr)

lemma scan_section_keeps: "scan_section elf i v s = Inr (r, s') \<Longrightarrow> keeps_progs s s'"
  by (auto simp: scan_section_def mark_def set_license_def bindE_eq_Inr keeps_progs_def split: sum.splits if_splits)

lemma scan_sections_keeps: "scan_sections elf is v s = Inr (r, s') \<Longrightarrow> keeps_progs s s'"
proof (induction "is" arbitrary: v s)
  case (Cons i "is")
  then obtain q t where "scan_section elf i v s = Inr (q, t)"
    and "(case q of None \<Rightarrow> Inr (None, t) | Some v \<Rightarrow> scan_sections elf is v t) = Inr (r, s')"
    by (auto simp: bindE_eq_Inr)
  then show ?case
    using Cons.IH keeps_trans scan_section_keeps by (cases q) fastforce+
qed simp

lemma load_map_def_keeps: "load_map_def io elf st data sz i g s = Inr (r, s') \<Longrightarrow> keeps_progs s s'"
  by (auto simp: load_map_def_def stepping get_eq_Inr keeps_progs_def split: option.splits if_splits)

lemma load_map_defs_keeps: "load_map_defs io elf st data sz i gs s = Inr (r, s') \<Longrightarrow> keeps_progs s s'"
proof (induction gs arbitrary: i s)
  case (Cons g gs)
  then obtain q t where "load_map_def io elf st data sz i g s = Inr (q, t)"
    and "(case q of Some e \<Rightarrow> Inr (Some e, t) | None \<Rightarrow> load_map_defs io elf st data sz (i + 1) gs t) = Inr (r, s')"
    by (auto simp: bindE_eq_Inr)
  then show ?case
    using Cons.IH keeps_trans load_map_def_keeps by (cases q) fastforce+
qed simp

lemma load_elf_maps_section_keeps:
  assumes "load_elf_maps_section io elf m y st s = Inr (r, s')"
  shows "keeps_progs s s'"
proof (cases "\<exists>i j sc. m = Some i \<and> y = Some j \<and> elf_getscn elf i = Some sc \<and> has_data sc")
  case True
  then obtain i j where mj: "m = Some i" "y = Some j" by blast
  obtain ok t where c: "call (calloc_ok io) s = (ok, t)" by force
  obtain gs q where "load_map_defs io elf st (d_buf s i) (length (d_buf s i) div length gs) 0 (sort_key st_value gs) t
      = Inr (q, s')"
    using assms True mj c
    by (auto simp: load_elf_maps_section_def bindE_eq_Inr Let_def split: if_splits option.split_asm)
  then show ?thesis using keeps_trans [OF call_keeps [OF c] load_map_defs_keeps] by blast
next
  case False
  then show ?thesis using assms by (auto simp: load_elf_maps_section_def split: option.splits if_splits)
qed

lemma create_map_keeps: "create_map io m s = Inr (r, s') \<Longrightarrow> keeps_progs s s'"
  by (auto simp: create_map_def stepping split: if_splits)

lemma map_data_keeps [simp]: "keeps_progs s (t\<lparr>map_data := (map_data t)[i := m]\<rparr>) \<longleftrightarrow> keeps_progs s t"
  by (simp add: keeps_progs_def)

lemma map_fd_keeps [simp]: "keeps_progs s (t\<lparr>map_fd := (map_fd t)[i := m]\<rparr>) \<longleftrightarrow> keeps_progs s t"
  by (simp add: keeps_progs_def)

lemma load_map_keeps:
  assumes "load_map io fixup_map i s = Inr (r, s')"
  shows "keeps_progs s s'"
proof -
  define m where "m = (case fixup_map of None \<Rightarrow> map_data s ! i | Some f \<Rightarrow> f (map_data s ! i) i)"
  define s1 where "s1 = s\<lparr>map_data := (map_data s)[i := m]\<rparr>"
  have k: "keeps_progs s s1" by (simp add: s1_def)
  show ?thesis
  proof (cases "fixup_map \<noteq> None \<and> fd m \<noteq> - 1")
    case True
    then have "s' = s1\<lparr>map_fd := (map_fd s)[i := fd m]\<rparr>"
      using assms by (auto simp: load_map_def bindE_eq_Inr get_eq_Inr put_eq_Inr m_def s1_def Let_def)
    then show ?thesis by (simp add: s1_def keeps_progs_def)
  next
    case False
    then obtain mfd s2 where c: "create_map io m s1 = Inr (mfd, s2)" 
      and r: "s' = s2\<lparr>map_fd := (map_fd s2)[i := mfd]\<rparr> \<or>
              s' = s2\<lparr>map_fd := (map_fd s2)[i := mfd], map_data := (map_data s2)[i := m\<lparr>fd := mfd\<rparr>]\<rparr> \<or>
              s' = s2\<lparr>map_fd := (map_fd s2)[i := mfd], map_data := (map_data s2)[i := m\<lparr>fd := mfd\<rparr>], prog_array_fd := mfd\<rparr>"
      using assms
      by (auto simp: load_map_def bindE_eq_Inr get_eq_Inr put_eq_Inr m_def s1_def Let_def split: if_splits)
    then show ?thesis using keeps_trans [OF k create_map_keeps [OF c]] by (auto simp: keeps_progs_def)
  qed
qed

lemma load_maps_from_keeps: "load_maps_from io fixup_map i n s = Inr (r, s') \<Longrightarrow> keeps_progs s s'"
proof (induction n arbitrary: i s)
  case (Suc n)
  then show ?case by (auto simp: bindE_eq_Inr split: if_splits dest!: load_map_keeps elim: keeps_trans)
qed simp

lemma load_object_maps_keeps: "load_object_maps io fixup_map elf v y s = Inr (r, s') \<Longrightarrow> keeps_progs s s'"
  by (auto simp: load_object_maps_def load_maps_def bindE_eq_Inr split: option.splits if_splits
      dest!: load_elf_maps_section_keeps load_maps_from_keeps mark_keeps simp: keeps_progs_def)

lemma relo_section_keeps: "relo_section elf y n i s = Inr s' \<Longrightarrow> keeps_progs s s'"
  by (auto simp: relo_section_def bindE_eq_Inr split: sum.splits if_splits dest!: mark_keeps)

lemma relo_sections_keeps: "relo_sections elf y n is s = Inr s' \<Longrightarrow> keeps_progs s s'"
  by (induction "is" arbitrary: s) (auto simp: bindE_eq_Inr dest!: relo_section_keeps elim: keeps_trans)

lemma load_object_scan:
  assumes "load_object wanted load io fixup_map elf s = Inr (r, s')"
  obtains v s1 where "keeps_progs s s1" "load_scanned wanted load io fixup_map elf v s1 = Inr (r, s')"
proof -
  define s0 where "s0 = snd (write_kprobe_events io [] s)"
  obtain v s1 where "scan_sections elf [1..<e_shnum elf] \<lparr>maps_shndx = None, symtab_shndx = None, strtabidx = 0\<rparr> s0
      = Inr (v, s1)" and "load_scanned wanted load io fixup_map elf v s1 = Inr (r, s')"
    using assms by (auto simp: load_object_def s0_def case_prod_beta bindE_eq_Inr)
  moreover have "keeps_progs s s0" by (simp add: s0_def)
  ultimately show thesis using that scan_sections_keeps keeps_trans by blast
qed

lemma load_scanned_cases [consumes 1, case_names early scan]:
  assumes "load_scanned wanted load io fixup_map elf v s = Inr (r, s')"
  obtains "keeps_progs s s' \<and> r \<noteq> Some 0"
    | s3 q where "keeps_progs s s3" "load_sections wanted load elf [1..<e_shnum elf] 1 s3 = Inr (q, s')" "r = Some q"
proof -
  consider "v = None" | w where "v = Some w" "symtab_shndx w = None"
    | w y where "v = Some w" "symtab_shndx w = Some y" by (cases v) auto
  then show thesis
  proof cases
    case (3 w y)
    then obtain n s2 where m: "load_object_maps io fixup_map elf w y s = Inr (n, s2)"
      using assms by (auto simp: load_scanned_def bindE_eq_Inr)
    note k = load_object_maps_keeps [OF m]
    show thesis
    proof (cases n)
      case None
      then have "s' = s2 \<and> r = Some 1" using assms 3 m by (auto simp: load_scanned_def)
      then show thesis using k that(1) by simp
    next
      case (Some n)
      then obtain s3 q where "relo_sections elf y n [1..<e_shnum elf] s2 = Inr s3"
        and "load_sections wanted load elf [1..<e_shnum elf] 1 s3 = Inr (q, s')" "r = Some q"
        using assms 3 m by (auto simp: load_scanned_def bindE_eq_Inr)
      then show thesis using that(2) k relo_sections_keeps keeps_trans by blast
    qed
  qed (use assms that(1) in \<open>auto simp: load_scanned_def\<close>)
qed

lemma do_load_cases [consumes 1, case_names early object]:
  assumes "do_load wanted load io path fixup_map s = Inr (r, s')"
  obtains "r = 1" "keeps_progs s s'"
    | elf s1 q s2 where "keeps_progs s s1" "load_object wanted load io fixup_map elf s1 = Inr (q, s2)"
        "keeps_progs s2 s'" "q = None \<and> r = 1 \<or> q = Some r"
proof -
  define s0 where "s0 = s\<lparr>kern_version := 0, license := replicate 128 0, processed_sec := replicate 128 False\<rparr>"
  obtain f t u x where op: "call (open_file io path O_RDONLY) s0 = (f, t)"
    and eb: "call (elf_begin io f) t = (x, u)" by fastforce
  have k: "keeps_progs s t" "keeps_progs s u"
    using call_keeps [OF op] call_keeps [OF eb] keeps_trans by (auto simp: s0_def)
  note d = assms [unfolded do_load_def Let_def s0_def [symmetric] op prod.case eb]
  show thesis
  proof (cases "elf_version_ok io (env s0) \<and> \<not> f < 0 \<and> x \<noteq> None \<and> ehdr_ok io (fst (the x))")
    case True
    then obtain elf bufs q s2 where o: "load_object wanted load io fixup_map elf (u\<lparr>d_buf := bufs\<rparr>) = Inr (q, s2)"
      and "q = None \<and> r = 1 \<and> s' = s2 \<or> q = Some r \<and> s' = s2\<lparr>env := close_fd io f (env s2)\<rparr>"
      using d by (fastforce simp: bindE_eq_Inr split: option.split_asm)
    then show thesis using k by (intro that(2) [OF _ o]) auto
  next
    case False
    then have "r = 1 \<and> (s' = s0 \<or> s' = t \<or> s' = u)" using d by (auto split: if_splits option.splits)
    then show thesis using that(1) k by (auto simp: s0_def)
  qed
qed

section \<open>Stores into the tables of programs\<close>

text \<open>
  The faults a load may end with are those of its other accesses: no store into \<^verbatim>\<open>prog_fd\<close> or
  \<^verbatim>\<open>event_fd\<close> is outside.
\<close>

definition table_safe :: "fault + 'a \<Rightarrow> bool" where
  "table_safe x \<longleftrightarrow> x \<noteq> Inl (Outside ''prog_fd'') \<and> x \<noteq> Inl (Outside ''event_fd'')"

lemma table_safe_values [simp]:
  "table_safe (Inr y)" "table_safe (Inl Divide_by_zero)" "table_safe (Inl (Uninitialised u))" "table_safe (Inl (Assertion a))"
  "table_safe (Inl (Outside what)) \<longleftrightarrow> what \<noteq> ''prog_fd'' \<and> what \<noteq> ''event_fd''"
  by (simp_all add: table_safe_def)

lemma table_safe_branches [simp]:
  "table_safe (if b then x else x') \<longleftrightarrow> (if b then table_safe x else table_safe x')"
  "table_safe (case q of None \<Rightarrow> x | Some a \<Rightarrow> f a) \<longleftrightarrow> (case q of None \<Rightarrow> table_safe x | Some a \<Rightarrow> table_safe (f a))"
  by (simp_all split: option.split)

lemma table_safe_bindE [intro!]:
  "table_safe x \<Longrightarrow> (\<And>y. x = Inr y \<Longrightarrow> table_safe (f y)) \<Longrightarrow> table_safe (bindE x f)"
  by (cases x) (simp_all add: table_safe_def)

lemma table_safe_get [simp]: "what \<noteq> ''prog_fd'' \<Longrightarrow> what \<noteq> ''event_fd'' \<Longrightarrow> table_safe (get what xs i)"
  by (simp add: get_def)

lemma table_safe_put [simp]:
  "table_safe (put what xs i v) \<longleftrightarrow> i < length xs \<or> what \<noteq> ''prog_fd'' \<and> what \<noteq> ''event_fd''"
  by (simp add: put_def)

lemma char_at_safe [simp]: "table_safe (char_at ev i)"
  by (simp add: char_at_def)

lemma strcat_buf_safe [simp]: "table_safe (strcat_buf cs)"
  by (simp add: strcat_buf_def)

lemma attach_numbered_safe: "table_safe (attach_numbered io ev k pfd s)"
  by (auto simp: attach_numbered_def)

lemma attach_perf_event_safe:
  "prog_cnt s \<le> MAX_PROGS \<Longrightarrow> length (event_fd s) = MAX_PROGS \<Longrightarrow> table_safe (attach_perf_event io path pfd s)"
  by (auto simp: attach_perf_event_def call_eq case_prod_beta Let_def)

lemma loader_ok_keeps: "loader_ok s \<Longrightarrow> keeps_progs s t \<Longrightarrow> loader_ok t"
  by (simp add: loader_ok_def keeps_progs_def)

lemma attach_kprobe_safe:
  assumes "loader_ok s"
  shows "table_safe (attach_kprobe io k ev pfd s)"
proof -
  obtain q t where c: "create_kprobe io k ev s = (q, t)" by force
  then have "loader_ok t" using create_kprobe_keeps [of s io k ev] loader_ok_keeps [OF assms] by simp
  then have "table_safe (attach_perf_event io path pfd t)" for path
    by (simp add: attach_perf_event_safe loader_ok_def)
  then show ?thesis by (cases q) (auto simp: attach_kprobe_def c)
qed

lemma attach_tracepoint_safe: "loader_ok s \<Longrightarrow> table_safe (attach_tracepoint io ev pfd s)"
  by (auto simp: attach_tracepoint_def loader_ok_def attach_perf_event_safe)

lemma attach_raw_safe:
  "loader_ok s \<Longrightarrow> table_safe (bindE (put ''event_fd'' (event_fd s) (prog_cnt s - Suc 0) efd) (\<lambda>efds. Inr (0, t\<lparr>event_fd := efds\<rparr>)))"
  by (auto simp: loader_ok_def)

lemma attach_safe: "loader_ok s \<Longrightarrow> table_safe (attach io ev pfd s)"
  unfolding attach_def
  by (simp add: attach_numbered_safe attach_kprobe_safe attach_tracepoint_safe attach_raw_safe call_eq Let_def)

lemma load_prog_safe: "loader_ok s \<Longrightarrow> table_safe (load_prog io ty prog s)"
  by (auto simp: load_prog_def call_eq Let_def loader_ok_def)

lemma load_then_attach_safe:
  assumes "loader_ok s"
  shows "table_safe (bindE (load_prog io ty prog s)
      (\<lambda>(r, s). case r of None \<Rightarrow> Inr (- 1, s) | Some pfd \<Rightarrow> attach io ev pfd s))"
proof (rule table_safe_bindE [OF load_prog_safe [OF assms]])
  fix y
  assume y: "load_prog io ty prog s = Inr y"
  then have "loader_ok (snd y)" using load_prog_adds [of io ty prog s "fst y" "snd y"] assms adds_ok by auto
  then show "table_safe (case y of (r, s) \<Rightarrow> case r of None \<Rightarrow> Inr (- 1, s) | Some pfd \<Rightarrow> attach io ev pfd s)"
    by (auto simp: attach_safe split: prod.splits option.splits)
qed

text \<open>The steps before the program sections touch neither table.\<close>

lemma mark_safe [simp]: "table_safe (mark i s)"
  by (auto simp: mark_def)

lemma set_license_safe [simp]: "table_safe (set_license bs s)"
  by (simp add: set_license_def)

lemma scan_section_safe: "table_safe (scan_section elf i v s)"
  by (cases "get_sec elf i") (simp_all add: scan_section_def table_safe_bindE case_prod_beta)

lemma scan_sections_safe: "table_safe (scan_sections elf is v s)"
  by (induction "is" arbitrary: v s) (auto intro!: table_safe_bindE scan_section_safe split: option.split)

lemma map_symbols_safe: "table_safe (map_symbols elf y m i n acc)"
  by (induction n arbitrary: i acc) simp_all

lemma load_map_def_safe: "table_safe (load_map_def io elf st data sz i g s)"
  by (auto simp: load_map_def_def call_eq Let_def intro!: table_safe_bindE split: option.split)

lemma load_map_defs_safe: "table_safe (load_map_defs io elf st data sz i gs s)"
  by (induction gs arbitrary: i s) (auto intro!: table_safe_bindE load_map_def_safe split: option.split)

lemma load_elf_maps_section_safe: "table_safe (load_elf_maps_section io elf m y st s)"
  by (auto simp: load_elf_maps_section_def call_eq Let_def
      intro!: table_safe_bindE map_symbols_safe load_map_defs_safe split: option.split)

lemma create_map_safe: "table_safe (create_map io m s)"
  by (auto simp: create_map_def Let_def)

lemma load_map_safe: "table_safe (load_map io fixup_map i s)"
  by (auto simp: load_map_def Let_def intro!: table_safe_bindE create_map_safe)

lemma load_maps_safe: "table_safe (load_maps_from io fixup_map i n s)"
  by (induction n arbitrary: i s) (auto intro!: table_safe_bindE load_map_safe)

lemma load_object_maps_safe: "table_safe (load_object_maps io fixup_map elf v y s)"
  by (auto simp: load_object_maps_def load_maps_def
      intro!: table_safe_bindE load_elf_maps_section_safe load_maps_safe split: option.split)

lemma apply_relos_safe: "table_safe (apply_relos elf data y maps i n b)"
  by (induction n arbitrary: i b) (auto simp: apply_relo_def Let_def intro!: table_safe_bindE split: option.split)

lemma relo_section_safe: "table_safe (relo_section elf y n i s)"
  by (auto simp: relo_section_def parse_relo_and_apply_def intro!: table_safe_bindE apply_relos_safe split: sum.split)

lemma relo_sections_safe: "table_safe (relo_sections elf y n is s)"
  by (induction "is" arbitrary: s) (auto intro!: table_safe_bindE relo_section_safe)

section \<open>The scan over the programs\<close>

text \<open>What the scan over the program sections needs of the function that loads one of them.\<close>

locale program_loader =
  fixes wanted :: "string \<Rightarrow> bool" and load :: "string \<Rightarrow> u8 list \<Rightarrow> 'w loader \<Rightarrow> fault + (int \<times> 'w loader)"
  assumes load_adds: "load ev prog s = Inr (r, s') \<Longrightarrow> loader_ok s \<Longrightarrow> adds_progs s s'"
    and load_counts: "load ev prog s = Inr (0, s') \<Longrightarrow> loader_ok s \<Longrightarrow> prog_cnt s < prog_cnt s'"
    and load_safe: "loader_ok s \<Longrightarrow> table_safe (load ev prog s)"
begin

lemma load_sections_adds:
  assumes "load_sections wanted load elf is ret s = Inr (r, s')" "loader_ok s"
  shows "adds_progs s s' \<and> (ret \<noteq> 0 \<longrightarrow> r = 0 \<longrightarrow> prog_cnt s < prog_cnt s')"
  using assms
proof (induction "is" arbitrary: ret s)
  case Nil
  then show ?case using keeps_adds [OF keeps_refl] by simp
next
  case (Cons i "is")
  show ?case
  proof (cases "\<exists>nm sh. get_sec elf i = Inr (nm, sh) \<and> wanted nm \<and> \<not> processed_sec s ! i")
    case False
    then have "load_sections wanted load elf is ret s = Inr (r, s')"
      using Cons.prems(1) by (auto simp: bindE_eq_Inr get_eq_Inr split: if_splits sum.splits)
    then show ?thesis using Cons by blast
  next
    case True
    then obtain nm q t where l: "load nm (d_buf s i) s = Inr (q, t)"
      and n: "(if q \<noteq> 0 then Inr (q, t) else load_sections wanted load elf is q t) = Inr (r, s')"
      using Cons.prems(1) by (auto simp: bindE_eq_Inr get_eq_Inr)
    note t = load_adds [OF l Cons.prems(2)]
    show ?thesis
    proof (cases "q = 0")
      case True
      then have "adds_progs t s'" using Cons.IH [of q t] n adds_ok [OF t] by simp
      moreover from this have "prog_cnt t \<le> prog_cnt s'" by (simp add: adds_progs_def)
      moreover have "prog_cnt s < prog_cnt t" using load_counts l True Cons.prems(2) by simp
      ultimately show ?thesis using adds_trans [OF t] by simp
    qed (use n t in auto)
  qed
qed

lemma load_object_adds:
  assumes "load_object wanted load io fixup_map elf s = Inr (r, s')" "loader_ok s"
  shows "adds_progs s s' \<and> (r = Some 0 \<longrightarrow> prog_cnt s < prog_cnt s')"
proof -
  obtain v s1 where k: "keeps_progs s s1" and o: "load_scanned wanted load io fixup_map elf v s1 = Inr (r, s')"
    using load_object_scan [OF assms(1)] .
  have ok1: "loader_ok s1" by (rule adds_ok [OF keeps_adds [OF k assms(2)]])
  have "adds_progs s1 s' \<and> (r = Some 0 \<longrightarrow> prog_cnt s1 < prog_cnt s')"
    using o
  proof (cases rule: load_scanned_cases)
    case early
    then show ?thesis using keeps_adds [OF _ ok1] by blast
  next
    case (scan s3 q)
    have "loader_ok s3" by (rule adds_ok [OF keeps_adds [OF scan(1) ok1]])
    then have "adds_progs s3 s' \<and> (q = 0 \<longrightarrow> prog_cnt s3 < prog_cnt s')"
      using load_sections_adds [OF scan(2)] by simp
    then show ?thesis
      using scan keeps_adds [OF scan(1) ok1] adds_trans by (auto simp: keeps_progs_def)
  qed
  then show ?thesis using k keeps_adds [OF k assms(2)] adds_trans by (auto simp: keeps_progs_def)
qed

lemma do_load_adds:
  assumes "do_load wanted load io path fixup_map s = Inr (r, s')" "loader_ok s"
  shows "adds_progs s s' \<and> (r = 0 \<longrightarrow> prog_cnt s < prog_cnt s')"
proof -
  show ?thesis using assms(1)
  proof (cases rule: do_load_cases)
    case (object elf s1 q s2)
    have "loader_ok s1" using adds_ok [OF keeps_adds [OF object(1) assms(2)]] .
    then have o: "adds_progs s1 s2 \<and> (q = Some 0 \<longrightarrow> prog_cnt s1 < prog_cnt s2)"
      by (rule load_object_adds [OF object(2)])
    then have "adds_progs s2 s'" using object(3) keeps_adds adds_ok by blast
    then have "adds_progs s s'" using o keeps_adds [OF object(1) assms(2)] adds_trans by blast
    then show ?thesis using o object by (auto simp: keeps_progs_def)
  qed (use keeps_adds assms(2) in auto)
qed

lemma load_sections_safe: "loader_ok s \<Longrightarrow> table_safe (load_sections wanted load elf is ret s)"
proof (induction "is" arbitrary: ret s)
  case (Cons i "is")
  have "table_safe (if q \<noteq> 0 then Inr (q, t) else load_sections wanted load elf is q t)"
    if "load nm (d_buf s i) s = Inr (q, t)" for nm q t
    using Cons.IH adds_ok [OF load_adds [OF that Cons.prems]] by simp
  then show ?case
    using Cons by (auto intro!: table_safe_bindE load_safe split: sum.split)
qed simp

lemma load_scanned_safe:
  assumes "loader_ok s"
  shows "table_safe (load_scanned wanted load io fixup_map elf v s)"
proof -
  have maps: "loader_ok s1" if "load_object_maps io fixup_map elf w y s = Inr (nr, s1)" for w y nr s1
    using loader_ok_keeps [OF assms load_object_maps_keeps [OF that]] .
  have relo: "table_safe (bindE (relo_sections elf y n is t) (\<lambda>s.
      bindE (load_sections wanted load elf is 1 s) (\<lambda>(ret, s). Inr (Some ret, s))))" if "loader_ok t" for y n "is" t
    by (intro table_safe_bindE relo_sections_safe load_sections_safe)
      (auto intro: loader_ok_keeps [OF that] relo_sections_keeps split: prod.split)
  show ?thesis
    using maps relo
    by (auto simp: load_scanned_def intro!: table_safe_bindE [OF load_object_maps_safe] split: option.split)
qed

lemma load_object_safe:
  assumes "loader_ok s"
  shows "table_safe (load_object wanted load io fixup_map elf s)"
proof -
  define s0 where "s0 = snd (write_kprobe_events io [] s)"
  have "keeps_progs s s0" by (simp add: s0_def)
  then have "table_safe (load_scanned wanted load io fixup_map elf v t)"
    if "scan_sections elf is x s0 = Inr (v, t)" for "is" x v t
    using scan_sections_keeps [OF that] assms loader_ok_keeps by (blast intro: load_scanned_safe)
  then show ?thesis
    by (auto simp: load_object_def case_prod_beta s0_def [symmetric] intro!: table_safe_bindE scan_sections_safe)
qed

lemma do_load_safe:
  assumes "loader_ok s"
  shows "table_safe (do_load wanted load io path fixup_map s)"
proof -
  have ok: "table_safe (load_object wanted load io fixup_map elf t)" if "keeps_progs s t" for elf t
    using load_object_safe [OF loader_ok_keeps [OF assms that]] .
  show ?thesis
    by (auto simp: do_load_def Let_def call_eq split: option.split intro!: table_safe_bindE ok)
qed

end

section \<open>Results of the loader\<close>

lemma load_and_attach_adds:
  assumes "load_and_attach io ev prog s = Inr (r, s')" "loader_ok s"
  shows "adds_progs s s' \<and> (r = 0 \<longrightarrow> prog_cnt s < prog_cnt s')"
  using assms keeps_adds [OF keeps_refl] load_then_attach_adds
  by (fastforce simp: load_and_attach_def split: option.splits)

lemma load_and_attach_fexit_adds:
  assumes "load_and_attach_fexit io ev prog s = Inr (r, s')" "loader_ok s"
  shows "adds_progs s s' \<and> (r = 0 \<longrightarrow> prog_cnt s < prog_cnt s')"
  using assms keeps_adds [OF keeps_refl] load_then_attach_adds
  by (fastforce simp: load_and_attach_fexit_def split: option.splits)

interpretation plain_loader: program_loader is_program "load_and_attach io" for io
  by unfold_locales
    (use load_and_attach_adds in blast, use load_and_attach_adds in blast,
     simp add: load_and_attach_def load_then_attach_safe split: option.split)

interpretation fexit_loader: program_loader is_program_fexit "load_and_attach_fexit io" for io
  by unfold_locales
    (use load_and_attach_fexit_adds in blast, use load_and_attach_fexit_adds in blast,
     simp add: load_and_attach_fexit_def load_then_attach_safe split: option.split)

text \<open>A system that grants everything, counts descriptors and has an object with one XDP program.\<close>

definition demo_object :: elf_object where
  "demo_object =
     \<lparr>e_shnum = 3,
      elf_getscn = (\<lambda>i.
        if i = 1 then Some \<lparr>shdr_ok = True, sh_name = Some ''.symtab'', sh_type = SHT_SYMTAB, sh_flags = 0, sh_size = 24,
              sh_entsize = 24, sh_link = 9, sh_info = 0, has_data = True, more_data = False\<rparr>
        else Some \<lparr>shdr_ok = True, sh_name = Some ''xdp'', sh_type = SHT_PROGBITS, sh_flags = 6, sh_size = 16,
              sh_entsize = 0, sh_link = 0, sh_info = 0, has_data = True, more_data = False\<rparr>),
      elf_strptr = (\<lambda>i n. None), gelf_getsym = (\<lambda>i n. None), gelf_getrel = (\<lambda>i n. None)\<rparr>"

definition demo_bytes :: "nat \<Rightarrow> u8 list" where
  "demo_bytes i = (if i = 2 then [0xb7, 0, 0, 0, 2, 0, 0, 0, 0x95, 0, 0, 0, 0, 0, 0, 0] else replicate 24 0)"

definition demo_sys :: "nat sys" where
  "demo_sys =
     \<lparr>open_file = (\<lambda>p fl w. (int w, w + 1)), write_fd = (\<lambda>f v w. (int (length v), w)),
      read_fd = (\<lambda>f n w. ((1, ''7''), w)), close_fd = (\<lambda>f w. w), map_update_elem = (\<lambda>m k v w. (0, w)),
      load_program = (\<lambda>ty p n l v w. (int w, w + 1)), raw_tracepoint_open = (\<lambda>n p w. (int w, w + 1)),
      perf_event_open = (\<lambda>n w. (int w, w + 1)), ioctl_enable = (\<lambda>f w. (0, w)), ioctl_set_bpf = (\<lambda>f p w. (0, w)),
      create_map_node = (\<lambda>n d k w. (int w, w + 1)), create_map_in_map_node = (\<lambda>n d i k w. (int w, w + 1)),
      calloc_ok = (\<lambda>w. (True, w)), strdup_errno = (\<lambda>n w. (None, w)), elf_version_ok = (\<lambda>w. True),
      elf_begin = (\<lambda>f w. (Some (demo_object, demo_bytes), w)), ehdr_ok = (\<lambda>e. True)\<rparr>"

definition demo_loader :: "nat loader" where
  "demo_loader =
     \<lparr>license = [], kern_version = 0, processed_sec = [], map_fd = replicate 32 0, prog_fd = replicate 32 0,
      event_fd = replicate 32 0, prog_cnt = 0, prog_array_fd = - 1,
      map_data = replicate 32 \<lparr>fd = 0, name = [], elf_offset = 0, map_def = map_def_of_bytes []\<rparr>,
      map_data_count = 0, d_buf = (\<lambda>i. []), env = 3\<rparr>"

lemmas demo_defs = demo_object_def demo_bytes_def demo_sys_def demo_loader_def

text \<open>
  C14: Loading an object keeps the tables at their declared sizes and the counter of programs within
  them.  No store into the table of programs or of events is outside it: an undefined step the load may
  run into is never one of these.  When it returns, programs loaded earlier keep their descriptors, every
  new one has a descriptor that is not negative, and the value 0 means that the call has loaded a program;
  so a load that starts with a full table does not return 0.
\<close>

theorem do_load_bpf_file_result:
  assumes "loader_ok s"
  shows "case do_load_bpf_file io path fixup_map s of
      Inl e \<Rightarrow> e \<noteq> Outside ''prog_fd'' \<and> e \<noteq> Outside ''event_fd''
    | Inr (r, s') \<Rightarrow> loader_ok s' \<and> prog_cnt s \<le> prog_cnt s'
        \<and> (\<forall>j. j < prog_cnt s \<longrightarrow> prog_fd s' ! j = prog_fd s ! j)
        \<and> (\<forall>j. prog_cnt s \<le> j \<longrightarrow> j < prog_cnt s' \<longrightarrow> 0 \<le> prog_fd s' ! j)
        \<and> (r = 0 \<longrightarrow> prog_cnt s < prog_cnt s')"
proof (cases "do_load_bpf_file io path fixup_map s")
  case (Inl e)
  then show ?thesis
    using plain_loader.do_load_safe [OF assms, of io io path fixup_map]
    by (auto simp: do_load_bpf_file_def table_safe_def)
next
  case (Inr p)
  then show ?thesis
    using plain_loader.do_load_adds [of io io path fixup_map s "fst p" "snd p"] assms
    by (cases p) (simp add: do_load_bpf_file_def adds_progs_def)
qed

lemma demo_run:
  "case do_load_bpf_file demo_sys ''a.o'' None demo_loader of Inl _ \<Rightarrow> False
   | Inr (r, s') \<Rightarrow> r = 0 \<and> prog_cnt s' = 1"
  by code_simp

theorem do_load_bpf_file_result_witness:
  "\<exists>s'. do_load_bpf_file demo_sys ''a.o'' None demo_loader = Inr (0, s') \<and> loader_ok s' \<and> 0 < prog_cnt s'
   \<and> do_load_bpf_file demo_sys ''a.o'' None (demo_loader\<lparr>prog_cnt := MAX_PROGS\<rparr>) \<noteq> Inl (Outside ''prog_fd'')"
proof -
  obtain s' where s': "do_load_bpf_file demo_sys ''a.o'' None demo_loader = Inr (0, s')"
    using demo_run by (auto split: sum.splits)
  have ok: "loader_ok demo_loader" "loader_ok (demo_loader\<lparr>prog_cnt := MAX_PROGS\<rparr>)"
    by (simp_all add: loader_ok_def demo_loader_def)
  show ?thesis
    using do_load_bpf_file_result [OF ok(1), of demo_sys "''a.o''" None] s'
      do_load_bpf_file_result [OF ok(2), of demo_sys "''a.o''" None]
    by (auto simp: demo_loader_def split: sum.splits)
qed


section \<open>Relocations\<close>

text \<open>The instruction word a relocation leaves behind.\<close>

abbreviation relocated :: "u8 list \<Rightarrow> nat \<Rightarrow> u32 \<Rightarrow> u8 list" where
  "relocated b i v \<equiv> set_imm (set_src_reg b i BPF_PSEUDO_MAP_FD) i v"

lemma length_relocated [simp]: "8 * i + 8 \<le> length b \<Longrightarrow> length (relocated b i v) = length b"
  by (simp add: set_imm_def set_src_reg_def)

lemma length_set_src_reg [simp]: "length (set_src_reg b i r) = length b"
  by (simp add: set_src_reg_def)

lemma pseudo_nibble: "push_bit 4 BPF_PSEUDO_MAP_FD = 0x10"
  by (simp add: BPF_PSEUDO_MAP_FD_def)

lemma nth_relocated:
  assumes "8 * i + 8 \<le> length b"
  shows "relocated b i v ! n =
    (if n = 8 * i + 1 then (b ! n AND 0xf) OR push_bit 4 BPF_PSEUDO_MAP_FD
     else if 8 * i + 4 \<le> n \<and> n < 8 * i + 8 then le_bytes 4 v ! (n - (8 * i + 4)) else b ! n)"
  using assms by (auto simp: set_imm_def set_src_reg_def nth_append nth_list_update)

lemma take_drop_nth: "n + k \<le> length b \<Longrightarrow> take k (drop n b) = map (\<lambda>i. b ! (n + i)) [0..<k]"
  by (rule nth_equalityI) simp_all

lemma insn_at_nth:
  assumes "8 * j + 8 \<le> length b"
  shows "insn_at b j =
    \<lparr>code = b ! (8 * j), dst_reg = b ! (8 * j + 1) AND 0xf, src_reg = drop_bit 4 (b ! (8 * j + 1)),
     off = le_word (map (\<lambda>i. b ! (8 * j + 2 + i)) [0..<2]), imm = le_word (map (\<lambda>i. b ! (8 * j + 4 + i)) [0..<4])\<rparr>"
  using assms by (simp add: insn_at_def take_drop_nth)

lemma insn_at_other:
  assumes "8 * i + 8 \<le> length b" "8 * j + 8 \<le> length b" "i \<noteq> j"
  shows "insn_at (relocated b i v) j = insn_at b j"
proof -
  have same: "relocated b i v ! n = b ! n" if "8 * j \<le> n" "n < 8 * j + 8" for n
  proof -
    have "n < 8 * i \<or> 8 * i + 8 \<le> n" using assms(3) that by linarith
    then show ?thesis by (auto simp: nth_relocated [OF assms(1)])
  qed
  then have "map (\<lambda>k. relocated b i v ! (8 * j + 2 + k)) [0..<2] = map (\<lambda>k. b ! (8 * j + 2 + k)) [0..<2]"
    "map (\<lambda>k. relocated b i v ! (8 * j + 4 + k)) [0..<4] = map (\<lambda>k. b ! (8 * j + 4 + k)) [0..<4]"
    by (auto intro!: map_cong)
  then show ?thesis using assms(1,2) same [of "8 * j"] same [of "8 * j + 1"]
    by (simp add: insn_at_nth del: map_eq_conv add_2_eq_Suc')
qed

lemma nibble_or: "((x AND 0xf) OR 0x10) AND 0xf = x AND 0xf" "drop_bit 4 ((x AND 0xf) OR 0x10) = 1" for x :: u8
proof -
  have m: "(0xf :: u8) = mask 4" by (simp add: mask_eq_exp_minus_1)
  show "((x AND 0xf) OR 0x10) AND 0xf = x AND 0xf"
  proof (unfold m, rule bit_word_eqI)
    have "bit (16 :: int) n \<longleftrightarrow> n = 4" for n using bit_exp_iff [of 4 n, where 'a = int] by auto
    then show "bit ((x AND mask 4 OR 0x10) AND mask 4) n \<longleftrightarrow> bit (x AND mask 4) n" for n by (auto simp: bit_simps)
  qed
  have "drop_bit 4 (x AND mask 4) = 0" by (simp add: drop_bit_take_bit take_bit_eq_mask [symmetric])
  then show "drop_bit 4 ((x AND 0xf) OR 0x10) = 1"
    unfolding m by (simp add: drop_bit_or)
qed

lemma insn_at_same:
  assumes "8 * i + 8 \<le> length b"
  shows "insn_at (relocated b i v) i = (insn_at b i)\<lparr>src_reg := 1, imm := v\<rparr>"
proof -
  have "map (\<lambda>k. relocated b i v ! (8 * i + 4 + k)) [0..<4] = le_bytes 4 v"
    using assms by (intro nth_equalityI) (simp_all add: nth_relocated)
  moreover have "map (\<lambda>k. relocated b i v ! (8 * i + 2 + k)) [0..<2] = map (\<lambda>k. b ! (8 * i + 2 + k)) [0..<2]"
    using assms by (intro nth_equalityI) (simp_all add: nth_relocated)
  moreover have "relocated b i v ! (8 * i + 1) = (b ! (8 * i + 1) AND 0xf) OR 0x10" "relocated b i v ! (8 * i) = b ! (8 * i)"
    using assms by (simp_all add: nth_relocated pseudo_nibble)
  ultimately show ?thesis
    using assms by (simp add: insn_at_nth nibble_or le_word_le_bytes_full
        del: map_eq_conv add_2_eq_Suc' le_bytes.simps)
qed

text \<open>The instruction that relocation \<open>k\<close> is about, and the map its symbol stands for.\<close>

definition insn_idx :: "elf_rel \<Rightarrow> nat" where
  "insn_idx rel = (r_offset rel div 8) mod 2 ^ 32"

definition relo_of :: "elf_object \<Rightarrow> nat \<Rightarrow> nat \<Rightarrow> bpf_map_data list \<Rightarrow> nat \<Rightarrow> (nat \<times> bpf_map_data) option" where
  "relo_of elf data symbols maps k =
     Option.bind (gelf_getrel elf data k) (\<lambda>rel.
     Option.bind (gelf_getsym elf symbols (r_sym rel)) (\<lambda>gsym.
     map_option (Pair (insn_idx rel)) (find_map maps (st_value gsym))))"

lemma apply_relo_cases:
  assumes "apply_relo elf data symbols maps k b = Inr (True, b')"
  obtains i m where "relo_of elf data symbols maps k = Some (i, m)" "8 * i + 8 \<le> length b"
    "code (insn_at b i) = BPF_LD_IMM64" "b' = relocated b i (word_of_int (fd m))"
  using assms
  by (auto simp: apply_relo_def relo_of_def insn_idx_def Let_def split: option.splits if_splits)

text \<open>What relocation \<open>k\<close> makes of instruction \<open>j\<close>.\<close>

definition relo_insn :: "elf_object \<Rightarrow> nat \<Rightarrow> nat \<Rightarrow> bpf_map_data list \<Rightarrow> nat \<Rightarrow> nat \<Rightarrow> bpf_insn \<Rightarrow> bpf_insn" where
  "relo_insn elf data symbols maps j k ins =
     (case relo_of elf data symbols maps k of None \<Rightarrow> ins
      | Some (i, m) \<Rightarrow> if i = j then ins\<lparr>src_reg := 1, imm := word_of_int (fd m)\<rparr> else ins)"

lemma apply_relos_spec:
  assumes "apply_relos elf data symbols maps k n b = Inr (0, b')"
  shows "length b' = length b
    \<and> (\<forall>l \<in> {k..<k + n}. \<exists>i m. relo_of elf data symbols maps l = Some (i, m) \<and> 8 * i + 8 \<le> length b
          \<and> code (insn_at b i) = BPF_LD_IMM64)
    \<and> (\<forall>j. 8 * j + 8 \<le> length b \<longrightarrow>
          insn_at b' j = fold (relo_insn elf data symbols maps j) [k..<k + n] (insn_at b j))"
  using assms
proof (induction n arbitrary: k b)
  case (Suc n)
  obtain b1 where a: "apply_relo elf data symbols maps k b = Inr (True, b1)"
    and r: "apply_relos elf data symbols maps (k + 1) n b1 = Inr (0, b')"
    using Suc.prems by (auto simp: bindE_eq_Inr split: if_splits)
  from a obtain i m where im: "relo_of elf data symbols maps k = Some (i, m)" "8 * i + 8 \<le> length b"
    "code (insn_at b i) = BPF_LD_IMM64" "b1 = relocated b i (word_of_int (fd m))" by (rule apply_relo_cases)
  have step: "insn_at b1 j = relo_insn elf data symbols maps j k (insn_at b j)" if "8 * j + 8 \<le> length b" for j
    using that im by (cases "i = j") (simp_all add: relo_insn_def insn_at_same insn_at_other)
  have len: "length b1 = length b" using im by simp
  have code: "code (insn_at b1 j) = code (insn_at b j)" if "8 * j + 8 \<le> length b" for j
    using step [OF that] im by (simp add: relo_insn_def)
  note ih = Suc.IH [OF r, unfolded len]
  have "\<exists>i m. relo_of elf data symbols maps l = Some (i, m) \<and> 8 * i + 8 \<le> length b \<and> code (insn_at b i) = BPF_LD_IMM64"
    if "l \<in> {k..<k + Suc n}" for l
  proof (cases "l = k")
    case False
    then have "l \<in> {k + 1..<k + 1 + n}" using that by simp
    then show ?thesis using ih code by metis
  qed (use im in simp)
  moreover have "insn_at b' j = fold (relo_insn elf data symbols maps j) [k..<k + Suc n] (insn_at b j)"
    if "8 * j + 8 \<le> length b" for j
  proof -
    have "[k..<k + Suc n] = k # [k + 1..<k + 1 + n]" by (simp add: upt_conv_Cons del: upt_Suc)
    then show ?thesis using that ih step by simp
  qed
  ultimately show ?case using ih by blast
qed simp

lemma fold_relo_insn:
  "(fold (relo_insn elf data symbols maps j) ks ins)\<lparr>src_reg := r, imm := v\<rparr> = ins\<lparr>src_reg := r, imm := v\<rparr>"
  by (induction ks arbitrary: ins) (auto simp: relo_insn_def split: option.splits)

lemma fold_relo_insn_other:
  "\<forall>k \<in> set ks. map_option fst (relo_of elf data symbols maps k) \<noteq> Some j \<Longrightarrow>
    fold (relo_insn elf data symbols maps j) ks ins = ins"
  by (induction ks arbitrary: ins) (auto simp: relo_insn_def split: option.splits)

lemma fold_relo_insn_last:
  assumes "k < n" "relo_of elf data symbols maps k = Some (j, m)"
    "\<forall>l. k < l \<longrightarrow> l < n \<longrightarrow> map_option fst (relo_of elf data symbols maps l) \<noteq> Some j"
  shows "fold (relo_insn elf data symbols maps j) [0..<n] ins = ins\<lparr>src_reg := 1, imm := word_of_int (fd m)\<rparr>"
proof -
  have "[0..<n] = [0..<k] @ k # [Suc k..<n]"
    using assms(1) by (metis le_add_diff_inverse less_imp_le upt_add_eq_append upt_conv_Cons zero_le)
  moreover have "fold (relo_insn elf data symbols maps j) [Suc k..<n] x = x" for x
    using assms(3) by (intro fold_relo_insn_other) auto
  ultimately show ?thesis using assms(2) by (simp add: relo_insn_def fold_relo_insn)
qed

lemma find_map_Some: "find_map ms v = Some m \<Longrightarrow> m \<in> set ms \<and> elf_offset m = v"
  by (induction ms) (auto split: if_splits)

text \<open>
  C15: A relocation section that is applied without an error leaves the program its size and every
  instruction that no entry is for as it was.  Each entry is for a 64-bit load inside the program whose
  symbol is the offset of a map; the last entry for an instruction makes it a load of the descriptor of
  that map, the other fields of the instruction being kept.
\<close>

theorem parse_relo_and_apply_correct:
  assumes "parse_relo_and_apply elf data symbols shdr maps b = Inr (0, b')"
  shows "length b' = length b
    \<and> (\<forall>j. 8 * j + 8 \<le> length b \<longrightarrow>
          (\<forall>k < sh_size shdr div sh_entsize shdr. map_option fst (relo_of elf data symbols maps k) \<noteq> Some j) \<longrightarrow>
          insn_at b' j = insn_at b j)
    \<and> (\<forall>k < sh_size shdr div sh_entsize shdr. \<exists>j m. relo_of elf data symbols maps k = Some (j, m)
          \<and> 8 * j + 8 \<le> length b \<and> m \<in> set maps \<and> code (insn_at b j) = BPF_LD_IMM64
          \<and> ((\<forall>l. k < l \<longrightarrow> l < sh_size shdr div sh_entsize shdr \<longrightarrow>
                 map_option fst (relo_of elf data symbols maps l) \<noteq> Some j) \<longrightarrow>
               insn_at b' j = (insn_at b j)\<lparr>src_reg := 1, imm := word_of_int (fd m)\<rparr>))"
proof -
  define n where "n = sh_size shdr div sh_entsize shdr"
  have "apply_relos elf data symbols maps 0 n b = Inr (0, b')"
    using assms by (simp add: parse_relo_and_apply_def n_def split: if_splits)
  note s = apply_relos_spec [OF this]
  have "insn_at b' j = insn_at b j" if "8 * j + 8 \<le> length b"
    "\<forall>k < n. map_option fst (relo_of elf data symbols maps k) \<noteq> Some j" for j
    using s that fold_relo_insn_other [of "[0..<n]"] by simp
  moreover have "\<exists>j m. relo_of elf data symbols maps k = Some (j, m)
          \<and> 8 * j + 8 \<le> length b \<and> m \<in> set maps \<and> code (insn_at b j) = BPF_LD_IMM64
          \<and> ((\<forall>l. k < l \<longrightarrow> l < n \<longrightarrow> map_option fst (relo_of elf data symbols maps l) \<noteq> Some j) \<longrightarrow>
               insn_at b' j = (insn_at b j)\<lparr>src_reg := 1, imm := word_of_int (fd m)\<rparr>)" if k: "k < n" for k
  proof -
    obtain j m where jm: "relo_of elf data symbols maps k = Some (j, m)" "8 * j + 8 \<le> length b"
      "code (insn_at b j) = BPF_LD_IMM64" using s k by force
    moreover have "m \<in> set maps" using jm(1) by (auto simp: relo_of_def bind_eq_Some_conv dest: find_map_Some)
    ultimately show ?thesis using s fold_relo_insn_last [OF k jm(1)] by auto
  qed
  ultimately show ?thesis using s unfolding n_def by blast
qed

definition demo_relocations :: elf_object where
  "demo_relocations =
     \<lparr>e_shnum = 0, elf_getscn = (\<lambda>i. None), elf_strptr = (\<lambda>i n. Some ''m''),
      gelf_getsym = (\<lambda>i n. if n = 0 then Some \<lparr>st_name = 0, st_value = 28, st_shndx = 2\<rparr>
                           else Some \<lparr>st_name = 0, st_value = 0, st_shndx = 2\<rparr>),
      gelf_getrel = (\<lambda>i n. Some \<lparr>r_offset = 0, r_sym = 0\<rparr>)\<rparr>"

definition demo_rel_section :: elf_section where
  "demo_rel_section =
     \<lparr>shdr_ok = True, sh_name = Some ''.relxdp'', sh_type = SHT_REL, sh_flags = 0, sh_size = 16,
      sh_entsize = 16, sh_link = 1, sh_info = 3, has_data = True, more_data = False\<rparr>"

definition demo_maps :: "bpf_map_data list" where
  "demo_maps =
     (let d = \<lparr>map_type = 2, key_size = 4, value_size = 8, max_entries = 1, map_flags = 0, inner_map_idx = 0, numa_node = 0\<rparr>
      in [\<lparr>fd = 5, name = ''a'', elf_offset = 0, map_def = d\<rparr>, \<lparr>fd = 6, name = ''b'', elf_offset = 28, map_def = d\<rparr>])"

theorem parse_relo_and_apply_correct_witness:
  "parse_relo_and_apply demo_relocations 4 1 demo_rel_section demo_maps [0x18, 2, 0, 0, 0, 0, 0, 0]
     = Inr (0, [0x18, 0x12, 0, 0, 6, 0, 0, 0])
   \<and> insn_at [0x18, 0x12, 0, 0, 6, 0, 0, 0] 0 = (insn_at [0x18, 2, 0, 0, 0, 0, 0, 0] 0)\<lparr>src_reg := 1, imm := 6\<rparr>"
proof -
  have "le_bytes 4 (6 :: u32) = [6, 0, 0, 0]" by code_simp
  then have r: "parse_relo_and_apply demo_relocations 4 1 demo_rel_section demo_maps [0x18, 2, 0, 0, 0, 0, 0, 0]
     = Inr (0, [0x18, 0x12, 0, 0, 6, 0, 0, 0])"
    by (simp add: parse_relo_and_apply_def demo_rel_section_def demo_relocations_def demo_maps_def apply_relo_def
        insn_at_def BPF_LD_IMM64_def set_src_reg_def set_imm_def BPF_PSEUDO_MAP_FD_def Let_def)
  have "relo_of demo_relocations 4 1 demo_maps 0 = Some (0, demo_maps ! 1)"
    by (simp add: relo_of_def demo_relocations_def insn_idx_def demo_maps_def Let_def)
  then have "insn_at [0x18, 0x12, 0, 0, 6, 0, 0, 0] 0
     = (insn_at [0x18, 2, 0, 0, 0, 0, 0, 0] 0)\<lparr>src_reg := 1, imm := word_of_int (fd (demo_maps ! 1))\<rparr>"
    using parse_relo_and_apply_correct [OF r] by (simp add: demo_rel_section_def)
  then show ?thesis using r by (simp add: demo_maps_def Let_def)
qed

section \<open>The maps section\<close>

lemma map_symbols_spec:
  "map_symbols elf y sh i n acc = Inr gs \<Longrightarrow>
    gs = acc @ filter (\<lambda>g. st_shndx g = sh) (List.map_filter (gelf_getsym elf y) [i..<i + n])"
proof (induction n arbitrary: i acc)
  case (Suc n)
  have u: "[i..<i + Suc n] = i # [i + 1..<i + 1 + n]" by (simp add: upt_conv_Cons del: upt_Suc)
  define acc' where "acc' = (case gelf_getsym elf y i of None \<Rightarrow> acc
      | Some g \<Rightarrow> if st_shndx g \<noteq> sh then acc else acc @ [g])"
  have "map_symbols elf y sh (i + 1) n acc' = Inr gs"
    using Suc.prems by (simp add: acc'_def split: if_splits)
  from Suc.IH [OF this] show ?case
    unfolding u by (simp add: acc'_def map_filter_simps del: upt_Suc split: option.splits)
qed (simp add: map_filter_simps)

text \<open>The entry that the copying loop makes for a symbol.\<close>

definition map_entry :: "elf_object \<Rightarrow> nat \<Rightarrow> u8 list \<Rightarrow> nat \<Rightarrow> elf_sym \<Rightarrow> bpf_map_data \<Rightarrow> bool" where
  "map_entry elf st data sz g m \<longleftrightarrow>
     elf_strptr elf st (st_name g) = Some (name m) \<and> elf_offset m = st_value g
     \<and> map_def m = map_def_of_bytes (take (min sz 28) (drop (st_value g) data))
     \<and> st_value g + sz \<le> length data"

lemma load_map_def_spec:
  assumes "load_map_def io elf st data sz i g s = Inr (None, s')"
  shows "i < length (map_data s) \<and> (\<exists>m. map_data s' = (map_data s)[i := m] \<and> map_entry elf st data sz g m)"
proof -
  obtain nm e t where nm: "elf_strptr elf st (st_name g) = Some nm" and c: "call (strdup_errno io nm) s = (e, t)"
    using assms by (cases "elf_strptr elf st (st_name g)") (auto simp: load_map_def_def, force)
  have t: "map_data t = map_data s" by (rule call_fields [OF c])
  have "e = None \<and> i < length (map_data s) \<and> st_value g + sz \<le> length data \<and>
      map_data s' = (map_data s)[i := (map_data s ! i)\<lparr>name := nm, elf_offset := st_value g,
        map_def := map_def_of_bytes (take (min sz 28) (drop (st_value g) data))\<rparr>]"
    using assms nm c t
    by (auto simp: load_map_def_def bindE_eq_Inr get_eq_Inr Let_def split: option.splits if_splits)
  then show ?thesis using nm by (auto simp: map_entry_def)
qed

lemma load_map_defs_spec:
  assumes "load_map_defs io elf st data sz i gs s = Inr (None, s')"
  shows "(gs \<noteq> [] \<longrightarrow> i + length gs \<le> length (map_data s)) \<and> length (map_data s') = length (map_data s)
    \<and> (\<forall>k. k < i \<or> i + length gs \<le> k \<longrightarrow> map_data s' ! k = map_data s ! k)
    \<and> (\<forall>k < length gs. map_entry elf st data sz (gs ! k) (map_data s' ! (i + k)))"
  using assms
proof (induction gs arbitrary: i s)
  case (Cons g gs)
  obtain t where l: "load_map_def io elf st data sz i g s = Inr (None, t)"
    and r: "load_map_defs io elf st data sz (i + 1) gs t = Inr (None, s')"
    using Cons.prems by (auto simp: bindE_eq_Inr split: option.splits)
  obtain m where m: "i < length (map_data s)" "map_data t = (map_data s)[i := m]" "map_entry elf st data sz g m"
    using load_map_def_spec [OF l] by blast
  note ih = Cons.IH [OF r]
  have "map_entry elf st data sz ((g # gs) ! k) (map_data s' ! (i + k))" if "k < length (g # gs)" for k
    using ih m that by (cases k) auto
  moreover have "map_data s' ! k = map_data s ! k" if "k < i \<or> i + length (g # gs) \<le> k" for k
    using ih m that by auto
  moreover have "i + length (g # gs) \<le> length (map_data s)" using ih m by (cases gs) auto
  ultimately show ?case using ih m by simp
qed simp

lemma load_map_def_error:
  assumes "load_map_def io elf st data sz i g s = Inr (Some e, s')"
    "\<And>nm w e w'. strdup_errno io nm w = (Some e, w') \<Longrightarrow> 0 < e"
  shows "e < 0"
proof -
  have "0 < x" if "fst (strdup_errno io nm w) = Some x" for nm w x
    using assms(2) [of nm w x "snd (strdup_errno io nm w)"] that by (metis prod.collapse)
  then show ?thesis
    using assms(1) by (auto simp: load_map_def_def stepping get_eq_Inr split: option.splits if_splits)
qed

lemma load_map_defs_error:
  assumes "load_map_defs io elf st data sz i gs s = Inr (Some e, s')"
    "\<And>nm w e w'. strdup_errno io nm w = (Some e, w') \<Longrightarrow> 0 < e"
  shows "e < 0"
  using assms(1)
proof (induction gs arbitrary: i s)
  case (Cons g gs)
  then obtain q t where l: "load_map_def io elf st data sz i g s = Inr (q, t)"
    and r: "(case q of Some e \<Rightarrow> Inr (Some e, t) | None \<Rightarrow> load_map_defs io elf st data sz (i + 1) gs t) = Inr (Some e, s')"
    by (auto simp: bindE_eq_Inr)
  show ?case
  proof (cases q)
    case (Some x)
    then show ?thesis using l r load_map_def_error [OF _ assms(2)] by auto
  qed (use r Cons.IH in simp)
qed simp

text \<open>The symbols of the symbol table that lie in the maps section.\<close>

definition section_symbols :: "elf_object \<Rightarrow> nat \<Rightarrow> nat \<Rightarrow> nat \<Rightarrow> elf_sym list" where
  "section_symbols elf symtab shndx n =
     filter (\<lambda>g. st_shndx g = int shndx) (List.map_filter (gelf_getsym elf symtab) [0..<n])"

lemma load_elf_maps_section_cases:
  assumes "load_elf_maps_section io elf (Some i) (Some y) st s = Inr (n, s')" "0 \<le> n"
    "\<And>nm w e w'. strdup_errno io nm w = (Some e, w') \<Longrightarrow> 0 < e"
  obtains gs t where "gs = section_symbols elf y i (length (d_buf s y) div 24)" "gs \<noteq> []" "n = int (length gs)"
    "map_data t = map_data s"
    "load_map_defs io elf st (d_buf s i) (length (d_buf s i) div length gs) 0 (sort_key st_value gs) t = Inr (None, s')"
proof -
  obtain ok t where c: "call (calloc_ok io) s = (ok, t)" by force
  have t: "map_data t = map_data s" "d_buf t = d_buf s" by (rule call_fields [OF c])+
  obtain gs q where g: "map_symbols elf y (int i) 0 (length (d_buf s y) div 24) [] = Inr gs" "gs \<noteq> []"
    and l: "load_map_defs io elf st (d_buf s i) (length (d_buf s i) div length gs) 0 (sort_key st_value gs) t = Inr (q, s')"
    and q: "q = Some n \<or> q = None \<and> n = int (length gs)"
    using assms(1,2) c t
    by (auto simp: load_elf_maps_section_def bindE_eq_Inr Let_def split: if_splits option.split_asm)
      (metis option.exhaust)
  have "q = None" using l q assms(2) load_map_defs_error [OF _ assms(3)] by (cases q) fastforce+
  then show thesis
    using that [of gs t] g l q t(1) map_symbols_spec [OF g(1)] by (simp add: section_symbols_def)
qed

text \<open>
  C16: When the maps section is read without an error, the number returned is that of the symbols in the
  section and fits the table; the first entries of the table are these symbols ordered by offset, each
  with its name and the definition found at its offset, cut to or padded to the size the loader knows,
  and lying inside the section; the rest of the table is untouched.
\<close>

theorem load_elf_maps_section_correct:
  assumes "load_elf_maps_section io elf (Some i) (Some y) st s = Inr (n, s')" "0 \<le> n"
    "\<And>nm w e w'. strdup_errno io nm w = (Some e, w') \<Longrightarrow> 0 < e"
    and gs: "gs = section_symbols elf y i (length (d_buf s y) div 24)"
  shows "n = int (length gs) \<and> length gs \<le> length (map_data s)
    \<and> mset (map elf_offset (take (length gs) (map_data s'))) = mset (map st_value gs)
    \<and> sorted (map elf_offset (take (length gs) (map_data s')))
    \<and> (\<forall>k < length gs. \<exists>g \<in> set gs.
          map_entry elf st (d_buf s i) (length (d_buf s i) div length gs) g (map_data s' ! k))
    \<and> drop (length gs) (map_data s') = drop (length gs) (map_data s)"
proof -
  define ys where "ys = sort_key st_value gs"
  obtain t where ne: "gs \<noteq> []" and n: "n = int (length gs)" and t: "map_data t = map_data s"
    and l: "load_map_defs io elf st (d_buf s i) (length (d_buf s i) div length gs) 0 ys t = Inr (None, s')"
    by (rule load_elf_maps_section_cases [OF assms(1,2)]) (auto simp: gs ys_def dest: assms(3))
  note sp = load_map_defs_spec [OF l, unfolded t]
  have "length ys = length gs" by (simp add: ys_def)
  then have len: "length ys = length gs" "length gs \<le> length (map_data s)" "length (map_data s') = length (map_data s)"
    using sp ne by auto
  have "map elf_offset (take (length gs) (map_data s')) = map st_value ys"
    using sp len by (intro nth_equalityI) (auto simp: map_entry_def)
  moreover have "drop (length gs) (map_data s') = drop (length gs) (map_data s)"
    using sp len by (intro nth_equalityI) auto
  moreover have "ys ! k \<in> set gs" if "k < length gs" for k
    using nth_mem [of k ys] that len by (simp add: ys_def)
  ultimately show ?thesis
    using n len sp by (auto simp: ys_def mset_map)
qed

definition demo_map_object :: elf_object where
  "demo_map_object = demo_relocations\<lparr>elf_getscn := \<lambda>i. Some demo_rel_section\<rparr>"

definition demo_map_state :: "nat loader" where
  "demo_map_state = demo_loader\<lparr>d_buf := \<lambda>i. if i = 1 then replicate 48 0 else replicate 56 0\<rparr>"

theorem load_elf_maps_section_correct_witness:
  "\<exists>s'. load_elf_maps_section demo_sys demo_map_object (Some 2) (Some 1) 9 demo_map_state = Inr (2, s')
    \<and> sorted (map elf_offset (take 2 (map_data s'))) \<and> elf_offset (map_data s' ! 1) = 28"
proof -
  define s' where "s' = snd (projr (load_elf_maps_section demo_sys demo_map_object (Some 2) (Some 1) 9 demo_map_state))"
  have d: "56 div Suc (Suc 0) = (28 :: nat)" by (simp flip: numeral_2_eq_2)
  have r: "load_elf_maps_section demo_sys demo_map_object (Some 2) (Some 1) 9 demo_map_state = Inr (2, s')
      \<and> elf_offset (map_data s' ! 1) = 28"
    unfolding s'_def
    by (simp add: load_elf_maps_section_def demo_map_object_def demo_relocations_def demo_rel_section_def
        demo_map_state_def demo_sys_def demo_loader_def call_eq numeral_2_eq_2 load_map_def_def Let_def get_def d)
  have "length (section_symbols demo_map_object 1 2 (length (d_buf demo_map_state 1) div 24)) = 2"
    by (simp add: section_symbols_def demo_map_object_def demo_relocations_def demo_map_state_def
        map_filter_simps numeral_2_eq_2)
  then show ?thesis
    using load_elf_maps_section_correct [OF conjunct1 [OF r] _ _ refl] r by (auto simp: demo_sys_def)
qed

text \<open>
  The index of a section such as \<^verbatim>\<open>sk_skb/3\<close> is not used: seven characters are skipped for the
  names with six as well, so the digit stands where the slash is expected and the program is left out of
  the program array, where \<^verbatim>\<open>socket/3\<close> and \<^verbatim>\<open>sockops/3\<close> enter it.  The bare names are
  read beyond their end.
\<close>

theorem numbered_sections:
  assumes "digit d"
  shows "attach io (''sk_skb/'' @ d # ds) pfd s = Inr (0, s)"
    and "attach io (''sk_msg/'' @ d # ds) pfd s = Inr (0, s)"
    and "attach io (''socket/'' @ d # ds) pfd s = Inr (populate_prog_array io (d # ds) pfd s)"
    and "attach io (''sockops/'' @ d # ds) pfd s = Inr (populate_prog_array io (d # ds) pfd s)"
    and "attach io ''sk_skb'' pfd s = Inl (Outside ''event'')"
    and "attach io ''sk_msg'' pfd s = Inl (Outside ''event'')"
proof -
  have "d \<noteq> CHR ''/''" using assms by (auto simp: digit_def)
  then show "attach io (''sk_skb/'' @ d # ds) pfd s = Inr (0, s)"
    "attach io (''sk_msg/'' @ d # ds) pfd s = Inr (0, s)"
    "attach io (''socket/'' @ d # ds) pfd s = Inr (populate_prog_array io (d # ds) pfd s)"
    "attach io (''sockops/'' @ d # ds) pfd s = Inr (populate_prog_array io (d # ds) pfd s)"
    "attach io ''sk_skb'' pfd s = Inl (Outside ''event'')"
    "attach io ''sk_msg'' pfd s = Inl (Outside ''event'')"
    using assms by (simp_all add: attach_def attach_numbered_def char_at_def)
qed

text \<open>
  The variant for \<^verbatim>\<open>fexit\<close> programs attaches none of them: once such a program is loaded, the code
  opens the file named by a buffer that nothing has been written to.
\<close>

theorem fexit_buffer_uninitialised:
  assumes "load_prog io TRACING prog s = Inr (Some pfd, t)"
  shows "load_and_attach_fexit io (''fexit/'' @ ev) prog s = Inl (Uninitialised ''buf'')"
  using assms by (simp add: load_and_attach_fexit_def prog_type_of_fexit_def prog_type_of_def attach_def)

end
