(* ===== verification/Probes.thy ===== *)
theory Probes
  imports Packets
begin

text \<open>
  The tracing programs and the traffic-control program of the repository.
  \<^verbatim>\<open>kprobe_file_read/bpf_test.c\<close> replaces the result of \<^verbatim>\<open>read\<close> in chosen processes,
  \<^verbatim>\<open>crash_systemd/bpf_kern.c\<close> makes every \<^verbatim>\<open>read\<close> of process 1 return nothing,
  \<^verbatim>\<open>fexit_example/bpf_kern.c\<close> looks at the buffer of a finished call, and
  \<^verbatim>\<open>tcp_push/tcp_push.c\<close> sets the PSH flag of some packets.  What the kernel helpers return about
  the current task and the user memory is the argument of a program; the result lists what the
  program asked the kernel to do.
\<close>

section \<open>Comparing buffers\<close>

fun my_memcmp :: "u8 list \<Rightarrow> u8 list \<Rightarrow> nat \<Rightarrow> int" where
  "my_memcmp b1 b2 0 = 0"
| "my_memcmp b1 b2 (Suc 0) = int (unat (hd b1)) - int (unat (hd b2))"
| "my_memcmp b1 b2 (Suc (Suc n)) =
     (if hd b1 = hd b2 then my_memcmp (tl b1) (tl b2) (Suc n) else int (unat (hd b1)) - int (unat (hd b2)))"

section \<open>Rewriting the result of read\<close>

text \<open>What the helpers report: the name and the id of the task, and the arguments of \<^verbatim>\<open>read\<close>.\<close>

record read_ctx =
  current_comm :: "u8 list"
  pid_tgid :: u64
  inner_ctx :: u64
  parm2 :: u64
  write_user_ok :: bool

record probe_state =
  comm :: "u8 list \<Rightarrow> int option"
  written :: "int \<Rightarrow> int option"

record probe_effects =
  override_ret :: "u64 option"
  user_write :: "(u64 \<times> u8 list) option"

definition no_effects :: probe_effects where
  "no_effects = \<lparr>override_ret = None, user_write = None\<rparr>"

definition payload :: "u8 list" where
  "payload = [100, 100, 0]"

definition tgid_of :: "u64 \<Rightarrow> int" where
  "tgid_of pt = sint (ucast (drop_bit 32 pt) :: u32)"

text \<open>\<^verbatim>\<open>written\<close> is a hash table; \<open>admits\<close> says whether the kernel stores a new key.\<close>

definition store_written :: "((int \<Rightarrow> int option) \<Rightarrow> int \<Rightarrow> bool) \<Rightarrow> int \<Rightarrow> int \<Rightarrow> probe_state \<Rightarrow> probe_state" where
  "store_written admits pid w s =
     (if written s pid \<noteq> None \<or> admits (written s) pid then s\<lparr>written := (written s)(pid \<mapsto> w)\<rparr> else s)"

definition kprobe_sys_read :: "((int \<Rightarrow> int option) \<Rightarrow> int \<Rightarrow> bool) \<Rightarrow> read_ctx \<Rightarrow> probe_state \<Rightarrow> probe_effects \<times> probe_state" where
  "kprobe_sys_read admits ctx s =
     (case comm s (current_comm ctx) of None \<Rightarrow> (no_effects, s)
      | Some _ \<Rightarrow>
          let pid = tgid_of (pid_tgid ctx); my_written = written s pid in
          if inner_ctx ctx = 0 then (no_effects, s)
          else if parm2 ctx = 0 then (no_effects, s)
          else if my_written = Some 1 then
            (\<lparr>override_ret = Some 0, user_write = None\<rparr>, store_written admits pid 0 s)
          else
            (\<lparr>override_ret = Some 3, user_write = (if write_user_ok ctx then Some (parm2 ctx, payload) else None)\<rparr>,
             store_written admits pid 1 s))"

section \<open>The other tracing programs\<close>

definition kprobe_unix_stream_recvmsg :: "u64 \<Rightarrow> probe_effects" where
  "kprobe_unix_stream_recvmsg pt =
     (if tgid_of pt \<noteq> 1 then no_effects else \<lparr>override_ret = Some 0, user_write = None\<rparr>)"

text \<open>The exit program only prints: \<open>None\<close>, or the buffer it prints.\<close>

definition read_exit :: "u64 \<Rightarrow> u8 list \<Rightarrow> u8 list option" where
  "read_exit pt buf = (if (ucast (drop_bit 32 pt) :: u32) \<noteq> 1 then None else Some (take 100 buf))"

section \<open>Setting the PSH flag\<close>

abbreviation RATIO :: u32 where "RATIO \<equiv> 10"

definition set_psh :: "packet \<Rightarrow> packet" where
  "set_psh p = set_field p 46 2 (field p 46 2 OR push_bit 11 1 :: u16)"

definition tcp_psh :: "u32 \<Rightarrow> packet \<Rightarrow> int \<times> packet" where
  "tcp_psh rnd p =
     (if 54 > length p then (0, p)
      else if h_proto (ethhdr_at p 0) \<noteq> bpf_ntohs ETH_P_IP \<or> protocol (iphdr_at p 14) \<noteq> IPPROTO_TCP then (0, p)
      else let t = tcphdr_at p 34 in
        if syn t \<noteq> 0 \<or> fin t \<noteq> 0 \<or> rst t \<noteq> 0 \<or> psh t \<noteq> 0 then (0, p)
        else (0, if rnd mod RATIO = 0 then set_psh p else p))"

definition xdp_main :: "u32 \<Rightarrow> packet \<Rightarrow> xdp_action \<times> packet" where
  "xdp_main rnd p = (let (r, p) = tcp_psh rnd p in (if r \<noteq> 0 then XDP_DROP else XDP_PASS, p))"

abbreviation TC_ACT_OK :: int where "TC_ACT_OK \<equiv> 0"
abbreviation TC_ACT_SHOT :: int where "TC_ACT_SHOT \<equiv> 2"

definition tc_main :: "u32 \<Rightarrow> packet \<Rightarrow> int \<times> packet" where
  "tc_main rnd p = (let (r, p) = tcp_psh rnd p in (if r \<noteq> 0 then TC_ACT_SHOT else TC_ACT_OK, p))"

section \<open>Laws\<close>

lemma my_memcmp_eq_0:
  "n \<le> length a \<Longrightarrow> n \<le> length b \<Longrightarrow> my_memcmp a b n = 0 \<longleftrightarrow> take n a = take n b"
proof (induction a b n rule: my_memcmp.induct)
  case (2 a b)
  then show ?case by (cases a; cases b) (auto simp: word_uint_eq_iff)
next
  case (3 a b n)
  then show ?case by (cases a; cases b) (auto simp: word_uint_eq_iff)
qed simp

text \<open>The one's complement sum of the words of the TCP header.\<close>

definition tcp_words :: "packet \<Rightarrow> nat list" where
  "tcp_words p = map (\<lambda>i. be16 p (34 + 2 * i)) [0..<10]"

definition tcp_sum :: "packet \<Rightarrow> nat" where
  "tcp_sum p = sum_list (tcp_words p) mod 65535"

lemma bit_psh: "bit (2048 :: int) n \<longleftrightarrow> n = 11" "bit (8 :: int) n \<longleftrightarrow> n = 3"
  using bit_exp_iff [of 11 n, where 'a = int] bit_exp_iff [of 3 n, where 'a = int] by simp_all

lemma set_psh_byte: "48 \<le> length p \<Longrightarrow> set_psh p = p[47 := p ! 47 OR 8]"
proof -
  assume l: "48 \<le> length p"
  have lo: "(ucast (field p 46 2 OR push_bit 11 1 :: u16) :: u8) = p ! 46"
    using l by (intro bit_word_eqI) (auto simp: field_2 bit_simps bit_psh dest: bit_imp_le_length)
  have hi: "(ucast (drop_bit 8 (field p 46 2 OR push_bit 11 1 :: u16)) :: u8) = p ! 47 OR 8"
    using l by (intro bit_word_eqI) (auto simp: field_2 bit_simps bit_psh dest: bit_imp_le_length)
  have "le_bytes 2 (field p 46 2 OR push_bit 11 1 :: u16) = [p ! 46, p ! 47 OR 8]"
    using lo hi by (simp add: numeral_2_eq_2)
  then have "set_psh p = take 46 p @ [p ! 46, p ! 47 OR 8] @ drop 48 p"
    by (simp add: set_psh_def set_field_def)
  also have "\<dots> = p[47 := p ! 47 OR 8]"
    using l take_Suc_conv_app_nth [of 46 p] by (simp add: upd_conv_take_nth_drop)
  finally show ?thesis .
qed

lemma tcp_sum_set_psh:
  assumes "54 \<le> length p" "psh (tcphdr_at p 34) = 0"
  shows "tcp_sum (set_psh p) = (tcp_sum p + 8) mod 65535"
proof -
  have nb: "\<not> bit (p ! 47) 3"
  proof
    assume "bit (p ! 47) 3"
    then have "bit (field p 46 2 :: u16) 11" using assms(1) by (simp add: field_2 bit_simps)
    then have "psh (tcphdr_at p 34) \<noteq> 0"
      by (simp add: tcphdr_at_def Let_def bitfield_def bit_iff_odd_drop_bit take_bit_eq_mod mod_2_eq_odd)
    then show False using assms(2) by simp
  qed
  have "p ! 47 OR 8 = p ! 47 + 8"
  proof (rule disjunctive_add [symmetric])
    fix n show "\<not> bit (p ! 47) n \<or> \<not> bit (8 :: u8) n"
      using nb by (auto simp: bit_psh)
  qed
  moreover have "unat (p ! 47 + 8) = unat (p ! 47) + 8"
  proof -
    have "p ! 47 = p ! 47 AND NOT 8" using nb
      by (intro bit_word_eqI) (auto simp: bit_simps bit_psh)
    then have "p ! 47 \<le> NOT 8" by (metis word_and_le1)
    then have "unat (p ! 47) \<le> 247" by (simp add: word_le_nat_alt)
    then show ?thesis by (simp add: unat_word_ariths)
  qed
  ultimately have b: "be16 (set_psh p) (34 + 2 * 6) = be16 p (34 + 2 * 6) + 8"
    using assms(1) by (simp add: be16_def set_psh_byte)
  have o: "be16 (set_psh p) i = be16 p i" if "i \<noteq> 46" "i \<noteq> 47" for i
    using assms(1) that by (simp add: be16_def set_psh_byte nth_list_update)
  have "sum_list (tcp_words (set_psh p)) = sum_list (tcp_words p) + 8"
    unfolding tcp_words_def using b o by (simp add: upt_rec)
  then show ?thesis by (simp add: tcp_sum_def mod_add_left_eq)
qed

text \<open>
  C37: When the program sets the flag, the sum of the header words changes, and no other byte of the
  packet does, so a packet whose checksum was right leaves with a wrong one.
\<close>

theorem tcp_psh_breaks_checksum:
  assumes "54 \<le> length p" "be16 p 12 = 0x800" "p ! 23 = 6"
    and "syn (tcphdr_at p 34) = 0" "fin (tcphdr_at p 34) = 0" "rst (tcphdr_at p 34) = 0" "psh (tcphdr_at p 34) = 0"
    and "rnd mod RATIO = 0"
  shows "snd (tcp_psh rnd p) = p[47 := p ! 47 OR 8] \<and> tcp_sum (snd (tcp_psh rnd p)) \<noteq> tcp_sum p"
proof -
  have r: "snd (tcp_psh rnd p) = set_psh p"
    using assms
    by (simp add: tcp_psh_def Let_def ethhdr_at_def iphdr_at_def field_eq_port field_1 [unfolded One_nat_def])
  have "(x + 8) mod 65535 \<noteq> x" if "x < 65535" for x :: nat
    using that by (cases "x + 8 < 65535") (simp_all add: le_mod_geq)
  moreover have "tcp_sum p < 65535" by (simp add: tcp_sum_def)
  ultimately have "tcp_sum (set_psh p) \<noteq> tcp_sum p" using tcp_sum_set_psh [OF assms(1,7)] by simp
  then show ?thesis using assms(1) r set_psh_byte [of p] by simp
qed

theorem tcp_psh_breaks_checksum_witness:
  "tcp_sum (snd (tcp_psh 20 ((get_packet 47)[47 := 0x10]))) \<noteq> tcp_sum ((get_packet 47)[47 := 0x10])"
  by (rule conjunct2 [OF tcp_psh_breaks_checksum])
    (simp_all add: get_packet_def be16_def nth_append tcphdr_at_def Let_def bitfield_def field_2)

text \<open>The program on a sequence of reads.\<close>

fun probe_run :: "((int \<Rightarrow> int option) \<Rightarrow> int \<Rightarrow> bool) \<Rightarrow> read_ctx list \<Rightarrow> probe_state \<Rightarrow> probe_effects list" where
  "probe_run admits [] s = []"
| "probe_run admits (c # cs) s = (case kprobe_sys_read admits c s of (e, s) \<Rightarrow> e # probe_run admits cs s)"

definition faked :: "read_ctx \<Rightarrow> bool \<Rightarrow> probe_effects" where
  "faked c first =
     (if first then \<lparr>override_ret = Some 3, user_write = (if write_user_ok c then Some (parm2 c, payload) else None)\<rparr>
      else \<lparr>override_ret = Some 0, user_write = None\<rparr>)"

lemma kprobe_sys_read_step:
  assumes "\<And>m k. admits m k" "comm s (current_comm c) \<noteq> None" "inner_ctx c \<noteq> 0" "parm2 c \<noteq> 0"
  shows "kprobe_sys_read admits c s =
    (let first = (written s (tgid_of (pid_tgid c)) \<noteq> Some 1)
     in (faked c first, s\<lparr>written := (written s)(tgid_of (pid_tgid c) \<mapsto> (if first then 1 else 0))\<rparr>))"
  using assms by (auto simp: kprobe_sys_read_def Let_def store_written_def faked_def split: option.splits)



end
