(* ===== verification/Sockmap.thy ===== *)
theory Sockmap
  imports Packets
begin

text \<open>
  Redirection between sockets.  \<^verbatim>\<open>src/sockmap_1\<close> stores every established IPv4 socket in a
  hash of sockets under its addresses and sends each message to the socket stored under the swapped
  addresses.  \<^verbatim>\<open>src/sockmap_2\<close> forwards between two sockets of a proxy, by the kernel program or
  by the loop of the user program.  Sockets are numbers; the helpers that store a socket and the
  socket calls of the host are parameters.
\<close>

section \<open>The hash of sockets\<close>

record sock_key =
  sip4 :: u32
  dip4 :: u32
  family :: u8
  pad1 :: u8
  pad2 :: u16
  pad3 :: u32
  sport :: u32
  dport :: u32

definition zero_key :: sock_key where
  "zero_key = \<lparr>sip4 = 0, dip4 = 0, family = 0, pad1 = 0, pad2 = 0, pad3 = 0, sport = 0, dport = 0\<rparr>"

text \<open>The fields of \<^verbatim>\<open>struct bpf_sock_ops\<close> and \<^verbatim>\<open>struct sk_msg_md\<close> the programs read.\<close>

record sock_ctx =
  ctx_family :: u32
  local_ip4 :: u32
  remote_ip4 :: u32
  local_port :: u32
  remote_port :: u32

abbreviation BPF_SOCK_OPS_ACTIVE_ESTABLISHED_CB :: nat where "BPF_SOCK_OPS_ACTIVE_ESTABLISHED_CB \<equiv> 4"
abbreviation BPF_SOCK_OPS_PASSIVE_ESTABLISHED_CB :: nat where "BPF_SOCK_OPS_PASSIVE_ESTABLISHED_CB \<equiv> 5"

definition extract_key4_from_ops :: "sock_ctx \<Rightarrow> sock_key \<Rightarrow> sock_key" where
  "extract_key4_from_ops ops key =
     key\<lparr>dip4 := remote_ip4 ops, sip4 := local_ip4 ops, family := 1,
         sport := drop_bit 16 (bpf_ntohl (local_port ops)), dport := drop_bit 16 (remote_port ops)\<rparr>"

definition extract_key4_from_msg :: "sock_ctx \<Rightarrow> sock_key \<Rightarrow> sock_key" where
  "extract_key4_from_msg msg key =
     key\<lparr>sip4 := remote_ip4 msg, dip4 := local_ip4 msg, family := 1,
         dport := drop_bit 16 (bpf_ntohl (local_port msg)), sport := drop_bit 16 (remote_port msg)\<rparr>"

text \<open>
  \<^verbatim>\<open>sock_hash_update\<close> with \<^verbatim>\<open>BPF_NOEXIST\<close>; \<open>admits\<close> says whether the kernel stores a new key.
\<close>

type_synonym 's sock_hash = "sock_key \<Rightarrow> 's option"

definition sock_hash_update :: "('s sock_hash \<Rightarrow> sock_key \<Rightarrow> bool) \<Rightarrow> 's sock_hash \<Rightarrow> sock_key \<Rightarrow> 's \<Rightarrow> 's sock_hash" where
  "sock_hash_update admits m k v = (if m k = None \<and> admits m k then m(k \<mapsto> v) else m)"

definition bpf_sock_ops_ipv4 :: "('s sock_hash \<Rightarrow> sock_key \<Rightarrow> bool) \<Rightarrow> 's \<Rightarrow> sock_ctx \<Rightarrow> 's sock_hash \<Rightarrow> 's sock_hash" where
  "bpf_sock_ops_ipv4 admits sk skops m = sock_hash_update admits m (extract_key4_from_ops skops zero_key) sk"

definition bpf_sockmap :: "('s sock_hash \<Rightarrow> sock_key \<Rightarrow> bool) \<Rightarrow> nat \<Rightarrow> 's \<Rightarrow> sock_ctx \<Rightarrow> 's sock_hash \<Rightarrow> 's sock_hash" where
  "bpf_sockmap admits op sk skops m =
     (if op = BPF_SOCK_OPS_PASSIVE_ESTABLISHED_CB \<or> op = BPF_SOCK_OPS_ACTIVE_ESTABLISHED_CB
      then if ctx_family skops = 2 then bpf_sock_ops_ipv4 admits sk skops m else m
      else m)"

text \<open>The socket the message goes to; \<open>None\<close> leaves it on the normal path.\<close>

definition bpf_redir :: "sock_ctx \<Rightarrow> 's sock_hash \<Rightarrow> 's option" where
  "bpf_redir msg m = m (extract_key4_from_msg msg zero_key)"

section \<open>The proxy\<close>

record 's proxy_maps =
  proxy_map :: "u16 \<Rightarrow> u32 option"
  sock_map :: "u32 \<Rightarrow> 's option"

definition bpf_prog1 :: "u32 \<Rightarrow> u32" where
  "bpf_prog1 len = len"

text \<open>\<open>None\<close> is the verdict 0; otherwise the socket \<^verbatim>\<open>bpf_sk_redirect_map\<close> looks up.\<close>

definition bpf_prog2 :: "u32 \<Rightarrow> 's proxy_maps \<Rightarrow> 's option" where
  "bpf_prog2 rport m =
     (case proxy_map m (ucast (bpf_ntohl rport)) of None \<Rightarrow> None | Some index \<Rightarrow> sock_map m index)"

text \<open>The user program: its globals and the two maps.\<close>

record proxy =
  proxysd1 :: int
  proxysd2 :: int
  ctrl :: int
  maps :: "int proxy_maps"

definition set_sock :: "u32 \<Rightarrow> int option \<Rightarrow> proxy \<Rightarrow> proxy" where
  "set_sock k v s = s\<lparr>maps := (maps s)\<lparr>sock_map := (sock_map (maps s))(k := v)\<rparr>\<rparr>"

definition set_port :: "u16 \<Rightarrow> u32 \<Rightarrow> proxy \<Rightarrow> proxy" where
  "set_port k v s = s\<lparr>maps := (maps s)\<lparr>proxy_map := (proxy_map (maps s))(k \<mapsto> v)\<rparr>\<rparr>"

definition hup_handler :: "proxy \<Rightarrow> proxy" where
  "hup_handler s =
     (if ctrl s = 1 then
        let s = set_sock 0 (Some (proxysd1 s)) s; s = set_sock 1 (Some (proxysd2 s)) s in s\<lparr>ctrl := 0\<rparr>
      else if ctrl s = 0 then
        let s = set_sock 0 None s; s = set_sock 1 None s in s\<lparr>ctrl := 1\<rparr>
      else s)"

text \<open>The set-up of the maps, after the two connections exist.\<close>

definition proxy_setup :: "int \<Rightarrow> int \<Rightarrow> u16 \<Rightarrow> u16 \<Rightarrow> proxy \<Rightarrow> proxy" where
  "proxy_setup sd1 sd2 port1 port2 s =
     (let s = s\<lparr>proxysd1 := sd1, proxysd2 := sd2\<rparr>;
          s = set_sock 0 (Some sd1) s; s = set_sock 1 (Some sd2) s;
          s = set_port port1 1 s
      in set_port port2 0 s)"

section \<open>The forwarding loop\<close>

text \<open>
  \<open>sel\<close> says which of the two descriptors are ready; \<open>recv\<close> gives its return value and the bytes; \<open>send\<close>
  takes the bytes.  A negative count passed to \<^verbatim>\<open>send\<close> becomes a huge \<^verbatim>\<open>size_t\<close>, so the call reads
  outside \<^verbatim>\<open>buf\<close>; the same holds for printing a full buffer without a terminating zero.
\<close>

datatype proxy_fault = Send_outside | Print_outside

record 'w sock_io =
  io_select :: "int \<Rightarrow> int \<Rightarrow> 'w \<Rightarrow> (bool \<times> bool) \<times> 'w"
  io_recv :: "int \<Rightarrow> nat \<Rightarrow> 'w \<Rightarrow> (int \<times> u8 list) \<times> 'w"
  io_send :: "int \<Rightarrow> u8 list \<Rightarrow> 'w \<Rightarrow> 'w"

definition fill :: "nat \<Rightarrow> u8 list \<Rightarrow> u8 list \<Rightarrow> u8 list" where
  "fill maxsize old bs = take maxsize (bs @ drop (length bs) old)"

definition forward :: "nat \<Rightarrow> 'w sock_io \<Rightarrow> int \<Rightarrow> int \<Rightarrow> u8 list \<Rightarrow> 'w \<Rightarrow> proxy_fault + (u8 list \<times> 'w)" where
  "forward maxsize io from to buf w =
     (let ((ret, bs), w) = io_recv io from maxsize w;
          buf = (if 0 < ret then fill maxsize buf (take (nat ret) bs) else buf) in
      if 0 \<notin> set buf then Inl Print_outside
      else if ret < 0 then Inl Send_outside
      else Inr (buf, io_send io to (take (nat ret) buf) w))"

definition proxy_round :: "nat \<Rightarrow> 'w sock_io \<Rightarrow> int \<Rightarrow> int \<Rightarrow> 'w \<Rightarrow> proxy_fault + 'w" where
  "proxy_round maxsize io sd1 sd2 w =
     (let ((r1, r2), w) = io_select io sd1 sd2 w; buf = replicate maxsize 0 in
      bindE (if r1 then forward maxsize io sd1 sd2 buf w else Inr (buf, w)) (\<lambda>(buf, w).
      bindE (if r2 then forward maxsize io sd2 sd1 buf w else Inr (buf, w)) (\<lambda>(buf, w). Inr w)))"

primrec proxy_rounds :: "nat \<Rightarrow> nat \<Rightarrow> 'w sock_io \<Rightarrow> int \<Rightarrow> int \<Rightarrow> 'w \<Rightarrow> proxy_fault + 'w" where
  "proxy_rounds 0 maxsize io sd1 sd2 w = Inr w"
| "proxy_rounds (Suc n) maxsize io sd1 sd2 w =
     bindE (proxy_round maxsize io sd1 sd2 w) (proxy_rounds n maxsize io sd1 sd2)"

text \<open>The buffer of \<^verbatim>\<open>proxy.c\<close> has 100 bytes, that of \<^verbatim>\<open>sockmap_user.c\<close> 1024.\<close>

abbreviation MAXSIZE :: nat where "MAXSIZE \<equiv> 100"
abbreviation MAXSIZE_user :: nat where "MAXSIZE_user \<equiv> 1024"

definition proxy_loop :: "nat \<Rightarrow> 'w sock_io \<Rightarrow> int \<Rightarrow> int \<Rightarrow> 'w \<Rightarrow> proxy_fault + 'w" where
  "proxy_loop n = proxy_rounds n MAXSIZE"

definition user_loop :: "nat \<Rightarrow> 'w sock_io \<Rightarrow> int \<Rightarrow> int \<Rightarrow> 'w \<Rightarrow> proxy_fault + 'w" where
  "user_loop n = proxy_rounds n MAXSIZE_user"

section \<open>Both ends of a connection\<close>

text \<open>
  What the kernel shows a program about the end at \<open>lip:lport\<close> of a connection to \<open>rip:rport\<close>: the local
  port in host byte order, the remote port in network byte order in the upper half.
\<close>

definition endpoint :: "u32 \<Rightarrow> u16 \<Rightarrow> u32 \<Rightarrow> u16 \<Rightarrow> sock_ctx" where
  "endpoint lip lport rip rport =
     \<lparr>ctx_family = 2, local_ip4 = lip, remote_ip4 = rip, local_port = ucast lport,
      remote_port = push_bit 16 (ucast (bpf_ntohs rport))\<rparr>"

lemma bit_bytes: "bit (0xff00 :: int) n \<longleftrightarrow> 8 \<le> n \<and> n < 16"
proof -
  have e: "(0xff00 :: int) = push_bit 8 (mask 8)" by (simp add: mask_eq_exp_minus_1)
  show ?thesis unfolding e by (auto simp: bit_push_bit_iff_int bit_mask_iff possible_bit_def)
qed

lemma bit_byte: "bit (255 :: int) n \<longleftrightarrow> n < 8"
  using bit_mask_iff [of 8 n, where 'a = int] by (simp add: mask_eq_exp_minus_1 possible_bit_def)

lemma port_local: "drop_bit 16 (bpf_ntohl (ucast p)) = (ucast (bpf_ntohs p) :: u32)"
  by (rule bit_word_eqI) (auto simp: bpf_ntohl_def bpf_ntohs_def bit_simps bit_bytes bit_byte dest: bit_imp_le_length)

lemma port_remote: "drop_bit 16 (push_bit 16 (ucast (p :: u16))) = (ucast p :: u32)"
  by (rule bit_word_eqI) (auto simp: bit_simps dest: bit_imp_le_length)

lemma port_ntohl: "(ucast (bpf_ntohl (push_bit 16 (ucast (bpf_ntohs p)))) :: u16) = p"
  by (rule bit_word_eqI) (auto simp: bpf_ntohl_def bpf_ntohs_def bit_simps bit_bytes bit_byte dest: bit_imp_le_length)

lemma ntohs_inject: "bpf_ntohs p = bpf_ntohs q \<longleftrightarrow> p = q"
  by (metis bpf_ntohs_ntohs)

lemma ucast_inject_16: "(ucast (p :: u16) :: u32) = ucast q \<longleftrightarrow> p = q"
proof
  assume "(ucast p :: u32) = ucast q"
  then have e: "bit (ucast p :: u32) n = bit (ucast q :: u32) n" for n by simp
  show "p = q"
  proof (rule bit_word_eqI)
    fix n :: nat assume "n < LENGTH(16)"
    then show "bit p n = bit q n" using e [of n] by (simp add: bit_simps)
  qed
qed simp

definition stored_key :: "u32 \<Rightarrow> u16 \<Rightarrow> u32 \<Rightarrow> u16 \<Rightarrow> sock_key" where
  "stored_key lip lport rip rport =
     zero_key\<lparr>dip4 := rip, sip4 := lip, family := 1, sport := ucast (bpf_ntohs lport), dport := ucast (bpf_ntohs rport)\<rparr>"

lemma key_from_ops: "extract_key4_from_ops (endpoint a pa b pb) zero_key = stored_key a pa b pb"
  by (simp add: extract_key4_from_ops_def endpoint_def port_local port_remote stored_key_def)

lemma key_from_msg: "extract_key4_from_msg (endpoint a pa b pb) zero_key = stored_key b pb a pa"
  by (simp add: extract_key4_from_msg_def endpoint_def port_local port_remote stored_key_def zero_key_def)

lemma stored_key_eq: "stored_key a pa b pb = stored_key b pb a pa \<longleftrightarrow> a = b \<and> pa = pb"
  by (auto simp: stored_key_def zero_key_def ucast_inject_16 ntohs_inject)



section \<open>The proxy\<close>

definition fresh_proxy :: proxy where
  "fresh_proxy = \<lparr>proxysd1 = 0, proxysd2 = 0, ctrl = 0, maps = \<lparr>proxy_map = \<lambda>_. None, sock_map = \<lambda>_. None\<rparr>\<rparr>"

definition from_port :: "u16 \<Rightarrow> u32" where
  "from_port p = push_bit 16 (ucast (bpf_ntohs p))"

lemma prog2_port: "bpf_prog2 (from_port p) m = (case proxy_map m p of None \<Rightarrow> None | Some i \<Rightarrow> sock_map m i)"
  by (simp add: bpf_prog2_def from_port_def port_ntohl)

lemmas proxy_defs = proxy_setup_def hup_handler_def set_sock_def set_port_def Let_def



text \<open>
  Two servers on the same port number share one entry of the port map, so the data of the first is
  redirected back to the first.
\<close>

theorem proxy_same_port_loops:
  "bpf_prog2 (from_port p) (maps (proxy_setup sd1 sd2 p p fresh_proxy)) = Some sd1"
  by (simp add: prog2_port proxy_defs fresh_proxy_def)

section \<open>Forwarding\<close>


definition stream_io :: "(u8 list \<times> u8 list) sock_io" where
  "stream_io =
     \<lparr>io_select = \<lambda>_ _ w. ((True, False), w),
      io_recv = \<lambda>_ n (inp, out). ((int (length (take n inp)), take n inp), (drop n inp, out)),
      io_send = \<lambda>_ bs (inp, out). (inp, out @ bs)\<rparr>"


end
