(* ===== verification/Kmodules.thy ===== *)
theory Kmodules
  imports Prelude
begin

text \<open>
  Loading and unloading of the kernel modules.  What a module registers with the kernel is a list
  of resources, the newest first.  Every registration asks the kernel, a parameter that answers with
  a return code or with a pointer, which may be an encoded error.  The interface
  \<open>module_lifecycle\<close> says what may be expected of an init and an exit function: a failed init leaves
  nothing registered, and exit undoes a successful init.  The character device of
  \<^verbatim>\<open>src/modules/device\<close>, the kprobe of \<^verbatim>\<open>src/pure_kprobe_example\<close> and the NMI
  handler of \<^verbatim>\<open>src/lktm/drivers/nmi\<close> are modelled here.
\<close>

section \<open>Resources\<close>

datatype resource =
    Chrdev_region | Cdev_mem | Cdev_added | Class | Device_node
  | Kprobe_point | Nmi_handler
  | Blk_major | Blk_dev | Blk_data | Blk_queue | Blk_disk
  | Proc_dir | Proc_entry | Filesystem_type
  | Sb_info | Root_inode | Root_dentry | Nls

datatype pointer = Null | Err_ptr | Valid

record kernel =
  int_call :: "resource \<Rightarrow> resource list \<Rightarrow> int"
  ptr_call :: "resource \<Rightarrow> resource list \<Rightarrow> pointer"

text \<open>
  Ask for a resource by a function that returns a code, negative on failure, or a pointer.
\<close>

definition acquire :: "kernel \<Rightarrow> resource \<Rightarrow> resource list \<Rightarrow> int \<times> resource list" where
  "acquire k r h = (let rc = int_call k r h in (rc, if rc < 0 then h else r # h))"

definition acquire_ptr :: "kernel \<Rightarrow> resource \<Rightarrow> resource list \<Rightarrow> pointer \<times> resource list" where
  "acquire_ptr k r h = (let p = ptr_call k r h in (p, if p = Valid then r # h else h))"

definition release :: "resource \<Rightarrow> resource list \<Rightarrow> resource list" where
  "release r h = remove1 r h"

lemma release_hd [simp]: "release r (r # h) = h"
  by (simp add: release_def)

lemma release_other [simp]: "r \<noteq> r' \<Longrightarrow> release r (r' # h) = r' # release r h"
  by (simp add: release_def)

section \<open>The interface\<close>

text \<open>
  \<open>None\<close> is a crash of the kernel inside init.  The laws are about the kernels of \<open>fair\<close>: those whose
  answers the module copes with.
\<close>

locale module_lifecycle =
  fixes mod_init :: "kernel \<Rightarrow> resource list \<Rightarrow> (int \<times> resource list) option"
    and mod_exit :: "resource list \<Rightarrow> resource list"
    and fair :: "kernel \<Rightarrow> bool"
  assumes no_crash: "fair k \<Longrightarrow> mod_init k h \<noteq> None"
    and init_fails: "fair k \<Longrightarrow> mod_init k h = Some (rc, h') \<Longrightarrow> rc < 0 \<Longrightarrow> h' = h"
    and exit_undoes: "fair k \<Longrightarrow> mod_init k h = Some (rc, h') \<Longrightarrow> 0 \<le> rc \<Longrightarrow> mod_exit h' = h"
begin

text \<open>Load the module; when it loads, unload it again.\<close>

definition insmod_rmmod :: "kernel \<Rightarrow> resource list \<Rightarrow> resource list option" where
  "insmod_rmmod k h =
     (case mod_init k h of None \<Rightarrow> None | Some (rc, h') \<Rightarrow> Some (if rc < 0 then h' else mod_exit h'))"

lemma insmod_rmmod_same: "fair k \<Longrightarrow> insmod_rmmod k h = Some h"
  using no_crash [of k h] init_fails [of k h] exit_undoes [of k h]
  by (cases "mod_init k h") (auto simp: insmod_rmmod_def)

lemma cycles_leave_nothing:
  "(\<forall>k\<in>set ks. fair k) \<Longrightarrow> fold (\<lambda>k r. Option.bind r (insmod_rmmod k)) ks (Some h) = Some h"
  by (induction ks) (simp_all add: insmod_rmmod_same)

end

section \<open>The character device\<close>

abbreviation MAX_LENGTH :: int where "MAX_LENGTH \<equiv> 92"

record device =
  mutex_locked :: bool
  device_data :: "u8 list"

definition device_open :: "device \<Rightarrow> int \<times> device" where
  "device_open d = (0, if mutex_locked d then d else d\<lparr>mutex_locked := True\<rparr>)"

definition device_release :: "device \<Rightarrow> int \<times> device" where
  "device_release d = (0, d\<lparr>mutex_locked := False\<rparr>)"

text \<open>
  \<^verbatim>\<open>read\<close> copies \<^verbatim>\<open>strlen(data)\<close> bytes whatever \<^verbatim>\<open>size\<close> is; \<open>None\<close> when \<^verbatim>\<open>data\<close> has no zero byte and \<^verbatim>\<open>strlen\<close>
  leaves the array.
\<close>

definition device_read :: "nat \<Rightarrow> device \<Rightarrow> (int \<times> u8 list) option" where
  "device_read sz d = (if 0 \<in> set (device_data d) then Some (0, takeWhile (\<lambda>b. b \<noteq> 0) (device_data d)) else None)"

text \<open>\<^verbatim>\<open>write\<close> copies 100 bytes from the user pointer; \<open>user\<close> is the user memory from there on.\<close>

definition device_write :: "u8 list \<Rightarrow> nat \<Rightarrow> device \<Rightarrow> int \<times> device" where
  "device_write user sz d = (1, d\<lparr>device_data := take 100 user @ drop (length (take 100 user)) (device_data d)\<rparr>)"

text \<open>Positions are 64-bit signed; the sums wrap in the kernel.\<close>

definition wrap64 :: "int \<Rightarrow> int" where
  "wrap64 x = sint (word_of_int x :: u64)"

definition device_lseek :: "int \<Rightarrow> int \<Rightarrow> int \<Rightarrow> int" where
  "device_lseek f_pos offset orig =
     (let new_pos = (if orig = 0 then offset
                     else if orig = 1 then wrap64 (f_pos + offset)
                     else if orig = 2 then wrap64 (MAX_LENGTH - offset) else 0);
          new_pos = (if new_pos > MAX_LENGTH then MAX_LENGTH else new_pos)
      in if new_pos < 0 then 0 else new_pos)"

definition init_dev :: "kernel \<Rightarrow> resource list \<Rightarrow> (int \<times> resource list) option" where
  "init_dev k h =
     (let (rc, h) = acquire k Chrdev_region h in
      if rc < 0 then Some (rc, h)
      else let (cdev, h) = acquire_ptr k Cdev_mem h in
        if cdev = Null then Some (- 1, release Chrdev_region h)
        else if cdev = Err_ptr then None
        else let (rc, h) = acquire k Cdev_added h in
          if rc < 0 then Some (- 2, release Chrdev_region h)
          else let (cls, h) = acquire_ptr k Class h in
            if cls = Null then Some (- 3, release Chrdev_region (release Cdev_mem (release Cdev_added h)))
            else if cls = Err_ptr then None
            else let (dev, h) = acquire_ptr k Device_node h in
              if dev = Null
              then Some (- 4, release Chrdev_region (release Cdev_mem (release Cdev_added (release Class h))))
              else Some (rc, h))"

definition exit_dev :: "resource list \<Rightarrow> resource list" where
  "exit_dev h =
     release Chrdev_region (release Cdev_mem (release Cdev_added (release Class (release Device_node h))))"

section \<open>The kprobe\<close>

definition handler_pre :: int where "handler_pre = 0"
definition handler_fault :: int where "handler_fault = 0"

definition kprobe_init :: "kernel \<Rightarrow> resource list \<Rightarrow> (int \<times> resource list) option" where
  "kprobe_init k h =
     (let (ret, h) = acquire k Kprobe_point h in Some (if ret < 0 then (ret, h) else (0, h)))"

definition kprobe_exit :: "resource list \<Rightarrow> resource list" where
  "kprobe_exit h = release Kprobe_point h"

section \<open>The NMI handler\<close>

datatype nmi_ret = NMI_DONE | NMI_HANDLED

record nmi_state =
  nmi_ignore :: bool
  kernel_count :: u32

text \<open>\<open>page_offset\<close> is the first address of the kernel half.\<close>

definition samplenmi_handler :: "u64 \<Rightarrow> u64 \<Rightarrow> nmi_state \<Rightarrow> nmi_ret \<times> nmi_state" where
  "samplenmi_handler page_offset rsp s =
     (if nmi_ignore s then (NMI_DONE, s)
      else if rsp < page_offset then (NMI_HANDLED, s)
      else (NMI_HANDLED, s\<lparr>kernel_count := kernel_count s + 1\<rparr>))"

text \<open>\<^verbatim>\<open>register_nmi_handler\<close> reports failure by any value but 0.\<close>

definition samplenmi_init :: "kernel \<Rightarrow> resource list \<Rightarrow> (int \<times> resource list) option" where
  "samplenmi_init k h =
     (let (rv, h) = acquire k Nmi_handler h in Some (if rv \<noteq> 0 then (rv, h) else (0, h)))"

definition samplenmi_exit :: "resource list \<Rightarrow> resource list" where
  "samplenmi_exit h = release Nmi_handler h"

section \<open>Interpretations\<close>

text \<open>The kernels each module copes with.\<close>

definition device_fair :: "kernel \<Rightarrow> bool" where
  "device_fair k \<longleftrightarrow>
     (\<forall>h. 0 \<le> int_call k Cdev_added h \<and> ptr_call k Cdev_mem h \<noteq> Err_ptr
        \<and> ptr_call k Class h \<noteq> Err_ptr \<and> ptr_call k Device_node h \<noteq> Err_ptr)"

definition nmi_fair :: "kernel \<Rightarrow> bool" where
  "nmi_fair k \<longleftrightarrow> (\<forall>h. int_call k Nmi_handler h \<le> 0)"

lemma init_dev_no_crash: "device_fair k \<Longrightarrow> init_dev k h \<noteq> None"
  by (auto simp: init_dev_def acquire_def acquire_ptr_def device_fair_def Let_def)

lemma init_dev_result:
  assumes "device_fair k" "init_dev k h = Some (rc, h')"
  shows "rc < 0 \<and> h' = h \<or> 0 \<le> rc \<and> h' = Device_node # Class # Cdev_added # Cdev_mem # Chrdev_region # h"
proof -
  have "\<not> int_call k Cdev_added x < 0" for x using assms(1) by (simp add: device_fair_def not_less)
  moreover have "p \<noteq> Null \<Longrightarrow> p \<noteq> Err_ptr \<Longrightarrow> p = Valid" for p by (cases p) simp_all
  ultimately show ?thesis using assms
    by (auto simp: init_dev_def acquire_def acquire_ptr_def device_fair_def Let_def split: if_splits)
qed

interpretation chardev: module_lifecycle init_dev exit_dev device_fair
  by unfold_locales (simp add: init_dev_no_crash, (auto dest!: init_dev_result simp: exit_dev_def)+)

interpretation kprobe: module_lifecycle kprobe_init kprobe_exit "\<lambda>_. True"
  by unfold_locales (auto simp: kprobe_init_def kprobe_exit_def acquire_def Let_def split: if_splits)

interpretation nmi: module_lifecycle samplenmi_init samplenmi_exit nmi_fair
  by unfold_locales
    (auto simp: samplenmi_init_def samplenmi_exit_def acquire_def nmi_fair_def Let_def split: if_splits;
     meson not_less order.antisym)+

section \<open>Properties of the modules\<close>

lemma device_write_read_string:
  assumes "0 \<in> set (take 100 user)"
  shows "device_read n (snd (device_write user len d)) = Some (0, takeWhile (\<lambda>b. b \<noteq> 0) user)"
proof -
  have "takeWhile (\<lambda>b. b \<noteq> 0) (take 100 user @ zs) = takeWhile (\<lambda>b. b \<noteq> 0) (take 100 user)" for zs
    using assms by (intro takeWhile_append1 [of 0]) simp_all
  from this this [of "drop 100 user"] show ?thesis using assms by (auto simp: device_read_def device_write_def)
qed


definition refusing :: "resource \<Rightarrow> kernel" where
  "refusing r =
     \<lparr>int_call = \<lambda>x _. if x = r then - 16 else 0, ptr_call = \<lambda>x _. if x = r then Null else Valid\<rparr>"


text \<open>
  C38: When the kernel refuses to add the character device, init gives the number range back and keeps
  the allocated structure: it returns -2 with that memory still held.
\<close>

theorem device_add_failure_leaks:
  assumes "0 \<le> int_call k Chrdev_region h" "ptr_call k Cdev_mem (Chrdev_region # h) = Valid"
    and "int_call k Cdev_added (Cdev_mem # Chrdev_region # h) < 0"
  shows "init_dev k h = Some (- 2, Cdev_mem # h)"
  using assms by (simp add: init_dev_def acquire_def acquire_ptr_def Let_def)

theorem device_add_failure_leaks_witness: "init_dev (refusing Cdev_added) [] = Some (- 2, [Cdev_mem])"
  by (rule device_add_failure_leaks) (simp_all add: refusing_def)

text \<open>
  Seeking always gives a position between 0 and 92, for every old position, offset and mode; a
  relative seek that does not wrap gives the clamped sum, and seeking from the end subtracts the offset.
\<close>

theorem device_lseek_bounds:
  "0 \<le> device_lseek pos off orig \<and> device_lseek pos off orig \<le> MAX_LENGTH
   \<and> device_lseek pos off 0 = max 0 (min MAX_LENGTH off)
   \<and> (\<bar>pos\<bar> < 2 ^ 62 \<longrightarrow> \<bar>off\<bar> < 2 ^ 62 \<longrightarrow>
        device_lseek pos off 1 = max 0 (min MAX_LENGTH (pos + off))
        \<and> device_lseek pos off 2 = max 0 (min MAX_LENGTH (MAX_LENGTH - off)))"
proof -
  have w: "wrap64 x = x" if "\<bar>x\<bar> < 2 ^ 63" for x
    using that by (simp add: wrap64_def signed_of_int signed_take_bit_int_eq_self)
  have "device_lseek pos off orig \<le> MAX_LENGTH" "0 \<le> device_lseek pos off orig"
    by (simp_all add: device_lseek_def Let_def)
  moreover have "device_lseek pos off 1 = max 0 (min MAX_LENGTH (pos + off))
      \<and> device_lseek pos off 2 = max 0 (min MAX_LENGTH (MAX_LENGTH - off))"
    if "\<bar>pos\<bar> < 2 ^ 62" "\<bar>off\<bar> < 2 ^ 62"
    using that by (simp add: device_lseek_def Let_def w)
  ultimately show ?thesis by (simp add: device_lseek_def Let_def)
qed

theorem device_lseek_bounds_witness: "device_lseek 90 10 1 = 92 \<and> device_lseek 0 10 2 = 82"
  using device_lseek_bounds [of 90 10 1] device_lseek_bounds [of 0 10 2] by simp

text \<open>
  A string written to the device is what the next read returns.  The write takes 100 bytes of user
  memory whatever its length argument is, and the read its whole string whatever its size argument is.
\<close>

theorem device_write_read:
  assumes "0 \<in> set (take 100 user)"
  shows "device_read n (snd (device_write user len d)) = Some (0, takeWhile (\<lambda>b. b \<noteq> 0) user)"
  using assms by (rule device_write_read_string)

theorem device_write_read_witness:
  "device_read 2 (snd (device_write [97, 98, 99, 0, 7] 3 \<lparr>mutex_locked = False, device_data = replicate 100 0\<rparr>))
   = Some (0, [97, 98, 99])"
  using device_write_read [of "[97, 98, 99, 0, 7]" 2 3 "\<lparr>mutex_locked = False, device_data = replicate 100 0\<rparr>"] by simp

end
