(* ===== verification/Sampleblk.thy ===== *)
theory Sampleblk
  imports Kmodules
begin

text \<open>
  The RAM disk of \<^verbatim>\<open>src/lktm/drivers/block/sampleblk\<close>: \<^verbatim>\<open>day1\<close> serves a request
  in \<^verbatim>\<open>myramdisk_queue_rq\<close>, \<^verbatim>\<open>day2\<close> serves the requests of a queue in
  \<^verbatim>\<open>sampleblk_request\<close>.  The storage is a list of bytes, a segment of a request is the list of
  bytes of its buffer.  A copy that leaves the storage or a segment is a fault.
\<close>

section \<open>Requests\<close>

datatype blk_fault = Disk_overrun | Segment_overrun | Bug_on

abbreviation sampleblk_sect_size :: nat where "sampleblk_sect_size \<equiv> 512"
abbreviation sampleblk_nsects :: nat where "sampleblk_nsects \<equiv> 10 * 1024"

record sampleblk_dev =
  blk_size :: u64
  blk_data :: "u8 list"

record request =
  rq_fs :: bool
  rq_ours :: bool
  rq_pos :: u64
  rq_cur_sectors :: u64
  rq_bytes :: u64
  rq_write :: bool
  rq_segments :: "u8 list list"

definition splice :: "'a list \<Rightarrow> nat \<Rightarrow> 'a list \<Rightarrow> 'a list" where
  "splice xs i ys = take i xs @ ys @ drop (i + length ys) xs"

text \<open>
  The two \<^verbatim>\<open>memcpy\<close>s between the storage at \<open>pos\<close> and the first \<open>n\<close> bytes of a segment.
\<close>

definition copy_segment :: "u8 list \<Rightarrow> nat \<Rightarrow> nat \<Rightarrow> u8 list \<Rightarrow> bool \<Rightarrow> blk_fault + (u8 list \<times> u8 list)" where
  "copy_segment data pos n seg wr =
     (if length data < pos + n then Inl Disk_overrun
      else if length seg < n then Inl Segment_overrun
      else if wr then Inr (splice data pos (take n seg), seg)
      else Inr (data, take n (drop pos data) @ drop n seg))"

section \<open>Day 1\<close>

datatype blk_status = BLK_STS_OK | BLK_STS_IOERR

text \<open>The loop over the segments; the status, the storage and the segments afterwards.\<close>

fun queue_rq_segments :: "u64 \<Rightarrow> u64 \<Rightarrow> bool \<Rightarrow> u64 \<Rightarrow> u8 list \<Rightarrow> u8 list list
    \<Rightarrow> blk_fault + (blk_status \<times> u8 list \<times> u8 list list)" where
  "queue_rq_segments sz num_sector wr pos data [] = Inr (BLK_STS_OK, data, [])"
| "queue_rq_segments sz num_sector wr pos data (seg # segs) =
     (let offset = pos * 512 in
      if offset + num_sector * 512 \<le> sz then
        bindE (copy_segment data (unat offset) (unat (num_sector * 512)) seg wr) (\<lambda>(data, seg).
        bindE (queue_rq_segments sz num_sector wr (pos + num_sector) data segs) (\<lambda>(st, data, segs).
        Inr (st, data, seg # segs)))
      else Inr (BLK_STS_IOERR, data, seg # segs))"

definition myramdisk_queue_rq :: "request \<Rightarrow> sampleblk_dev \<Rightarrow> blk_fault + (blk_status \<times> sampleblk_dev \<times> u8 list list)" where
  "myramdisk_queue_rq rq dev =
     bindE (queue_rq_segments (blk_size dev) (rq_cur_sectors rq) (rq_write rq) (rq_pos rq) (blk_data dev) (rq_segments rq))
       (\<lambda>(st, data, segs). Inr (st, dev\<lparr>blk_data := data\<rparr>, segs))"

section \<open>Day 2\<close>

definition sampleblk_handle_io :: "sampleblk_dev \<Rightarrow> u64 \<Rightarrow> nat \<Rightarrow> u8 list \<Rightarrow> bool \<Rightarrow> blk_fault + (int \<times> sampleblk_dev \<times> u8 list)" where
  "sampleblk_handle_io dev pos n seg wr =
     bindE (copy_segment (blk_data dev) (unat pos) n seg wr) (\<lambda>(data, seg). Inr (0, dev\<lparr>blk_data := data\<rparr>, seg))"

fun handle_segments :: "u64 \<Rightarrow> bool \<Rightarrow> int \<Rightarrow> sampleblk_dev \<Rightarrow> u8 list list
    \<Rightarrow> blk_fault + (int \<times> sampleblk_dev \<times> u8 list list)" where
  "handle_segments pos wr rv dev [] = Inr (rv, dev, [])"
| "handle_segments pos wr rv dev (seg # segs) =
     bindE (sampleblk_handle_io dev pos (length seg) seg wr) (\<lambda>(rv, dev, seg).
     if rv < 0 then Inr (rv, dev, seg # segs)
     else bindE (handle_segments (pos + of_nat (length seg)) wr rv dev segs) (\<lambda>(rv, dev, segs).
          Inr (rv, dev, seg # segs)))"

abbreviation EIO :: int where "EIO \<equiv> 5"

text \<open>One request: \<open>rv\<close> is the C variable, which keeps its value from the request before.\<close>

definition serve_request :: "request \<Rightarrow> int \<Rightarrow> sampleblk_dev \<Rightarrow> blk_fault + (int \<times> sampleblk_dev \<times> u8 list list)" where
  "serve_request rq rv dev =
     (if \<not> rq_fs rq then Inr (- EIO, dev, rq_segments rq)
      else if \<not> rq_ours rq then Inl Bug_on
      else if rq_pos rq * 512 + rq_bytes rq > blk_size dev then Inr (- EIO, dev, rq_segments rq)
      else handle_segments (rq_pos rq * 512) (rq_write rq) rv dev (rq_segments rq))"

fun serve_requests :: "request list \<Rightarrow> int \<Rightarrow> sampleblk_dev \<Rightarrow> blk_fault + ((int \<times> u8 list list) list \<times> sampleblk_dev)" where
  "serve_requests [] rv dev = Inr ([], dev)"
| "serve_requests (rq # rqs) rv dev =
     bindE (serve_request rq rv dev) (\<lambda>(rv, dev, segs).
     bindE (serve_requests rqs rv dev) (\<lambda>(rs, dev). Inr ((rv, segs) # rs, dev)))"

definition sampleblk_request :: "request list \<Rightarrow> sampleblk_dev \<Rightarrow> blk_fault + ((int \<times> u8 list list) list \<times> sampleblk_dev)" where
  "sampleblk_request q dev = serve_requests q 0 dev"

section \<open>Set-up\<close>

abbreviation ENOMEM_blk :: int where "ENOMEM_blk \<equiv> 12"

text \<open>The global pointer \<^verbatim>\<open>sampleblk_dev\<close>.\<close>

datatype dev_ptr = No_dev | Freed_dev | Live_dev

text \<open>
  The test \<^verbatim>\<open>if (!queue)\<close> catches a null pointer only, so an error pointer is dereferenced.  The
  functions of \<^verbatim>\<open>day1\<close> and \<^verbatim>\<open>day2\<close> agree here.
\<close>

definition sampleblk_alloc :: "kernel \<Rightarrow> dev_ptr \<Rightarrow> resource list \<Rightarrow> (int \<times> dev_ptr \<times> resource list) option" where
  "sampleblk_alloc k gdev h =
     (let (dev, h) = acquire_ptr k Blk_dev h in
      if dev = Null then Some (- ENOMEM_blk, No_dev, h)
      else if dev = Err_ptr then None
      else let (data, h) = acquire_ptr k Blk_data h in
        if data = Null then Some (- ENOMEM_blk, Freed_dev, release Blk_dev h)
        else let (queue, h) = acquire_ptr k Blk_queue h in
          if queue = Null then Some (- ENOMEM_blk, Freed_dev, release Blk_dev (release Blk_data h))
          else if queue = Err_ptr then None
          else let (disk, h) = acquire_ptr k Blk_disk h in
            if disk = Null
            then Some (- ENOMEM_blk, Freed_dev, release Blk_dev (release Blk_data (release Blk_queue h)))
            else if disk = Err_ptr then None
            else Some (0, Live_dev, h))"

definition sampleblk_free :: "dev_ptr \<Rightarrow> resource list \<Rightarrow> resource list option" where
  "sampleblk_free gdev h =
     (if gdev = Live_dev
      then Some (release Blk_dev (release Blk_data (release Blk_disk (release Blk_queue h)))) else None)"

definition sampleblk_init :: "kernel \<Rightarrow> dev_ptr \<Rightarrow> resource list \<Rightarrow> (int \<times> dev_ptr \<times> resource list) option" where
  "sampleblk_init k gdev h =
     (let (major, h) = acquire k Blk_major h in
      if major < 0 then Some (major, gdev, h)
      else case sampleblk_alloc k gdev h of None \<Rightarrow> None | Some (rv, gdev, h) \<Rightarrow> Some (0, gdev, h))"

definition sampleblk_exit :: "dev_ptr \<Rightarrow> resource list \<Rightarrow> resource list option" where
  "sampleblk_exit gdev h = map_option (release Blk_major) (sampleblk_free gdev h)"

section \<open>Runs of segments\<close>

lemma length_splice [simp]: "i + length ys \<le> length xs \<Longrightarrow> length (splice xs i ys) = length xs"
  by (simp add: splice_def)

lemma splice_append:
  assumes "i + length (ys @ zs) \<le> length xs"
  shows "splice (splice xs i ys) (i + length ys) zs = splice xs i (ys @ zs)"
  using assms by (simp add: splice_def ac_simps)

lemma drop_splice:
  assumes "i + length ys \<le> length xs"
  shows "take (length ys) (drop i (splice xs i ys)) = ys"
  using assms by (simp add: splice_def)

text \<open>The pieces of a list, of the lengths of the given segments.\<close>

fun pieces :: "'a list \<Rightarrow> 'b list list \<Rightarrow> 'a list list" where
  "pieces xs [] = []"
| "pieces xs (seg # segs) = take (length seg) xs # pieces (drop (length seg) xs) segs"

lemma pieces_concat: "map length segs = map length segs' \<Longrightarrow> pieces (concat segs' @ ys) segs = segs'"
proof (induction segs arbitrary: segs')
  case (Cons seg segs)
  then obtain s' ss where "segs' = s' # ss" "length seg = length s'" "map length segs = map length ss"
    by (cases segs') auto
  then show ?case using Cons.IH [of ss] by simp
qed simp

lemma copy_whole_segment:
  assumes "pos + length seg \<le> length data"
  shows "copy_segment data pos (length seg) seg wr =
    Inr (if wr then (splice data pos seg, seg) else (data, take (length seg) (drop pos data)))"
  using assms by (simp add: copy_segment_def)

lemma unat_pos_add:
  assumes "unat pos + n \<le> k" "k < 2 ^ 64"
  shows "unat (pos + of_nat n :: u64) = unat pos + n"
  using assms by (intro unat_add_nat_64) simp

lemma handle_segments_write:
  assumes "unat pos + length (concat segs) \<le> length (blk_data dev)" "length (blk_data dev) < 2 ^ 64" "0 \<le> rv"
  shows "handle_segments pos True rv dev segs =
    Inr (if segs = [] then rv else 0, dev\<lparr>blk_data := splice (blk_data dev) (unat pos) (concat segs)\<rparr>, segs)"
  using assms
proof (induction segs arbitrary: pos rv dev)
  case Nil
  then show ?case by (simp add: splice_def)
next
  case (Cons seg segs)
  let ?dev = "dev\<lparr>blk_data := splice (blk_data dev) (unat pos) seg\<rparr>"
  have p: "unat (pos + of_nat (length seg)) = unat pos + length seg"
    by (rule unat_pos_add) (use Cons.prems in simp_all)
  have "handle_segments (pos + of_nat (length seg)) True 0 ?dev segs =
      Inr (0, ?dev\<lparr>blk_data := splice (blk_data ?dev) (unat pos + length seg) (concat segs)\<rparr>, segs)"
    using Cons.IH [of "pos + of_nat (length seg)" ?dev 0] Cons.prems by (simp add: p)
  then show ?case
    using Cons.prems splice_append [of "unat pos" seg "concat segs" "blk_data dev"]
    by (simp add: sampleblk_handle_io_def copy_whole_segment)
qed

lemma handle_segments_read:
  assumes "unat pos + length (concat segs) \<le> length (blk_data dev)" "length (blk_data dev) < 2 ^ 64" "0 \<le> rv"
  shows "handle_segments pos False rv dev segs =
    Inr (if segs = [] then rv else 0, dev, pieces (drop (unat pos) (blk_data dev)) segs)"
  using assms
proof (induction segs arbitrary: pos rv)
  case (Cons seg segs)
  have p: "unat (pos + of_nat (length seg)) = unat pos + length seg"
    by (rule unat_pos_add) (use Cons.prems in simp_all)
  have "handle_segments (pos + of_nat (length seg)) False 0 dev segs =
      Inr (0, dev, pieces (drop (unat pos + length seg) (blk_data dev)) segs)"
    using Cons.IH [of "pos + of_nat (length seg)" 0] Cons.prems by (simp add: p)
  then show ?case
    using Cons.prems by (simp add: sampleblk_handle_io_def copy_whole_segment add.commute)
qed simp

section \<open>Properties\<close>

text \<open>A request the block layer makes: inside the disk, with the length of its segments.\<close>

definition request_ok :: "request \<Rightarrow> sampleblk_dev \<Rightarrow> bool" where
  "request_ok rq dev \<longleftrightarrow>
     rq_fs rq \<and> rq_ours rq \<and> length (blk_data dev) = unat (blk_size dev) \<and>
     unat (rq_bytes rq) = length (concat (rq_segments rq)) \<and>
     unat (rq_pos rq) * 512 + unat (rq_bytes rq) \<le> unat (blk_size dev)"

lemma request_pos:
  assumes "request_ok rq dev"
  shows "unat (rq_pos rq * 512) = unat (rq_pos rq) * 512"
    and "\<not> rq_pos rq * 512 + rq_bytes rq > blk_size dev"
    and "length (blk_data dev) < 2 ^ 64"
proof -
  have b: "unat (rq_pos rq) * 512 + unat (rq_bytes rq) < 2 ^ 64"
    using assms unsigned_less [of "blk_size dev", where 'a = nat] by (simp add: request_ok_def)
  then show p: "unat (rq_pos rq * 512) = unat (rq_pos rq) * 512" by (simp add: unat_word_ariths)
  show "\<not> rq_pos rq * 512 + rq_bytes rq > blk_size dev"
    using assms b by (simp add: request_ok_def word_less_nat_alt unat_word_ariths p)
  show "length (blk_data dev) < 2 ^ 64"
    using assms unsigned_less [of "blk_size dev", where 'a = nat] by (simp add: request_ok_def)
qed

lemma serve_request_ok:
  assumes "request_ok rq dev"
  shows "serve_request rq 0 dev = Inr (0,
    if rq_write rq
    then (dev\<lparr>blk_data := splice (blk_data dev) (unat (rq_pos rq) * 512) (concat (rq_segments rq))\<rparr>, rq_segments rq)
    else (dev, pieces (drop (unat (rq_pos rq) * 512) (blk_data dev)) (rq_segments rq)))"
  using assms request_pos [OF assms]
    handle_segments_write [of "rq_pos rq * 512" "rq_segments rq" dev 0]
    handle_segments_read [of "rq_pos rq * 512" "rq_segments rq" dev 0]
  by (simp add: serve_request_def request_ok_def)

text \<open>
  C22: What a write request stores, a read request for the same sectors returns, however the transfer is
  cut into segments of equal lengths; both report success.
\<close>

theorem write_read_roundtrip:
  assumes "request_ok wrq dev" "rq_write wrq" "request_ok rrq dev" "\<not> rq_write rrq"
    and "rq_pos rrq = rq_pos wrq" "map length (rq_segments rrq) = map length (rq_segments wrq)"
  shows "\<exists>dev'. sampleblk_request [wrq, rrq] dev = Inr ([(0, rq_segments wrq), (0, rq_segments wrq)], dev')"
proof -
  define dev' where
    "dev' = dev\<lparr>blk_data := splice (blk_data dev) (unat (rq_pos wrq) * 512) (concat (rq_segments wrq))\<rparr>"
  have l: "unat (rq_pos wrq) * 512 + length (concat (rq_segments wrq)) \<le> length (blk_data dev)"
    using assms(1) by (simp add: request_ok_def)
  then have r: "request_ok rrq dev'" using assms(3) by (simp add: request_ok_def dev'_def)
  have "drop (unat (rq_pos wrq) * 512) (blk_data dev')
      = concat (rq_segments wrq) @ drop (unat (rq_pos wrq) * 512 + length (concat (rq_segments wrq))) (blk_data dev)"
    using l by (simp add: dev'_def splice_def)
  then have "pieces (drop (unat (rq_pos rrq) * 512) (blk_data dev')) (rq_segments rrq) = rq_segments wrq"
    using assms(5,6) by (simp add: pieces_concat)
  then show ?thesis
    using serve_request_ok [OF assms(1)] serve_request_ok [OF r] assms(2,4)
    by (simp add: sampleblk_request_def dev'_def)
qed

definition small_disk :: sampleblk_dev where
  "small_disk = \<lparr>blk_size = 2048, blk_data = replicate 2048 0\<rparr>"

definition sector_request :: "u64 \<Rightarrow> bool \<Rightarrow> u8 list list \<Rightarrow> request" where
  "sector_request pos wr segs =
     \<lparr>rq_fs = True, rq_ours = True, rq_pos = pos, rq_cur_sectors = 1, rq_bytes = of_nat (length (concat segs)),
      rq_write = wr, rq_segments = segs\<rparr>"

theorem write_read_roundtrip_witness:
  "\<exists>dev'. sampleblk_request
     [sector_request 1 True [replicate 512 7, replicate 512 9], sector_request 1 False [replicate 512 0, replicate 512 0]]
     small_disk = Inr ([(0, [replicate 512 7, replicate 512 9]), (0, [replicate 512 7, replicate 512 9])], dev')"
  using write_read_roundtrip
    [of "sector_request 1 True [replicate 512 7, replicate 512 9]" small_disk
        "sector_request 1 False [replicate 512 0, replicate 512 0]"]
  by (simp add: request_ok_def sector_request_def small_disk_def)

lemma queue_rq_uniform:
  assumes "\<forall>seg\<in>set segs. length seg = 512 * unat num" "length data = unat sz"
    and "unat pos * 512 + length (concat segs) \<le> unat sz"
  shows "queue_rq_segments sz num wr pos data segs =
    Inr (BLK_STS_OK, if wr then (splice data (unat pos * 512) (concat segs), segs)
                     else (data, pieces (drop (unat pos * 512) data) segs))"
  using assms
proof (induction segs arbitrary: pos data)
  case Nil
  then show ?case by (simp add: splice_def)
next
  case (Cons seg segs)
  have len: "length seg = 512 * unat num" using Cons.prems(1) by simp
  have b: "unat pos * 512 + 512 * unat num + length (concat segs) < 2 ^ 64"
    using Cons.prems(3) len unsigned_less [of sz, where 'a = nat] by simp
  have p: "unat (pos * 512) = unat pos * 512" and n: "unat (num * 512) = 512 * unat num"
    and pn: "unat (pos + num) = unat pos + unat num"
    using b by (simp_all add: unat_word_ariths)
  have q: "unat (pos + num) * 512 = unat pos * 512 + 512 * unat num" by (simp add: pn)
  have le: "pos * 512 + num * 512 \<le> sz"
    using Cons.prems(3) len b by (simp add: word_le_nat_alt unat_word_ariths p n)
  let ?d = "if wr then splice data (unat pos * 512) seg else data"
  have d: "length ?d = unat sz" using Cons.prems len by simp
  have "queue_rq_segments sz num wr (pos + num) ?d segs =
      Inr (BLK_STS_OK, if wr then (splice ?d (unat (pos + num) * 512) (concat segs), segs)
                       else (?d, pieces (drop (unat (pos + num) * 512) ?d) segs))"
    by (rule Cons.IH [OF _ d]) (use Cons.prems len in \<open>simp_all add: pn add_mult_distrib\<close>)
  then show ?case
    using Cons.prems len le copy_whole_segment [of "unat pos * 512" seg data wr]
      splice_append [of "unat pos * 512" seg "concat segs" data]
    by (cases wr) (simp_all add: p n q Let_def add.commute [of "512 * unat num"])
qed

text \<open>
  C23: On the requests of the block layer whose segments all have the length of the first, the driver of
  the first day does what the driver of the second day does: the same storage, the same data returned,
  and success.
\<close>

theorem queue_rq_equals_request:
  assumes "request_ok rq dev" "\<forall>seg\<in>set (rq_segments rq). length seg = 512 * unat (rq_cur_sectors rq)"
  shows "\<exists>dev' segs. serve_request rq 0 dev = Inr (0, dev', segs)
    \<and> myramdisk_queue_rq rq dev = Inr (BLK_STS_OK, dev', segs)"
  using assms serve_request_ok [OF assms(1)]
    queue_rq_uniform [OF assms(2), of "blk_data dev" "blk_size dev" "rq_pos rq" "rq_write rq"]
  by (simp add: request_ok_def myramdisk_queue_rq_def)

theorem queue_rq_equals_request_witness:
  "\<exists>dev' segs. serve_request (sector_request 1 True [replicate 512 7, replicate 512 9]) 0 small_disk = Inr (0, dev', segs)
    \<and> myramdisk_queue_rq (sector_request 1 True [replicate 512 7, replicate 512 9]) small_disk = Inr (BLK_STS_OK, dev', segs)"
  by (rule queue_rq_equals_request) (simp_all add: request_ok_def sector_request_def small_disk_def)

text \<open>
  C36: With segments of different lengths the driver of the first day copies the length of the first
  segment for each of them: a request of the block layer with a longer first segment overruns the second.
\<close>

theorem queue_rq_overruns:
  assumes "request_ok rq dev" "rq_segments rq = [seg1, seg2]" "length seg1 = 512 * unat (rq_cur_sectors rq)"
    and "length seg2 < length seg1" "unat (rq_pos rq) * 512 + 2 * length seg1 \<le> unat (blk_size dev)"
  shows "myramdisk_queue_rq rq dev = Inl Segment_overrun"
proof -
  let ?n = "rq_cur_sectors rq" and ?p = "rq_pos rq"
  have b: "unat ?p * 512 + 2 * (512 * unat ?n) < 2 ^ 64"
    using assms(3,5) unsigned_less [of "blk_size dev", where 'a = nat] by simp
  have w: "unat (?p * 512) = unat ?p * 512" "unat (?n * 512) = 512 * unat ?n" "unat (?p + ?n) = unat ?p + unat ?n"
    "unat ((?p + ?n) * 512) = (unat ?p + unat ?n) * 512"
    using b by (simp_all add: unat_word_ariths)
  have "?p * 512 + ?n * 512 \<le> blk_size dev" "(?p + ?n) * 512 + ?n * 512 \<le> blk_size dev"
    using assms(3,5) b w by (simp_all add: word_le_nat_alt unat_word_ariths)
  then show ?thesis
    using assms w copy_whole_segment [of "unat ?p * 512" seg1 "blk_data dev" "rq_write rq"]
    by (simp add: myramdisk_queue_rq_def Let_def request_ok_def copy_segment_def)
qed

theorem queue_rq_overruns_witness:
  "myramdisk_queue_rq ((sector_request 0 True [replicate 1024 7, replicate 512 9])\<lparr>rq_cur_sectors := 2\<rparr>) small_disk
   = Inl Segment_overrun"
  by (rule queue_rq_overruns [where ?seg1.0 = "replicate 1024 7" and ?seg2.0 = "replicate 512 9"])
    (simp_all add: request_ok_def sector_request_def small_disk_def)

text \<open>
  The result variable of the second driver survives from one request to the next: a request without
  segments is reported as failed when the request before it failed, though nothing is wrong with it.
\<close>

theorem stale_result:
  assumes "\<not> rq_fs bad" "request_ok rq dev" "rq_segments rq = []"
  shows "sampleblk_request [rq] dev = Inr ([(0, [])], dev)
    \<and> sampleblk_request [bad, rq] dev = Inr ([(- EIO, rq_segments bad), (- EIO, [])], dev)"
  using assms request_pos [OF assms(2)] by (simp add: sampleblk_request_def serve_request_def request_ok_def)

theorem stale_result_witness:
  "sampleblk_request [(sector_request 0 False [])\<lparr>rq_fs := False\<rparr>, sector_request 0 False []] small_disk
   = Inr ([(- EIO, []), (- EIO, [])], small_disk)"
  using stale_result [of "(sector_request 0 False [])\<lparr>rq_fs := False\<rparr>" "sector_request 0 False []" small_disk]
  by (simp add: request_ok_def sector_request_def small_disk_def)

text \<open>
  Init reports success even when no memory is left for the disk; the module then stays loaded
  without a disk, and unloading it dereferences the missing device.
\<close>

theorem init_ignores_failure:
  assumes "0 \<le> int_call k Blk_major h" "r \<in> {Blk_dev, Blk_data, Blk_queue, Blk_disk}"
    and "\<And>x h. ptr_call k x h = (if x = r then Null else Valid)"
  shows "\<exists>gdev. sampleblk_init k No_dev h = Some (0, gdev, Blk_major # h) \<and> sampleblk_exit gdev (Blk_major # h) = None"
proof -
  have "\<exists>gdev rv. sampleblk_alloc k No_dev (Blk_major # h) = Some (rv, gdev, Blk_major # h) \<and> gdev \<noteq> Live_dev"
  proof -
    have a: "acquire_ptr k x h = (if x = r then Null else Valid, if x = r then h else x # h)" for x h
      by (simp add: acquire_ptr_def assms(3))
    show ?thesis unfolding sampleblk_alloc_def a using assms(2) by auto
  qed
  then obtain gdev rv where g: "sampleblk_alloc k No_dev (Blk_major # h) = Some (rv, gdev, Blk_major # h)" "gdev \<noteq> Live_dev"
    by (elim exE conjE)
  have "sampleblk_init k No_dev h = Some (0, gdev, Blk_major # h)"
    using assms(1) by (simp add: sampleblk_init_def acquire_def g(1))
  moreover have "sampleblk_exit gdev (Blk_major # h) = None"
    using g(2) by (simp add: sampleblk_exit_def sampleblk_free_def)
  ultimately show ?thesis by (intro exI conjI)
qed

theorem init_ignores_failure_witness:
  "\<exists>gdev. sampleblk_init (refusing Blk_data) No_dev [] = Some (0, gdev, [Blk_major])
    \<and> sampleblk_exit gdev [Blk_major] = None"
  by (rule init_ignores_failure [where r = Blk_data]) (simp_all add: refusing_def)

end
