(* ===== verification/Samplefs.thy ===== *)
theory Samplefs
  imports Kmodules
begin

text \<open>
  The in-memory file system of \<^verbatim>\<open>src/lktm/fs/samplefs/day11\<close>: mount options, the
  case-insensitive dentry operations, creation of inodes and directory entries, the super block, the
  proc file and the module functions.  Functions of the kernel that the code calls are parameters:
  the conversion of numbers, the tables of the code page, the hash of names, and the initial inode.
\<close>

section \<open>Mount options\<close>

definition SFS_MNT_CASE :: u32 where "SFS_MNT_CASE = 1"

record samplefs_sb_info =
  rsize :: u32
  wsize :: u32
  sb_flags :: u32

definition lower :: "char \<Rightarrow> char" where
  "lower c = (if 65 \<le> (of_char c :: nat) \<and> (of_char c :: nat) \<le> 90 then char_of (of_char c + 32 :: nat) else c)"

text \<open>\<^verbatim>\<open>strnicmp\<close> with a literal as long as the count: a prefix up to case.\<close>

definition strnicmp_is :: "string \<Rightarrow> string \<Rightarrow> bool" where
  "strnicmp_is data lit \<longleftrightarrow> map lower (take (length lit) data) = map lower lit"

text \<open>The pieces \<^verbatim>\<open>strsep\<close> returns one after the other.\<close>

fun strsep_all :: "string \<Rightarrow> string list" where
  "strsep_all [] = [[]]"
| "strsep_all (c # cs) =
     (if c = CHR '','' then [] # strsep_all cs
      else case strsep_all cs of [] \<Rightarrow> [[c]] | p # ps \<Rightarrow> (c # p) # ps)"

text \<open>The text before the first \<open>=\<close> and, when there is one, the text after it.\<close>

definition split_value :: "string \<Rightarrow> string \<times> string option" where
  "split_value d =
     (let n = takeWhile (\<lambda>c. c \<noteq> CHR ''='') d
      in (n, if length n < length d then Some (drop (length n + 1) d) else None))"

definition size_option :: "(string \<Rightarrow> u64) \<Rightarrow> string option \<Rightarrow> u32 option" where
  "size_option strtoul value =
     (case value of None \<Rightarrow> None
      | Some v \<Rightarrow> if v = [] then None
                  else let sz = ucast (strtoul v) :: u32 in if sint sz > 0 then Some sz else None)"

definition parse_option :: "(string \<Rightarrow> u64) \<Rightarrow> string \<Rightarrow> samplefs_sb_info \<Rightarrow> samplefs_sb_info" where
  "parse_option strtoul opt sb =
     (if opt = [] then sb
      else let (data, value) = split_value opt in
        if strnicmp_is data ''rsize'' then
          (case size_option strtoul value of None \<Rightarrow> sb | Some sz \<Rightarrow> sb\<lparr>rsize := sz\<rparr>)
        else if strnicmp_is data ''wsize'' then
          (case size_option strtoul value of None \<Rightarrow> sb | Some sz \<Rightarrow> sb\<lparr>wsize := sz\<rparr>)
        else if strnicmp_is data ''nocase'' \<or> strnicmp_is data ''ignorecase'' then
          sb\<lparr>sb_flags := sb_flags sb OR SFS_MNT_CASE\<rparr>
        else sb)"

definition samplefs_parse_mount_options :: "(string \<Rightarrow> u64) \<Rightarrow> string option \<Rightarrow> samplefs_sb_info \<Rightarrow> samplefs_sb_info" where
  "samplefs_parse_mount_options strtoul options sb =
     (case options of None \<Rightarrow> sb | Some o' \<Rightarrow> fold (parse_option strtoul) (strsep_all o') sb)"

section \<open>Case-insensitive names\<close>

record name_ops =
  nls_tolower :: "u8 \<Rightarrow> u8"
  nls_strnicmp :: "u8 list \<Rightarrow> u8 list \<Rightarrow> nat \<Rightarrow> int"
  init_name_hash :: u64
  partial_name_hash :: "u8 \<Rightarrow> u64 \<Rightarrow> u64"
  end_name_hash :: "u64 \<Rightarrow> u32"

definition sfs_ci_hash :: "name_ops \<Rightarrow> u8 list \<Rightarrow> u32" where
  "sfs_ci_hash ops q =
     end_name_hash ops (fold (\<lambda>c h. partial_name_hash ops (nls_tolower ops c) h) q (init_name_hash ops))"

text \<open>The result of the comparison and the first name afterwards.\<close>

definition sfs_ci_compare :: "name_ops \<Rightarrow> u8 list \<Rightarrow> u8 list \<Rightarrow> int \<times> u8 list" where
  "sfs_ci_compare ops a b =
     (if length a = length b \<and> nls_strnicmp ops a b (length a) = 0 then (0, b) else (1, a))"

definition sfs_delete_dentry :: int where
  "sfs_delete_dentry = 1"

section \<open>Inodes\<close>

definition S_IFMT :: u32 where "S_IFMT = 0xf000"
definition S_IFREG :: u32 where "S_IFREG = 0x8000"
definition S_IFDIR :: u32 where "S_IFDIR = 0x4000"
definition S_IFLNK :: u32 where "S_IFLNK = 0xa000"
definition S_ISGID :: u32 where "S_ISGID = 0x400"
definition S_IRWXUGO :: u32 where "S_IRWXUGO = 0x1ff"

lemmas mode_defs = S_IFMT_def S_IFREG_def S_IFDIR_def S_IFLNK_def S_ISGID_def S_IRWXUGO_def

datatype inode_ops = No_iops | Sfs_file_inode_ops | Sfs_dir_inode_ops | Page_symlink_inode_operations
datatype file_ops = No_fops | Sfs_file_operations | Simple_dir_operations

record inode =
  i_mode :: u32
  i_uid :: nat
  i_gid :: nat
  i_blocks :: nat
  i_size :: nat
  i_nlink :: nat
  i_op :: inode_ops
  i_fop :: file_ops
  i_time :: nat

text \<open>What the kernel provides: credentials, the time, the fresh inode and special files.\<close>

record vfs =
  fsuid :: nat
  fsgid :: nat
  current_time :: nat
  new_inode :: "inode option"
  init_special_inode :: "inode \<Rightarrow> u32 \<Rightarrow> nat \<Rightarrow> inode"
  page_symlink :: "string \<Rightarrow> int"

definition samplefs_get_inode :: "vfs \<Rightarrow> u32 \<Rightarrow> nat \<Rightarrow> inode option" where
  "samplefs_get_inode v mode dev =
     map_option (\<lambda>i.
       let i = i\<lparr>i_mode := mode, i_uid := fsuid v, i_gid := fsgid v, i_blocks := 0, i_time := current_time v\<rparr> in
       if mode AND S_IFMT = S_IFREG then i\<lparr>i_op := Sfs_file_inode_ops, i_fop := Sfs_file_operations\<rparr>
       else if mode AND S_IFMT = S_IFDIR then
         i\<lparr>i_op := Sfs_dir_inode_ops, i_fop := Simple_dir_operations, i_nlink := i_nlink i + 1\<rparr>
       else if mode AND S_IFMT = S_IFLNK then i\<lparr>i_op := Page_symlink_inode_operations\<rparr>
       else init_special_inode v i mode dev)
     (new_inode v)"

section \<open>Directories\<close>

text \<open>
  The file system: inodes by number, and the dentries by directory and name.  \<open>ino\<close> below is the
  number the kernel gives to the new inode.
\<close>

record fs =
  inodes :: "nat \<Rightarrow> inode option"
  dentries :: "nat \<times> string \<Rightarrow> nat option"

abbreviation ENOSPC :: int where "ENOSPC \<equiv> 28"
abbreviation ENAMETOOLONG :: int where "ENAMETOOLONG \<equiv> 36"
abbreviation NAME_MAX :: nat where "NAME_MAX \<equiv> 255"

datatype dentry_operations = Sfs_dentry_ops | Sfs_ci_dentry_ops

definition sfs_lookup :: "samplefs_sb_info \<Rightarrow> string \<Rightarrow> int + dentry_operations" where
  "sfs_lookup sb nm =
     (if length nm > NAME_MAX then Inl (- ENAMETOOLONG)
      else Inr (if sb_flags sb AND SFS_MNT_CASE \<noteq> 0 then Sfs_ci_dentry_ops else Sfs_dentry_ops))"

definition update_dir :: "nat \<Rightarrow> (inode \<Rightarrow> inode) \<Rightarrow> fs \<Rightarrow> fs" where
  "update_dir d f s = (case inodes s d of None \<Rightarrow> s | Some i \<Rightarrow> s\<lparr>inodes := (inodes s)(d \<mapsto> f i)\<rparr>)"

definition d_instantiate :: "nat \<Rightarrow> string \<Rightarrow> nat \<Rightarrow> inode \<Rightarrow> fs \<Rightarrow> fs" where
  "d_instantiate d nm ino i s =
     s\<lparr>inodes := (inodes s)(ino \<mapsto> i), dentries := (dentries s)((d, nm) \<mapsto> ino)\<rparr>"

definition inherit_gid :: "inode \<Rightarrow> u32 \<Rightarrow> inode \<Rightarrow> inode" where
  "inherit_gid dir mode i =
     (if i_mode dir AND S_ISGID \<noteq> 0 then
        let i = i\<lparr>i_gid := i_gid dir\<rparr>
        in if mode AND S_IFMT = S_IFDIR then i\<lparr>i_mode := i_mode i OR S_ISGID\<rparr> else i
      else i)"

definition sfs_mknod :: "vfs \<Rightarrow> nat \<Rightarrow> nat \<Rightarrow> string \<Rightarrow> u32 \<Rightarrow> nat \<Rightarrow> fs \<Rightarrow> int \<times> fs" where
  "sfs_mknod v ino d nm mode dev s =
     (case samplefs_get_inode v mode dev of None \<Rightarrow> (- ENOSPC, s)
      | Some i \<Rightarrow>
        case inodes s d of None \<Rightarrow> (- ENOSPC, s)
        | Some dir \<Rightarrow>
          (0, update_dir d (\<lambda>dir. dir\<lparr>i_time := current_time v, i_size := i_size dir + 0x20\<rparr>)
                (d_instantiate d nm ino (inherit_gid dir mode i) s)))"

definition sfs_mkdir :: "vfs \<Rightarrow> nat \<Rightarrow> nat \<Rightarrow> string \<Rightarrow> u32 \<Rightarrow> fs \<Rightarrow> int \<times> fs" where
  "sfs_mkdir v ino d nm mode s =
     (let (retval, s) = sfs_mknod v ino d nm (mode OR S_IFDIR) 0 s
      in if retval = 0 then (retval, update_dir d (\<lambda>dir. dir\<lparr>i_nlink := i_nlink dir + 1\<rparr>) s) else (retval, s))"

definition sfs_create :: "vfs \<Rightarrow> nat \<Rightarrow> nat \<Rightarrow> string \<Rightarrow> u32 \<Rightarrow> fs \<Rightarrow> int \<times> fs" where
  "sfs_create v ino d nm mode s = sfs_mknod v ino d nm (mode OR S_IFREG) 0 s"

definition sfs_symlink :: "vfs \<Rightarrow> nat \<Rightarrow> nat \<Rightarrow> string \<Rightarrow> string \<Rightarrow> fs \<Rightarrow> int \<times> fs" where
  "sfs_symlink v ino d nm symname s =
     (case samplefs_get_inode v (S_IFLNK OR S_IRWXUGO) 0 of None \<Rightarrow> (- ENOSPC, s)
      | Some i \<Rightarrow>
          let error = page_symlink v symname in
          if error \<noteq> 0 then (error, s)
          else case inodes s d of None \<Rightarrow> (- ENOSPC, s)
               | Some dir \<Rightarrow>
                 (0, update_dir d (\<lambda>dir. dir\<lparr>i_time := current_time v\<rparr>)
                       (d_instantiate d nm ino
                          (if i_mode dir AND S_ISGID \<noteq> 0 then i\<lparr>i_gid := i_gid dir\<rparr> else i) s)))"

section \<open>The super block\<close>

definition SAMPLEFS_MAGIC :: u32 where "SAMPLEFS_MAGIC = 0x73616d70"

record super_block =
  s_magic :: u32
  s_fs_info :: "samplefs_sb_info option"
  s_root :: bool

definition samplefs_fill_super :: "kernel \<Rightarrow> vfs \<Rightarrow> (string \<Rightarrow> u64) \<Rightarrow> string option \<Rightarrow> super_block \<Rightarrow> resource list
    \<Rightarrow> int \<times> super_block \<times> resource list" where
  "samplefs_fill_super k v strtoul data sb h =
     (let sb = sb\<lparr>s_magic := SAMPLEFS_MAGIC\<rparr>;
          (info, h) = acquire_ptr k Sb_info h in
      if info = Null then (- 12, sb\<lparr>s_fs_info := None\<rparr>, h)
      else let sfs_sb = \<lparr>rsize = 0, wsize = 0, sb_flags = 0\<rparr>; sb = sb\<lparr>s_fs_info := Some sfs_sb\<rparr> in
        case samplefs_get_inode v (S_IFDIR OR 0x1ed) 0 of
          None \<Rightarrow> (- 12, sb, release Sb_info h)
        | Some _ \<Rightarrow>
            let h = Root_inode # h; (root, h) = acquire_ptr k Root_dentry h in
            if root = Null then (- 12, sb, release Sb_info (release Root_inode h))
            else (0, sb\<lparr>s_root := True, s_fs_info := Some (samplefs_parse_mount_options strtoul data sfs_sb)\<rparr>, Nls # h))"

definition samplefs_put_super :: "super_block \<Rightarrow> resource list \<Rightarrow> resource list" where
  "samplefs_put_super sb h = (if s_fs_info sb = None then h else release Sb_info (release Nls h))"

section \<open>The proc file\<close>

definition debug_text :: string where
  "debug_text = ''Display Debugging Information'' @ [CHR 0x0a] @ ''-----------------------------'' @ [CHR 0x0a]"

text \<open>
  \<^verbatim>\<open>sfs_debug_read\<close>: the number of bytes from \<^verbatim>\<open>beginBuffer = buf + offset\<close> on, and the end-of-file mark.
\<close>

definition sfs_debug_read :: "int \<Rightarrow> int \<Rightarrow> bool \<Rightarrow> int \<times> bool" where
  "sfs_debug_read offset count eof =
     (let len = int (length debug_text);
          eof = (if offset + count \<ge> len then True else eof) in
      if len < offset then (0, True)
      else let len = len - offset in (if len > count then count else len, eof))"

section \<open>The module\<close>

definition sfs_proc_init :: "kernel \<Rightarrow> resource list \<Rightarrow> resource list" where
  "sfs_proc_init k h =
     (let (dir, h) = acquire_ptr k Proc_dir h
      in if dir = Null then h else snd (acquire_ptr k Proc_entry h))"

text \<open>The variable \<^verbatim>\<open>proc_fs_samplefs\<close> is not null exactly when the directory exists.\<close>

definition sfs_proc_clean :: "resource list \<Rightarrow> resource list" where
  "sfs_proc_clean h = (if Proc_dir \<in> set h then release Proc_dir (release Proc_entry h) else h)"

definition clamp_parm :: "u32 \<Rightarrow> u32" where
  "clamp_parm sample_parm = (if sample_parm > 256 then 10 else sample_parm)"

definition init_samplefs_fs :: "kernel \<Rightarrow> u32 \<Rightarrow> resource list \<Rightarrow> int \<times> u32 \<times> resource list" where
  "init_samplefs_fs k sample_parm h =
     (let h = sfs_proc_init k h; p = clamp_parm sample_parm; (rc, h) = acquire k Filesystem_type h
      in (rc, p, h))"

definition exit_samplefs_fs :: "resource list \<Rightarrow> resource list" where
  "exit_samplefs_fs h = release Filesystem_type (sfs_proc_clean h)"

section \<open>Mount options\<close>

lemma size_option_range: "size_option strtoul v = Some sz \<Longrightarrow> 0 < sint sz"
  by (auto simp: size_option_def Let_def split: option.splits if_splits)

definition sizes_ok :: "samplefs_sb_info \<Rightarrow> bool" where
  "sizes_ok sb \<longleftrightarrow> 0 \<le> sint (rsize sb) \<and> 0 \<le> sint (wsize sb) \<and> sb_flags sb AND NOT SFS_MNT_CASE = 0"

lemma parse_option_sizes: "sizes_ok sb \<Longrightarrow> sizes_ok (parse_option strtoul opt sb)"
  by (auto simp: parse_option_def sizes_ok_def Let_def bit.conj_disj_distrib2 split: option.splits prod.splits
      dest!: size_option_range)

text \<open>
  C27: Whatever the option string is, parsing it keeps the sizes non-negative as signed numbers and sets
  no flag but the one for ignoring case; a null string changes nothing.
\<close>

theorem mount_options_sizes:
  assumes "sizes_ok sb"
  shows "sizes_ok (samplefs_parse_mount_options strtoul options sb)
    \<and> samplefs_parse_mount_options strtoul None sb = sb"
proof -
  have "sizes_ok (fold (parse_option strtoul) opts sb)" for opts
    using assms by (induction opts arbitrary: sb) (simp_all add: parse_option_sizes)
  then show ?thesis using assms by (simp add: samplefs_parse_mount_options_def split: option.splits)
qed

theorem mount_options_sizes_witness:
  "sizes_ok (samplefs_parse_mount_options (\<lambda>_. 4096) (Some ''rsize=4096,nocase'') \<lparr>rsize = 0, wsize = 0, sb_flags = 0\<rparr>)"
  using mount_options_sizes [of "\<lparr>rsize = 0, wsize = 0, sb_flags = 0\<rparr>"] by (simp add: sizes_ok_def)

text \<open>Options separated by commas are parsed one after the other.\<close>

lemma strsep_all_append:
  assumes "CHR '','' \<notin> set xs"
  shows "strsep_all (xs @ CHR '','' # ys) = xs # strsep_all ys"
  using assms by (induction xs) auto

lemma strsep_all_not_Nil [simp]: "strsep_all xs \<noteq> []"
  by (induction xs rule: strsep_all.induct) (auto split: list.splits)

text \<open>
  Parsing a list of options joined by commas is parsing them in order, so that of two sizes given
  for the same name the last one counts.
\<close>

theorem mount_options_in_order:
  assumes "CHR '','' \<notin> set o1"
  shows "samplefs_parse_mount_options strtoul (Some (o1 @ CHR '','' # o2)) sb
    = samplefs_parse_mount_options strtoul (Some o2) (parse_option strtoul o1 sb)"
  using assms by (simp add: samplefs_parse_mount_options_def strsep_all_append)

theorem mount_options_in_order_witness:
  "samplefs_parse_mount_options (\<lambda>_. 8) (Some (''nocase'' @ CHR '','' # ''rsize=8'')) \<lparr>rsize = 0, wsize = 0, sb_flags = 0\<rparr>
   = samplefs_parse_mount_options (\<lambda>_. 8) (Some ''rsize=8'') (parse_option (\<lambda>_. 8) ''nocase'' \<lparr>rsize = 0, wsize = 0, sb_flags = 0\<rparr>)"
  by (rule mount_options_in_order) simp

section \<open>Names\<close>

text \<open>
  Names that the case-insensitive comparison calls equal have the same hash, as the dentry cache
  requires.  The hypothesis is what \<^verbatim>\<open>nls_strnicmp\<close> decides: equality of the lower-case characters.
\<close>

theorem ci_compare_hash:
  assumes "\<And>a b n. nls_strnicmp ops a b n = 0 \<longleftrightarrow> map (nls_tolower ops) (take n a) = map (nls_tolower ops) (take n b)"
    and "fst (sfs_ci_compare ops a b) = 0"
  shows "sfs_ci_hash ops a = sfs_ci_hash ops b \<and> length a = length b \<and> snd (sfs_ci_compare ops a b) = b"
proof -
  have e: "length a = length b" "map (nls_tolower ops) a = map (nls_tolower ops) b"
    using assms(2) by (auto simp: sfs_ci_compare_def assms(1) split: if_splits)
  have "fold (\<lambda>c. partial_name_hash ops (nls_tolower ops c)) q h
      = fold (partial_name_hash ops) (map (nls_tolower ops) q) h" for q h
    by (simp add: fold_map comp_def)
  then show ?thesis using e assms(2) by (simp add: sfs_ci_hash_def sfs_ci_compare_def assms(1))
qed

definition ascii_ops :: name_ops where
  "ascii_ops =
     (let lo = \<lambda>c :: u8. if 65 \<le> c \<and> c \<le> 90 then c + 32 else c
      in \<lparr>nls_tolower = lo, nls_strnicmp = \<lambda>a b n. if map lo (take n a) = map lo (take n b) then 0 else 1,
          init_name_hash = 0, partial_name_hash = \<lambda>c h. (h + ucast c) * 11, end_name_hash = \<lambda>h. ucast h\<rparr>)"

theorem ci_compare_hash_witness: "sfs_ci_hash ascii_ops [65, 98] = sfs_ci_hash ascii_ops [97, 66]"
  by (rule conjunct1 [OF ci_compare_hash]) (simp_all add: ascii_ops_def sfs_ci_compare_def Let_def)

section \<open>The proc file\<close>

text \<open>The pieces a reader gets that asks for \<open>count\<close> bytes at a time until the end is announced.\<close>

fun proc_cat :: "nat \<Rightarrow> int \<Rightarrow> int \<Rightarrow> string list option" where
  "proc_cat 0 count offset = None"
| "proc_cat (Suc fuel) count offset =
     (case sfs_debug_read offset count False of (n, eof) \<Rightarrow>
        let piece = take (nat n) (drop (nat offset) debug_text)
        in if eof then Some [piece] else map_option (Cons piece) (proc_cat fuel count (offset + n)))"

text \<open>Pieces of \<open>c\<close> bytes, the last of which may be shorter but is not empty.\<close>

definition pieces_of :: "nat \<Rightarrow> 'a list \<Rightarrow> 'a list list \<Rightarrow> bool" where
  "pieces_of c xs ps \<longleftrightarrow>
     concat ps = xs \<and> ps \<noteq> [] \<and> (\<forall>p \<in> set (butlast ps). length p = c) \<and> last ps \<noteq> [] \<and> length (last ps) \<le> c"

lemma pieces_of_Cons: "length p = c \<Longrightarrow> pieces_of c xs ps \<Longrightarrow> pieces_of c (p @ xs) (p # ps)"
  by (auto simp: pieces_of_def)

lemma proc_cat_from:
  assumes "0 < c" "offset < length debug_text" "length debug_text - offset \<le> fuel"
  shows "\<exists>ps. proc_cat fuel (int c) (int offset) = Some ps \<and> pieces_of c (drop offset debug_text) ps"
  using assms
proof (induction fuel arbitrary: offset)
  case (Suc fuel)
  show ?case
  proof (cases "length debug_text \<le> offset + c")
    case True
    then have "sfs_debug_read (int offset) (int c) False = (int (length debug_text - offset), True)"
      using Suc.prems by (simp add: sfs_debug_read_def Let_def of_nat_diff)
    then show ?thesis using True Suc.prems by (simp add: pieces_of_def)
  next
    case False
    then have r: "sfs_debug_read (int offset) (int c) False = (int c, False)"
      using Suc.prems by (simp add: sfs_debug_read_def Let_def)
    have "offset + c < length debug_text" "length debug_text - (offset + c) \<le> fuel"
      using Suc.prems False by linarith+
    then obtain ps where ps: "proc_cat fuel (int c) (int offset + int c) = Some ps"
      "pieces_of c (drop (offset + c) debug_text) ps"
      using Suc.IH [of "offset + c"] Suc.prems(1) by auto
    have "take c (drop offset debug_text) @ drop (offset + c) debug_text = drop offset debug_text"
      by (simp add: add.commute drop_drop [symmetric] del: drop_drop)
    then have "pieces_of c (drop offset debug_text) (take c (drop offset debug_text) # ps)"
      using pieces_of_Cons [OF _ ps(2), of "take c (drop offset debug_text)"] False by simp
    then show ?thesis using r ps(1) by simp
  qed
qed simp

text \<open>
  C26: Reading the proc file in pieces of any positive size ends and gives its text: every read before the
  last returns as many bytes as were asked for, and the read that reaches the end of the text announces
  it, so that the last piece is not empty.
\<close>

theorem proc_cat_text:
  assumes "0 < c"
  shows "\<exists>ps. proc_cat (length debug_text) (int c) 0 = Some ps \<and> concat ps = debug_text
    \<and> (\<forall>p \<in> set (butlast ps). length p = c) \<and> last ps \<noteq> [] \<and> length (last ps) \<le> c"
proof -
  have "0 < length debug_text" by (simp add: debug_text_def)
  then show ?thesis using proc_cat_from [OF assms, of 0 "length debug_text"] by (auto simp: pieces_of_def)
qed

theorem proc_cat_text_witness:
  "\<exists>ps. proc_cat (length debug_text) 7 0 = Some ps \<and> concat ps = debug_text \<and> last ps \<noteq> []"
  using proc_cat_text [of 7] by auto

section \<open>The module and the super block\<close>

text \<open>
  C39: When the kernel refuses to register the file system, init returns the error with the proc entries
  still registered, and the kernel never calls exit for a module that failed to load.
\<close>

theorem register_failure_leaks:
  assumes "ptr_call k Proc_dir h = Valid" "ptr_call k Proc_entry (Proc_dir # h) = Valid"
    and "int_call k Filesystem_type (Proc_entry # Proc_dir # h) < 0"
  shows "init_samplefs_fs k parm h = (int_call k Filesystem_type (Proc_entry # Proc_dir # h), clamp_parm parm, Proc_entry # Proc_dir # h)"
  using assms by (simp add: init_samplefs_fs_def sfs_proc_init_def acquire_ptr_def acquire_def Let_def)

theorem register_failure_leaks_witness:
  "init_samplefs_fs (refusing Filesystem_type) 300 [] = (- 16, 10, [Proc_entry, Proc_dir])"
  using register_failure_leaks [of "refusing Filesystem_type" "[]" 300] by (simp add: refusing_def clamp_parm_def)

text \<open>
  C25: A mount that fails gives back all it has allocated; after a mount that succeeds, put_super and the
  release of the root give back everything.
\<close>

theorem fill_super_balanced:
  assumes "\<And>r h. ptr_call k r h \<noteq> Err_ptr" "samplefs_fill_super k v strtoul data sb h = (rc, sb', h')"
  shows "if rc = 0 then release Root_inode (release Root_dentry (samplefs_put_super sb' h')) = h \<and> s_magic sb' = SAMPLEFS_MAGIC
         else rc = - 12 \<and> h' = h"
proof -
  have "p \<noteq> Null \<Longrightarrow> p \<noteq> Err_ptr \<Longrightarrow> p = Valid" for p by (cases p) simp_all
  then have v: "ptr_call k r h \<noteq> Null \<Longrightarrow> ptr_call k r h = Valid" for r h using assms(1) by blast
  show ?thesis
    using assms(2)
    by (auto simp: samplefs_fill_super_def samplefs_put_super_def acquire_ptr_def Let_def v split: if_splits option.splits)
qed

definition plain_vfs :: vfs where
  "plain_vfs = \<lparr>fsuid = 0, fsgid = 0, current_time = 0,
     new_inode = Some \<lparr>i_mode = 0, i_uid = 0, i_gid = 0, i_blocks = 0, i_size = 0, i_nlink = 1, i_op = No_iops, i_fop = No_fops, i_time = 0\<rparr>,
     init_special_inode = \<lambda>i _ _. i, page_symlink = \<lambda>_. 0\<rparr>"

theorem fill_super_balanced_witness:
  "samplefs_fill_super (refusing Root_dentry) plain_vfs (\<lambda>_. 0) None \<lparr>s_magic = 0, s_fs_info = None, s_root = False\<rparr> []
   = (- 12, \<lparr>s_magic = SAMPLEFS_MAGIC, s_fs_info = Some \<lparr>rsize = 0, wsize = 0, sb_flags = 0\<rparr>, s_root = False\<rparr>, [])"
proof -
  have "samplefs_fill_super (refusing Root_dentry) plain_vfs (\<lambda>_. 0) None \<lparr>s_magic = 0, s_fs_info = None, s_root = False\<rparr> []
      = (- 12, \<lparr>s_magic = SAMPLEFS_MAGIC, s_fs_info = Some \<lparr>rsize = 0, wsize = 0, sb_flags = 0\<rparr>, s_root = False\<rparr>, [])"
    by (simp add: samplefs_fill_super_def refusing_def plain_vfs_def samplefs_get_inode_def acquire_ptr_def Let_def mode_defs)
  from fill_super_balanced [OF _ this] this show ?thesis by (simp add: refusing_def)
qed

section \<open>Link counts and sizes of directories\<close>

definition kind :: "inode \<Rightarrow> u32" where
  "kind i = i_mode i AND S_IFMT"

definition kids :: "fs \<Rightarrow> nat \<Rightarrow> (u32 \<Rightarrow> bool) \<Rightarrow> string set" where
  "kids s d P = {nm. \<exists>c i. dentries s (d, nm) = Some c \<and> inodes s c = Some i \<and> P (kind i)}"

text \<open>
  Every directory counts itself, its entry in the parent and its subdirectories as links, and 32 bytes
  for each entry that is not a symbolic link.
\<close>

definition dir_ok :: "fs \<Rightarrow> nat \<Rightarrow> inode \<Rightarrow> bool" where
  "dir_ok s d i \<longleftrightarrow>
     i_nlink i = 2 + card (kids s d (\<lambda>k. k = S_IFDIR)) \<and> i_size i = 0x20 * card (kids s d (\<lambda>k. k \<noteq> S_IFLNK))"

definition fs_inv :: "fs \<Rightarrow> bool" where
  "fs_inv s \<longleftrightarrow>
     finite (dom (dentries s)) \<and>
     (\<forall>d nm c. dentries s (d, nm) = Some c \<longrightarrow> inodes s c \<noteq> None \<and> inodes s d \<noteq> None) \<and>
     (\<forall>d i. inodes s d = Some i \<longrightarrow> kind i = S_IFDIR \<longrightarrow> dir_ok s d i)"

text \<open>What the kernel guarantees about the calls: fresh inodes, existing directories, unused names.\<close>

definition vfs_ok :: "vfs \<Rightarrow> bool" where
  "vfs_ok v \<longleftrightarrow> (\<forall>i. new_inode v = Some i \<longrightarrow> i_nlink i = 1 \<and> i_size i = 0)"

definition entry_ok :: "fs \<Rightarrow> nat \<Rightarrow> nat \<Rightarrow> string \<Rightarrow> bool" where
  "entry_ok s ino d nm \<longleftrightarrow>
     inodes s ino = None \<and> (\<exists>i. inodes s d = Some i \<and> kind i = S_IFDIR) \<and> dentries s (d, nm) = None"

inductive fs_reach :: "fs \<Rightarrow> bool" where
  fs_root: "kind r = S_IFDIR \<Longrightarrow> i_nlink r = 2 \<Longrightarrow> i_size r = 0 \<Longrightarrow>
    fs_reach \<lparr>inodes = [0 \<mapsto> r], dentries = Map.empty\<rparr>"
| fs_mkdir: "fs_reach s \<Longrightarrow> vfs_ok v \<Longrightarrow> entry_ok s ino d nm \<Longrightarrow> mode AND S_IFMT = 0 \<Longrightarrow>
    fs_reach (snd (sfs_mkdir v ino d nm mode s))"
| fs_create: "fs_reach s \<Longrightarrow> vfs_ok v \<Longrightarrow> entry_ok s ino d nm \<Longrightarrow> mode AND S_IFMT = 0 \<Longrightarrow>
    fs_reach (snd (sfs_create v ino d nm mode s))"
| fs_symlink: "fs_reach s \<Longrightarrow> vfs_ok v \<Longrightarrow> entry_ok s ino d nm \<Longrightarrow>
    fs_reach (snd (sfs_symlink v ino d nm symname s))"

lemma mode_kind:
  "mode AND S_IFMT = 0 \<Longrightarrow> (mode OR S_IFDIR) AND S_IFMT = S_IFDIR"
  "mode AND S_IFMT = 0 \<Longrightarrow> (mode OR S_IFREG) AND S_IFMT = S_IFREG"
  "(S_IFLNK OR S_IRWXUGO) AND S_IFMT = S_IFLNK"
  by (simp_all add: bit.conj_disj_distrib2 mode_defs)

lemma kind_update [simp]:
  "kind (i\<lparr>i_nlink := n\<rparr>) = kind i" "kind (i\<lparr>i_size := n\<rparr>) = kind i" "kind (i\<lparr>i_gid := n\<rparr>) = kind i"
  "kind (i\<lparr>i_time := n\<rparr>) = kind i"
  by (simp_all add: kind_def)

lemma mode_neq [simp]:
  "S_IFREG \<noteq> S_IFDIR" "S_IFDIR \<noteq> S_IFREG" "S_IFREG \<noteq> S_IFLNK" "S_IFDIR \<noteq> S_IFLNK" "S_IFLNK \<noteq> S_IFDIR"
  by (simp_all add: mode_defs)

lemma kind_inherit: "kind (inherit_gid dir mode i) = kind i"
  by (simp add: inherit_gid_def kind_def Let_def bit.conj_disj_distrib2 mode_defs)

lemma inherit_fields [simp]:
  "i_nlink (inherit_gid dir mode i) = i_nlink i" "i_size (inherit_gid dir mode i) = i_size i"
  by (simp_all add: inherit_gid_def Let_def)

lemma fs_invD: "fs_inv s \<Longrightarrow> dentries s (d, nm) = Some c \<Longrightarrow> inodes s c \<noteq> None \<and> inodes s d \<noteq> None"
  unfolding fs_inv_def by blast

lemma kids_finite: "fs_inv s \<Longrightarrow> finite (kids s d P)"
proof -
  assume "fs_inv s"
  then have "finite (snd ` dom (dentries s))" by (simp add: fs_inv_def)
  moreover have "kids s d P \<subseteq> snd ` dom (dentries s)" by (force simp: kids_def)
  ultimately show ?thesis by (rule rev_finite_subset)
qed

text \<open>Adding an entry: the new inode \<open>i\<close>, and the directory changed by \<open>f\<close>, which keeps its kind.\<close>

lemma kids_add:
  assumes "fs_inv s" "inodes s ino = None" "inodes s d = Some dir" "dentries s (d, nm) = None" "kind (f dir) = kind dir"
  shows "kids (update_dir d f (d_instantiate d nm ino i s)) x P =
    (if x = d \<and> P (kind i) then insert nm (kids s x P) else kids s x P)"
proof -
  have "d \<noteq> ino" using assms(2,3) by auto
  moreover have "dentries s (x, n) \<noteq> Some ino" for n using fs_invD [OF assms(1), of x n ino] assms(2) by auto
  ultimately show ?thesis
    using assms(3-5)
    by (fastforce simp: kids_def update_dir_def d_instantiate_def split: if_splits)
qed

lemma kids_new: "fs_inv s \<Longrightarrow> inodes s ino = None \<Longrightarrow> kids s ino P = {}"
  using fs_invD [of s ino] by (fastforce simp: kids_def)

lemma fs_inv_add:
  assumes "fs_inv s" "inodes s ino = None" "inodes s d = Some dir" "kind dir = S_IFDIR" "dentries s (d, nm) = None"
    and "kind (f dir) = S_IFDIR" "kind i = S_IFDIR \<Longrightarrow> i_nlink i = 2 \<and> i_size i = 0"
    and "i_nlink (f dir) = i_nlink dir + (if kind i = S_IFDIR then 1 else 0)"
    and "i_size (f dir) = i_size dir + (if kind i \<noteq> S_IFLNK then 0x20 else 0)"
  shows "fs_inv (update_dir d f (d_instantiate d nm ino i s))" (is "fs_inv ?s")
proof -
  have di: "d \<noteq> ino" using assms(2,3) by auto
  have k: "kids ?s x P = (if x = d \<and> P (kind i) then insert nm (kids s x P) else kids s x P)" for x P
    by (rule kids_add [OF assms(1-3,5)]) (use assms(4,6) in simp)
  have n: "nm \<notin> kids s d P" for P using assms(5) by (simp add: kids_def)
  have dok: "dir_ok s d dir" using assms(1,3,4) by (simp add: fs_inv_def)
  have "dir_ok ?s d (f dir)"
    using dok assms(8,9) n kids_finite [OF assms(1)] by (auto simp: dir_ok_def k)
  moreover have "dir_ok ?s ino i" if "kind i = S_IFDIR"
    using that assms(7) di kids_new [OF assms(1,2)] by (simp add: dir_ok_def k)
  moreover have "dir_ok ?s x j" if "x \<noteq> d" "inodes s x = Some j" "kind j = S_IFDIR" for x j
    using that assms(1) by (simp add: dir_ok_def k fs_inv_def)
  moreover have "finite (dom (dentries ?s))" "\<forall>d' nm' c. dentries ?s (d', nm') = Some c \<longrightarrow> inodes ?s c \<noteq> None \<and> inodes ?s d' \<noteq> None"
    using assms(1,3) di by (auto simp: fs_inv_def update_dir_def d_instantiate_def)
  moreover have "inodes ?s x = (if x = d then Some (f dir) else if x = ino then Some i else inodes s x)" for x
    using assms(3) di by (simp add: update_dir_def d_instantiate_def)
  ultimately show ?thesis by (auto simp: fs_inv_def split: if_splits)
qed

lemma get_inode_fields:
  assumes "vfs_ok v" "samplefs_get_inode v mode 0 = Some i" "mode AND S_IFMT \<in> {S_IFDIR, S_IFREG, S_IFLNK}"
  shows "kind i = mode AND S_IFMT" "i_size i = 0" "i_nlink i = (if mode AND S_IFMT = S_IFDIR then 2 else 1)"
  using assms by (auto simp: samplefs_get_inode_def vfs_ok_def kind_def Let_def mode_defs split: if_splits)

lemma mknod_inv:
  assumes "fs_inv s" "vfs_ok v" "entry_ok s ino d nm" "mode AND S_IFMT \<in> {S_IFDIR, S_IFREG}"
    and "\<And>dir. f dir = dir\<lparr>i_nlink := i_nlink dir + (if mode AND S_IFMT = S_IFDIR then 1 else 0)\<rparr>"
  shows "case sfs_mknod v ino d nm mode 0 s of (rc, s') \<Rightarrow> if rc = 0 then fs_inv (update_dir d f s') else s' = s"
proof (cases "samplefs_get_inode v mode 0")
  case None
  then show ?thesis by (simp add: sfs_mknod_def)
next
  case (Some i)
  have i: "kind i = mode AND S_IFMT" "i_size i = 0" "i_nlink i = (if mode AND S_IFMT = S_IFDIR then 2 else 1)"
    by (rule get_inode_fields [OF assms(2) Some]; use assms(4) in auto)+
  obtain dir where dir: "inodes s d = Some dir" "kind dir = S_IFDIR"
    and e: "inodes s ino = None" "dentries s (d, nm) = None"
    using assms(3) by (auto simp: entry_ok_def)
  let ?g = "\<lambda>dir. dir\<lparr>i_time := current_time v, i_size := i_size dir + 0x20\<rparr>"
  have "fs_inv (update_dir d (f \<circ> ?g) (d_instantiate d nm ino (inherit_gid dir mode i) s))"
    by (rule fs_inv_add [OF assms(1) e(1) dir e(2)])
      (use dir(2) i assms(4) in \<open>auto simp: assms(5) kind_inherit\<close>)
  moreover have "update_dir d f (update_dir d ?g t) = update_dir d (f \<circ> ?g) t" for t
    by (simp add: update_dir_def split: option.splits)
  ultimately show ?thesis by (simp add: sfs_mknod_def Some dir(1))
qed

lemma update_dir_id: "(\<And>i. f i = i) \<Longrightarrow> update_dir d f s = s"
  by (simp add: update_dir_def fun_upd_idem split: option.splits)

lemma symlink_inv:
  assumes "fs_inv s" "vfs_ok v" "entry_ok s ino d nm"
  shows "fs_inv (snd (sfs_symlink v ino d nm symname s))"
proof (cases "samplefs_get_inode v (S_IFLNK OR S_IRWXUGO) 0")
  case None
  then show ?thesis using assms(1) by (simp add: sfs_symlink_def)
next
  case (Some i)
  have i: "kind i = S_IFLNK" using get_inode_fields(1) [OF assms(2) Some] by (simp add: mode_kind)
  obtain dir where dir: "inodes s d = Some dir" "kind dir = S_IFDIR"
    and e: "inodes s ino = None" "dentries s (d, nm) = None"
    using assms(3) by (auto simp: entry_ok_def)
  have "fs_inv (update_dir d (\<lambda>dir. dir\<lparr>i_time := current_time v\<rparr>)
      (d_instantiate d nm ino (if i_mode dir AND S_ISGID \<noteq> 0 then i\<lparr>i_gid := i_gid dir\<rparr> else i) s))"
    by (rule fs_inv_add [OF assms(1) e(1) dir e(2)]) (use dir(2) i in auto)
  then show ?thesis using assms(1) by (simp add: sfs_symlink_def Some dir(1) Let_def)
qed

lemma fs_reach_inv: "fs_reach s \<Longrightarrow> fs_inv s"
proof (induction rule: fs_reach.induct)
  case (fs_root r)
  then show ?case by (auto simp: fs_inv_def dir_ok_def kids_def)
next
  case (fs_mkdir s v ino d nm mode)
  show ?case
    using mknod_inv [OF fs_mkdir(5,2,3), of "mode OR S_IFDIR" "\<lambda>dir. dir\<lparr>i_nlink := i_nlink dir + 1\<rparr>"] fs_mkdir
    by (auto simp: sfs_mkdir_def mode_kind Let_def split: prod.splits if_splits)
next
  case (fs_create s v ino d nm mode)
  have "update_dir d (\<lambda>dir. dir\<lparr>i_nlink := i_nlink dir + 0\<rparr>) t = t" for t by (rule update_dir_id) simp
  moreover have "S_IFREG \<noteq> S_IFDIR" by (simp add: mode_defs)
  ultimately show ?case
    using mknod_inv [OF fs_create(5,2,3), of "mode OR S_IFREG" "\<lambda>dir. dir\<lparr>i_nlink := i_nlink dir + 0\<rparr>"] fs_create
    by (auto simp: sfs_create_def mode_kind split: prod.splits if_splits)
next
  case (fs_symlink s v ino d nm symname)
  then show ?case by (intro symlink_inv)
qed

text \<open>
  C24: However directories, files and symbolic links are created, with or without success, every directory
  has two links and one more per subdirectory, and its size is 32 bytes per entry, not counting the
  symbolic links.
\<close>

theorem directory_counts:
  assumes "fs_reach s" "inodes s d = Some i" "i_mode i AND S_IFMT = S_IFDIR"
  shows "i_nlink i = 2 + card (kids s d (\<lambda>k. k = S_IFDIR)) \<and> i_size i = 32 * card (kids s d (\<lambda>k. k \<noteq> S_IFLNK))"
  using fs_reach_inv [OF assms(1)] assms(2,3) by (simp add: fs_inv_def dir_ok_def kind_def)

definition root_dir :: inode where
  "root_dir = \<lparr>i_mode = S_IFDIR, i_uid = 0, i_gid = 0, i_blocks = 0, i_size = 0, i_nlink = 2,
     i_op = Sfs_dir_inode_ops, i_fop = Simple_dir_operations, i_time = 0\<rparr>"

definition one_dir :: fs where
  "one_dir = snd (sfs_mkdir plain_vfs 1 0 ''a'' 0x1ed \<lparr>inodes = [0 \<mapsto> root_dir], dentries = Map.empty\<rparr>)"

lemma one_dir_reach: "fs_reach one_dir"
  unfolding one_dir_def
  by (rule fs_mkdir [OF fs_root]) (simp_all add: root_dir_def kind_def mode_defs vfs_ok_def plain_vfs_def entry_ok_def)

theorem directory_counts_witness:
  "card (kids one_dir 0 (\<lambda>k. k = S_IFDIR)) = 1 \<and> card (kids one_dir 0 (\<lambda>k. k \<noteq> S_IFLNK)) = 1"
proof -
  have "inodes one_dir 0 = Some (root_dir\<lparr>i_nlink := 3, i_size := 32\<rparr>)"
    by (simp add: one_dir_def sfs_mkdir_def sfs_mknod_def samplefs_get_inode_def plain_vfs_def update_dir_def
        d_instantiate_def root_dir_def Let_def mode_defs)
  from directory_counts [OF one_dir_reach this] show ?thesis by (simp add: root_dir_def mode_defs)
qed

end
