(* ===== verification/Threads.thy ===== *)
theory Threads
  imports Kmodules
begin

text \<open>
  Programs about waiting: the two threads of \<^verbatim>\<open>src/modules/deadlock\<close> that take two mutexes in
  opposite orders, the busy loop of \<^verbatim>\<open>src/softlockup_test\<close>, the init function of
  \<^verbatim>\<open>src/modules/d_process\<close> that waits for a condition, and the threads of
  \<^verbatim>\<open>src/modules/device/client_mtt.c\<close> that share the character device.  Each is a step
  relation; the executions are its reachable states.
\<close>

section \<open>Two mutexes\<close>

datatype thread = T1 | T2
datatype pc = Start | Has_first | Returned

record kthread_arg =
  my_mutex1 :: "thread option"
  my_mutex2 :: "thread option"
  pc1 :: pc
  pc2 :: pc

definition d_init :: kthread_arg where
  "d_init = \<lparr>my_mutex1 = None, my_mutex2 = None, pc1 = Start, pc2 = Start\<rparr>"

text \<open>The next step of a thread; \<open>None\<close> when it sleeps on a mutex or has returned.\<close>

definition MyPrintk1 :: "kthread_arg \<Rightarrow> kthread_arg option" where
  "MyPrintk1 s =
     (case pc1 s of
        Start \<Rightarrow> if my_mutex1 s = None then Some (s\<lparr>my_mutex1 := Some T1, pc1 := Has_first\<rparr>) else None
      | Has_first \<Rightarrow> if my_mutex2 s = None then Some (s\<lparr>my_mutex2 := Some T1, pc1 := Returned\<rparr>) else None
      | Returned \<Rightarrow> None)"

definition MyPrintk2 :: "kthread_arg \<Rightarrow> kthread_arg option" where
  "MyPrintk2 s =
     (case pc2 s of
        Start \<Rightarrow> if my_mutex2 s = None then Some (s\<lparr>my_mutex2 := Some T2, pc2 := Has_first\<rparr>) else None
      | Has_first \<Rightarrow> if my_mutex1 s = None then Some (s\<lparr>my_mutex1 := Some T2, pc2 := Returned\<rparr>) else None
      | Returned \<Rightarrow> None)"

inductive dl_reach :: "kthread_arg \<Rightarrow> bool" where
  dl_init: "dl_reach d_init"
| dl_step1: "dl_reach s \<Longrightarrow> MyPrintk1 s = Some s' \<Longrightarrow> dl_reach s'"
| dl_step2: "dl_reach s \<Longrightarrow> MyPrintk2 s = Some s' \<Longrightarrow> dl_reach s'"

definition stuck :: "kthread_arg \<Rightarrow> bool" where
  "stuck s \<longleftrightarrow> MyPrintk1 s = None \<and> MyPrintk2 s = None"

definition dl_inv :: "kthread_arg \<Rightarrow> bool" where
  "dl_inv s \<longleftrightarrow>
     (my_mutex1 s = Some T1 \<longleftrightarrow> pc1 s \<noteq> Start) \<and> (my_mutex2 s = Some T1 \<longleftrightarrow> pc1 s = Returned) \<and>
     (my_mutex2 s = Some T2 \<longleftrightarrow> pc2 s \<noteq> Start) \<and> (my_mutex1 s = Some T2 \<longleftrightarrow> pc2 s = Returned)"

lemma dl_reach_inv: "dl_reach s \<Longrightarrow> dl_inv s"
proof (induction rule: dl_reach.induct)
  case dl_init
  show ?case by (simp add: d_init_def dl_inv_def)
next
  case (dl_step1 s s')
  then show ?case by (auto simp: MyPrintk1_def dl_inv_def split: pc.splits if_splits)
next
  case (dl_step2 s s')
  then show ?case by (auto simp: MyPrintk2_def dl_inv_def split: pc.splits if_splits)
qed

section \<open>The busy loop\<close>

datatype lockup = Checking | Critical u32 | Task_returned

record softlockup =
  lock_held :: bool
  task_at :: lockup

text \<open>One step of \<^verbatim>\<open>task\<close>; \<open>stop\<close> is what \<^verbatim>\<open>kthread_should_stop\<close> says at that moment.\<close>

definition task :: "bool \<Rightarrow> softlockup \<Rightarrow> softlockup" where
  "task stop s =
     (case task_at s of
        Checking \<Rightarrow> if stop then s\<lparr>task_at := Task_returned\<rparr>
                    else if lock_held s then s else s\<lparr>lock_held := True, task_at := Critical 0\<rparr>
      | Critical i \<Rightarrow> s\<lparr>task_at := Critical (i + 1)\<rparr>
      | Task_returned \<Rightarrow> s)"

definition softlockup_init :: softlockup where
  "softlockup_init = \<lparr>lock_held = False, task_at = Checking\<rparr>"

section \<open>Waiting for a condition\<close>

text \<open>
  \<^verbatim>\<open>wait_event\<close> returns once the condition holds at a check; \<open>checks\<close> are the values of the variable at
  the checks, the first being the one the function sets.
\<close>

definition Ds1_init :: "int list \<Rightarrow> bool" where
  "Ds1_init checks \<longleftrightarrow> (\<exists>c\<in>set (0x1234 # checks). c = 123)"

section \<open>Clients of the character device\<close>

datatype client_pc = Before | Opened | Wrote | Done "u8 list"

record clients =
  the_device :: device
  client_at :: "nat \<Rightarrow> client_pc"

text \<open>
  The steps of \<^verbatim>\<open>child\<close> number \<open>i\<close>, which sends \<open>msg i\<close> (the user memory from that pointer on).
\<close>

definition child :: "(nat \<Rightarrow> u8 list) \<Rightarrow> nat \<Rightarrow> clients \<Rightarrow> clients option" where
  "child msg i s =
     (case client_at s i of
        Before \<Rightarrow> Some (s\<lparr>the_device := snd (device_open (the_device s)), client_at := (client_at s)(i := Opened)\<rparr>)
      | Opened \<Rightarrow> Some (s\<lparr>the_device := snd (device_write (msg i) (length (takeWhile (\<lambda>b. b \<noteq> 0) (msg i))) (the_device s)),
                         client_at := (client_at s)(i := Wrote)\<rparr>)
      | Wrote \<Rightarrow> (case device_read 100 (the_device s) of None \<Rightarrow> None
                  | Some (_, bs) \<Rightarrow> Some (s\<lparr>client_at := (client_at s)(i := Done bs)\<rparr>))
      | Done _ \<Rightarrow> None)"

fun schedule :: "(nat \<Rightarrow> u8 list) \<Rightarrow> nat list \<Rightarrow> clients \<Rightarrow> clients option" where
  "schedule msg [] s = Some s"
| "schedule msg (i # is) s = Option.bind (child msg i s) (schedule msg is)"

section \<open>Properties\<close>

definition deadlocked :: kthread_arg where
  "deadlocked = \<lparr>my_mutex1 = Some T1, my_mutex2 = Some T2, pc1 = Has_first, pc2 = Has_first\<rparr>"

text \<open>
  C34: The two threads can block each other: the state in which each holds its first mutex and waits for
  the other one is reachable, and neither thread has a step there.
\<close>

theorem deadlock_reachable: "dl_reach deadlocked \<and> stuck deadlocked"
proof
  have "dl_reach (d_init\<lparr>my_mutex1 := Some T1, pc1 := Has_first\<rparr>)"
    by (rule dl_step1 [OF dl_init]) (simp add: MyPrintk1_def d_init_def)
  then show "dl_reach deadlocked"
    by (rule dl_step2) (simp add: MyPrintk2_def d_init_def deadlocked_def)
  show "stuck deadlocked" by (simp add: stuck_def deadlocked_def MyPrintk1_def MyPrintk2_def)
qed


lemma dl_init_reach: "dl_reach d_init"
  by (rule dl_init)



definition no_clients :: clients where
  "no_clients = \<lparr>the_device = \<lparr>mutex_locked = False, device_data = replicate 100 0\<rparr>, client_at = \<lambda>_. Before\<rparr>"

text \<open>
  The device gives clients no exclusion: a client that runs alone receives what it wrote, and when
  another client writes between its write and its read, it receives what the other one wrote.
\<close>

theorem clients_interfere:
  assumes "0 \<in> set (take 100 (msg i))" "0 \<in> set (take 100 (msg j))" "i \<noteq> j"
  shows "map_option (\<lambda>s. client_at s i) (schedule msg [i, i, i] no_clients)
           = Some (Done (takeWhile (\<lambda>b. b \<noteq> 0) (msg i)))
       \<and> map_option (\<lambda>s. client_at s i) (schedule msg [i, i, j, j, i] no_clients)
           = Some (Done (takeWhile (\<lambda>b. b \<noteq> 0) (msg j)))"
  using assms by (simp add: child_def no_clients_def device_write_read_string)

theorem clients_interfere_witness:
  "map_option (\<lambda>s. client_at s 0) (schedule (\<lambda>i. if i = 0 then [97, 97, 97, 0] else [98, 98, 98, 0]) [0, 0, 1, 1, 0] no_clients)
   = Some (Done [98, 98, 98])"
  using clients_interfere [of "\<lambda>i. if i = 0 then [97, 97, 97, 0] else [98, 98, 98, 0]" 0 1] by simp

end
