(* ===== verification/Spec2Isabelle.thy ===== *)
theory Spec2Isabelle
  imports Syscall_Spec Http_Filter Bpf_Load_Spec Probes Sockmap Sampleblk Samplefs Threads
begin

text \<open>
  Verification of the C programs of the repository.
\<close>

end
